(* ===== verification/Codec.thy ===== *)
theory Codec
  imports Prelude "HOL-Library.Multiset"
begin

text \<open>
  The wire codec of \<open>core/codec/src\<close>: bit access on byte slices (\<open>bits.rs\<close>), the
  self-advancing readers (\<open>reader.rs\<close>, \<open>mut_reader.rs\<close>), the writers
  (\<open>writer.rs\<close>) and the duplicate-rejecting sort (\<open>sort_unique.rs\<close>).

  A reader is a function from the remaining bytes to an error or the value read with the bytes
  left.  A writer to \<open>Vec<u8>\<close> is the byte string it appends.  Casts by the zerocopy
  library are an argument \<open>cast\<close> of the readers that use them.
\<close>

subsection \<open>Errors\<close>

datatype codec_error =
    Decode string
  | ZeroCopy string

text \<open>Code that can also panic: a failure is a returned error or a panic.\<close>

datatype fault =
    Err codec_error
  | Panic string

definition lift_err :: "codec_error + 'a \<Rightarrow> fault + 'a" where
  "lift_err r = (case r of Inl e \<Rightarrow> Inl (Err e) | Inr x \<Rightarrow> Inr x)"

type_synonym 'a reader = "bytes \<Rightarrow> codec_error + ('a \<times> bytes)"

subsection \<open>Bits\<close>

definition get_msb :: "bytes \<Rightarrow> nat \<Rightarrow> bool" where
  "get_msb bs index =
    (index div 8 < length bs \<and> drop_bit (7 - index mod 8) (bs ! (index div 8)) AND 1 = 1)"

definition get_lsb :: "bytes \<Rightarrow> nat \<Rightarrow> bool" where
  "get_lsb bs index =
    (index div 8 < length bs \<and> drop_bit (index mod 8) (bs ! (index div 8)) AND 1 = 1)"

definition set_msb :: "bytes \<Rightarrow> nat \<Rightarrow> bytes" where
  "set_msb bs index =
    (if index div 8 < length bs
     then bs[index div 8 := (bs ! (index div 8)) OR push_bit (7 - index mod 8) 1] else bs)"

definition set_lsb :: "bytes \<Rightarrow> nat \<Rightarrow> bytes" where
  "set_lsb bs index =
    (if index div 8 < length bs
     then bs[index div 8 := (bs ! (index div 8)) OR push_bit (index mod 8) 1] else bs)"

definition shares_prefix :: "bytes \<Rightarrow> bytes \<Rightarrow> nat \<Rightarrow> bool" where
  "shares_prefix a b bits =
    (let needed = (bits + 7) div 8 in
     if length a < needed \<or> length b < needed then False
     else let whole = bits div 8 in
       if take whole a \<noteq> take whole b then False
       else let rem = bits mod 8 in
         rem = 0 \<or> drop_bit (8 - rem) (a ! whole) = drop_bit (8 - rem) (b ! whole))"

subsection \<open>Readers\<close>

definition rd_bytes :: "nat \<Rightarrow> string \<Rightarrow> bytes reader" where
  "rd_bytes len field buf =
    (if len \<le> length buf then Inr (take len buf, drop len buf) else Inl (Decode field))"

definition rd_array :: "nat \<Rightarrow> string \<Rightarrow> bytes reader" where
  "rd_array n field buf =
    (if n \<le> length buf then Inr (take n buf, drop n buf) else Inl (Decode field))"

definition remaining :: "bytes \<Rightarrow> nat" where
  "remaining buf = length buf"

definition rd_byte :: "string \<Rightarrow> byte reader" where
  "rd_byte field buf = rbind (rd_array 1 field buf) (\<lambda>(a, buf). Inr (a ! 0, buf))"

definition rd_bool :: "string \<Rightarrow> bool reader" where
  "rd_bool field buf = rbind (rd_byte field buf) (\<lambda>(b, buf). Inr (b \<noteq> 0, buf))"

definition rd_le_u16 :: "string \<Rightarrow> u16 reader" where
  "rd_le_u16 field buf = rbind (rd_array 2 field buf) (\<lambda>(a, buf). Inr (word_of_nat (le_nat a), buf))"

definition rd_be_u16 :: "string \<Rightarrow> u16 reader" where
  "rd_be_u16 field buf = rbind (rd_array 2 field buf) (\<lambda>(a, buf). Inr (word_of_nat (be_nat a), buf))"

definition rd_le_u32 :: "string \<Rightarrow> u32 reader" where
  "rd_le_u32 field buf = rbind (rd_array 4 field buf) (\<lambda>(a, buf). Inr (word_of_nat (le_nat a), buf))"

definition rd_be_u32 :: "string \<Rightarrow> u32 reader" where
  "rd_be_u32 field buf = rbind (rd_array 4 field buf) (\<lambda>(a, buf). Inr (word_of_nat (be_nat a), buf))"

definition rd_le_u64 :: "string \<Rightarrow> u64 reader" where
  "rd_le_u64 field buf = rbind (rd_array 8 field buf) (\<lambda>(a, buf). Inr (word_of_nat (le_nat a), buf))"

definition rd_be_u64 :: "string \<Rightarrow> u64 reader" where
  "rd_be_u64 field buf = rbind (rd_array 8 field buf) (\<lambda>(a, buf). Inr (word_of_nat (be_nat a), buf))"

definition rd_array_as :: "nat \<Rightarrow> (bytes \<Rightarrow> codec_error + 'a) \<Rightarrow> string \<Rightarrow> 'a reader" where
  "rd_array_as sz cast field buf =
    rbind (rd_bytes sz field buf) (\<lambda>(bs, buf). rbind (cast bs) (\<lambda>v. Inr (v, buf)))"

text \<open>\<open>usize_bits\<close> is the width of \<open>usize\<close>: 64 on the host, 32 in the zkVM guest.\<close>

definition rd_slice_as ::
  "nat \<Rightarrow> nat \<Rightarrow> (bytes \<Rightarrow> codec_error + 'a) \<Rightarrow> string \<Rightarrow> 'a list reader" where
  "rd_slice_as usize_bits sz cast field buf =
    rbind (rd_le_u32 field buf) (\<lambda>(count, buf).
    rbind (ok_or (if unat count * sz < 2 ^ usize_bits then Some (unat count * sz) else None)
             (Decode field)) (\<lambda>len.
    rbind (rd_bytes len field buf) (\<lambda>(bs, buf).
    rbind (map_r cast (chunks sz (unat count) bs)) (\<lambda>vs. Inr (vs, buf)))))"

definition rd_blob :: "string \<Rightarrow> bytes reader" where
  "rd_blob field buf =
    rbind (rd_le_u32 field buf) (\<lambda>(len, buf). rd_bytes (unat len) field buf)"

definition rd_blob_as :: "(bytes \<Rightarrow> codec_error + 'a) \<Rightarrow> string \<Rightarrow> 'a reader" where
  "rd_blob_as cast field buf =
    rbind (rd_blob field buf) (\<lambda>(bs, buf). rbind (cast bs) (\<lambda>v. Inr (v, buf)))"

definition rd_skip :: "nat \<Rightarrow> string \<Rightarrow> unit reader" where
  "rd_skip n field buf = rbind (rd_bytes n field buf) (\<lambda>(_, buf). Inr ((), buf))"

fun rd_times :: "nat \<Rightarrow> 'a reader \<Rightarrow> 'a list reader" where
  "rd_times 0 decode_fn buf = Inr ([], buf)"
| "rd_times (Suc n) decode_fn buf =
    rbind (decode_fn buf) (\<lambda>(x, buf). rbind (rd_times n decode_fn buf) (\<lambda>(xs, buf). Inr (x # xs, buf)))"

definition rd_many :: "string \<Rightarrow> 'a reader \<Rightarrow> 'a list reader" where
  "rd_many field decode_fn buf =
    rbind (rd_le_u32 field buf) (\<lambda>(n, buf). rd_times (unat n) decode_fn buf)"

subsection \<open>UTF-8 strings\<close>

text \<open>The well-formedness test of \<open>core::str::from_utf8\<close>.\<close>

definition utf8_cont :: "byte \<Rightarrow> bool" where
  "utf8_cont b = (0x80 \<le> b \<and> b \<le> 0xBF)"

fun utf8_valid :: "bytes \<Rightarrow> bool" where
  "utf8_valid [] = True"
| "utf8_valid (a # as) =
    (if a < 0x80 then utf8_valid as
     else case as of
       [] \<Rightarrow> False
     | b # bs \<Rightarrow>
        if 0xC2 \<le> a \<and> a \<le> 0xDF then utf8_cont b \<and> utf8_valid bs
        else case bs of
          [] \<Rightarrow> False
        | c # cs \<Rightarrow>
           if 0xE0 \<le> a \<and> a \<le> 0xEF then
             utf8_cont b \<and> (a = 0xE0 \<longrightarrow> 0xA0 \<le> b) \<and> (a = 0xED \<longrightarrow> b \<le> 0x9F) \<and> utf8_cont c
             \<and> utf8_valid cs
           else case cs of
             [] \<Rightarrow> False
           | d # ds \<Rightarrow>
              0xF0 \<le> a \<and> a \<le> 0xF4 \<and> utf8_cont b \<and> (a = 0xF0 \<longrightarrow> 0x90 \<le> b) \<and> (a = 0xF4 \<longrightarrow> b \<le> 0x8F)
              \<and> utf8_cont c \<and> utf8_cont d \<and> utf8_valid ds)"

definition rd_string :: "string \<Rightarrow> bytes reader" where
  "rd_string field buf =
    rbind (rd_blob field buf) (\<lambda>(bs, buf). if utf8_valid bs then Inr (bs, buf) else Inl (Decode field))"

subsection \<open>Writers\<close>

definition wr_u16_le :: "u16 \<Rightarrow> bytes" where "wr_u16_le x = le_bytes 2 (unat x)"
definition wr_u32_le :: "u32 \<Rightarrow> bytes" where "wr_u32_le x = le_bytes 4 (unat x)"
definition wr_u64_le :: "u64 \<Rightarrow> bytes" where "wr_u64_le x = le_bytes 8 (unat x)"
definition wr_u16_be :: "u16 \<Rightarrow> bytes" where "wr_u16_be x = be_bytes 2 (unat x)"
definition wr_u32_be :: "u32 \<Rightarrow> bytes" where "wr_u32_be x = be_bytes 4 (unat x)"
definition wr_u64_be :: "u64 \<Rightarrow> bytes" where "wr_u64_be x = be_bytes 8 (unat x)"

text \<open>\<open>(n as u32).to_le_bytes()\<close>: the cast keeps the low 32 bits of the length.\<close>

definition wr_len :: "nat \<Rightarrow> bytes" where
  "wr_len n = wr_u32_le (word_of_nat n)"

definition write_blob :: "bytes \<Rightarrow> bytes" where
  "write_blob blob = wr_len (length blob) @ blob"

definition write_slice :: "('a \<Rightarrow> bytes) \<Rightarrow> 'a list \<Rightarrow> bytes" where
  "write_slice as_bytes xs = wr_len (length xs) @ concat (map as_bytes xs)"

definition write_many :: "('a \<Rightarrow> bytes) \<Rightarrow> 'a list \<Rightarrow> bytes" where
  "write_many to_bytes items = wr_len (length items) @ concat (map to_bytes items)"

definition encode_many :: "(bytes \<Rightarrow> 'a \<Rightarrow> bytes) \<Rightarrow> 'a list \<Rightarrow> bytes \<Rightarrow> bytes" where
  "encode_many encode_fn items w = foldl encode_fn (w @ wr_len (length items)) items"

subsection \<open>Sorting without duplicates\<close>

text \<open>
  The order is \<open>sort_unstable_by\<close> on the indices.  Equal elements make the walk fail, so
  the order of equal elements is never observed and a stable sort models it.
\<close>

fun reject_duplicates :: "'a list \<Rightarrow> 'a option \<Rightarrow> codec_error + 'a list" where
  "reject_duplicates [] prev = Inr []"
| "reject_duplicates (x # xs) prev =
    (if prev = Some x then Inl (Decode ''duplicate keys'')
     else rbind (reject_duplicates xs (Some x)) (\<lambda>ys. Inr (x # ys)))"

definition sort_order :: "'a::linorder list \<Rightarrow> nat list" where
  "sort_order xs = sort_key (\<lambda>i. xs ! i) [0..<length xs mod 2 ^ 32]"

definition sort_unique :: "'a::linorder list \<Rightarrow> codec_error + ('a list \<times> nat list)" where
  "sort_unique xs =
    (let order = sort_order xs in
     rbind (reject_duplicates (map (\<lambda>i. xs ! i) order) None) (\<lambda>sorted. Inr (sorted, order)))"


subsection \<open>Failures\<close>

lemma lift_err_simps [simp]:
  "lift_err (Inl e) = Inl (Err e)"
  "lift_err (Inr x) = Inr x"
  "lift_err r = Inr x \<longleftrightarrow> r = Inr x"
  by (auto simp: lift_err_def split: sum.splits)

subsection \<open>Bit access as the bits of a word\<close>

lemma and_one_bit: "(drop_bit n w AND 1 = 1) = bit (w :: byte) n"
  by (simp add: and_one_eq bit_iff_odd_drop_bit odd_iff_mod_2_eq_one)

lemma get_msb_bit: "get_msb bs i \<longleftrightarrow> i div 8 < length bs \<and> bit (bs ! (i div 8)) (7 - i mod 8)"
  by (simp add: get_msb_def and_one_bit)

lemma get_lsb_bit: "get_lsb bs i \<longleftrightarrow> i div 8 < length bs \<and> bit (bs ! (i div 8)) (i mod 8)"
  by (simp add: get_lsb_def and_one_bit)

lemma length_set_msb [simp]: "length (set_msb bs i) = length bs"
  by (simp add: set_msb_def)

lemma length_set_lsb [simp]: "length (set_lsb bs i) = length bs"
  by (simp add: set_lsb_def)

lemma bit_push_one: "bit (2 ^ n :: byte) m \<longleftrightarrow> m = n \<and> n < 8"
  by (auto simp: bit_simps)

lemma msb_index_eq: "(i div 8 = j div 8 \<and> 7 - i mod 8 = 7 - j mod 8) = (i = (j :: nat))"
proof
  assume a: "i div 8 = j div 8 \<and> 7 - i mod 8 = 7 - j mod 8"
  have "i mod 8 < 8" "j mod 8 < 8" by simp_all
  with a have "i mod 8 = j mod 8" by linarith
  with a show "i = j" by (metis div_mult_mod_eq)
qed simp

lemma get_msb_set_msb:
  "get_msb (set_msb bs i) j \<longleftrightarrow> get_msb bs j \<or> (i = j \<and> j div 8 < length bs)"
  using msb_index_eq [of i j]
  by (auto simp: get_msb_bit set_msb_def bit_or_iff bit_push_one nth_list_update)

lemma get_lsb_set_lsb:
  "get_lsb (set_lsb bs i) j \<longleftrightarrow> get_lsb bs j \<or> (i = j \<and> j div 8 < length bs)"
proof -
  have "i div 8 = j div 8 \<and> i mod 8 = j mod 8 \<longleftrightarrow> i = j" by (metis div_mult_mod_eq)
  then show ?thesis
    by (auto simp: get_lsb_bit set_lsb_def bit_or_iff bit_push_one nth_list_update)
qed

lemma byte_eq_iff: "(a :: byte) = b \<longleftrightarrow> (\<forall>k<8. bit a (7 - k) = bit b (7 - k))"
proof
  assume *: "\<forall>k<8. bit a (7 - k) = bit b (7 - k)"
  show "a = b"
  proof (rule bit_eqI)
    fix n
    assume "possible_bit TYPE(byte) n"
    then have "n < 8" by simp
    with *[rule_format, of "7 - n"] show "bit a n = bit b n" by simp
  qed
qed simp

lemma drop_bit_eq_iff:
  assumes "r \<le> 8"
  shows "drop_bit (8 - r) (a :: byte) = drop_bit (8 - r) b \<longleftrightarrow> (\<forall>k<r. bit a (7 - k) = bit b (7 - k))"
proof
  assume eq: "drop_bit (8 - r) a = drop_bit (8 - r) b"
  show "\<forall>k<r. bit a (7 - k) = bit b (7 - k)"
  proof (intro allI impI)
    fix k assume "k < r"
    with assms have "(8 - r) + (r - 1 - k) = 7 - k" by simp
    then show "bit a (7 - k) = bit b (7 - k)"
      using arg_cong [OF eq, of "\<lambda>w. bit w (r - 1 - k)"] by (simp add: bit_drop_bit_eq)
  qed
next
  assume *: "\<forall>k<r. bit a (7 - k) = bit b (7 - k)"
  show "drop_bit (8 - r) a = drop_bit (8 - r) b"
  proof (rule bit_eqI)
    fix n
    assume "possible_bit TYPE(byte) n"
    show "bit (drop_bit (8 - r) a) n = bit (drop_bit (8 - r) b) n"
    proof (cases "8 - r + n < 8")
      case True
      with *[rule_format, of "r - 1 - n"] assms show ?thesis by (simp add: bit_drop_bit_eq)
    next
      case False
      then show ?thesis by (auto simp: bit_drop_bit_eq dest: bit_imp_le_length)
    qed
  qed
qed

lemma get_msb_byte: "k < 8 \<Longrightarrow> n < length bs \<Longrightarrow> get_msb bs (8 * n + k) = bit (bs ! n) (7 - k)"
  by (simp add: get_msb_bit)

lemma take_eq_msb:
  assumes "w \<le> length a" "w \<le> length b"
  shows "take w a = take w b \<longleftrightarrow> (\<forall>i < 8 * w. get_msb a i = get_msb b i)"
proof -
  have "take w a = take w b \<longleftrightarrow> (\<forall>n<w. \<forall>k<8. bit (a ! n) (7 - k) = bit (b ! n) (7 - k))"
    using assms by (auto simp: list_eq_iff_nth_eq byte_eq_iff)
  also have "\<dots> \<longleftrightarrow> (\<forall>n<w. \<forall>k<8. get_msb a (8 * n + k) = get_msb b (8 * n + k))"
    using assms by (simp add: get_msb_byte)
  also have "\<dots> \<longleftrightarrow> (\<forall>i < 8 * w. get_msb a i = get_msb b i)"
  proof (rule iffI; intro allI impI)
    fix i assume *: "\<forall>n<w. \<forall>k<8. get_msb a (8 * n + k) = get_msb b (8 * n + k)" "i < 8 * w"
    then have "i div 8 < w" by (simp add: less_mult_imp_div_less mult.commute)
    with *(1)[rule_format, of "i div 8" "i mod 8"] show "get_msb a i = get_msb b i" by simp
  qed auto
  finally show ?thesis .
qed

lemma shares_prefix_iff:
  assumes "bits \<le> 8 * length a" "bits \<le> 8 * length b"
  shows "shares_prefix a b bits \<longleftrightarrow> (\<forall>i<bits. get_msb a i = get_msb b i)"
proof -
  define w r where "w = bits div 8" and "r = bits mod 8"
  have bits: "bits = 8 * w + r" and r8: "r < 8" by (simp_all add: w_def r_def)
  have need: "(bits + 7) div 8 \<le> length a" "(bits + 7) div 8 \<le> length b"
    using assms by simp_all
  have wl: "w \<le> length a" "w \<le> length b" using assms bits by linarith+
  have split: "(\<forall>i<bits. P i) \<longleftrightarrow> (\<forall>i<8 * w. P i) \<and> (\<forall>k<r. P (8 * w + k))" for P
  proof (intro iffI conjI allI impI)
    fix i assume *: "(\<forall>i<8 * w. P i) \<and> (\<forall>k<r. P (8 * w + k))" "i < bits"
    show "P i"
    proof (cases "i < 8 * w")
      case False
      with * bits show ?thesis using conjunct2 [OF *(1), rule_format, of "i - 8 * w"] by simp
    qed (use * in simp)
  qed (use bits in auto)
  have tail: "(r = 0 \<or> drop_bit (8 - r) (a ! w) = drop_bit (8 - r) (b ! w))
      \<longleftrightarrow> (\<forall>k<r. get_msb a (8 * w + k) = get_msb b (8 * w + k))"
  proof (cases "r = 0")
    case False
    then have "w < length a" "w < length b" using assms bits by linarith+
    with False r8 show ?thesis by (simp add: get_msb_byte drop_bit_eq_iff)
  qed simp
  show ?thesis
    unfolding split tail [symmetric] take_eq_msb [OF wl, symmetric]
    using need by (auto simp: shares_prefix_def Let_def w_def r_def)
qed


subsection \<open>Reading back what was written\<close>

lemma rd_bytes_append [simp]: "rd_bytes (length bs) field (bs @ rest) = Inr (bs, rest)"
  by (simp add: rd_bytes_def)

lemma rd_bytes_append' [simp]: "length bs = n \<Longrightarrow> rd_bytes n field (bs @ rest) = Inr (bs, rest)"
  by (auto simp: rd_bytes_def)

lemma rd_array_append [simp]: "length bs = n \<Longrightarrow> rd_array n field (bs @ rest) = Inr (bs, rest)"
  by (auto simp: rd_array_def)

lemma rd_bytes_Inr: "rd_bytes n field buf = Inr (v, rest) \<longleftrightarrow> buf = v @ rest \<and> length v = n"
  by (auto simp: rd_bytes_def)

lemma rd_array_Inr: "rd_array n field buf = Inr (v, rest) \<longleftrightarrow> buf = v @ rest \<and> length v = n"
  by (auto simp: rd_array_def)

lemma rd_bytes_short: "rd_bytes n field buf = Inl e \<longleftrightarrow> length buf < n \<and> e = Decode field"
  by (auto simp: rd_bytes_def)

lemma rd_byte_Cons [simp]: "rd_byte field (b # rest) = Inr (b, rest)"
  by (simp add: rd_byte_def rd_array_def)

lemma rd_byte_Inr: "rd_byte field buf = Inr (b, rest) \<longleftrightarrow> buf = b # rest"
  by (cases buf) (auto simp: rd_byte_def rd_array_def)

lemma rd_byte_Nil [simp]: "rd_byte field [] = Inl (Decode field)"
  by (simp add: rd_byte_def rd_array_def)

lemma length_wr [simp]:
  "length (wr_u16_le x) = 2" "length (wr_u32_le y) = 4" "length (wr_u64_le z) = 8"
  "length (wr_u16_be x) = 2" "length (wr_u32_be y) = 4" "length (wr_u64_be z) = 8"
  "length (wr_len n) = 4"
  by (simp_all add: wr_u16_le_def wr_u32_le_def wr_u64_le_def wr_u16_be_def wr_u32_be_def
      wr_u64_be_def wr_len_def)

lemma word_bytes_bound:
  "unat (x :: u16) < 256 ^ 2" "unat (y :: u32) < 256 ^ 4" "unat (z :: u64) < 256 ^ 8"
  using unsigned_less [of x] unsigned_less [of y] unsigned_less [of z] by simp_all

lemma rd_wr_words [simp]:
  "rd_le_u16 field (wr_u16_le x @ rest) = Inr (x, rest)"
  "rd_le_u32 field (wr_u32_le y @ rest) = Inr (y, rest)"
  "rd_le_u64 field (wr_u64_le z @ rest) = Inr (z, rest)"
  "rd_be_u16 field (wr_u16_be x @ rest) = Inr (x, rest)"
  "rd_be_u32 field (wr_u32_be y @ rest) = Inr (y, rest)"
  "rd_be_u64 field (wr_u64_be z @ rest) = Inr (z, rest)"
  using word_bytes_bound(1) [of x] word_bytes_bound(2) [of y] word_bytes_bound(3) [of z]
  by (simp_all add: rd_le_u16_def rd_le_u32_def rd_le_u64_def rd_be_u16_def rd_be_u32_def
      rd_be_u64_def wr_u16_le_def wr_u32_le_def wr_u64_le_def wr_u16_be_def wr_u32_be_def
      wr_u64_be_def le_nat_le_bytes be_nat_be_bytes)

lemma le_bytes_of_nat_le_nat:
  "length bs = n \<Longrightarrow> le_bytes n (le_nat bs mod 256 ^ n) = bs"
  "length bs = n \<Longrightarrow> be_bytes n (be_nat bs mod 256 ^ n) = bs"
  using le_bytes_le_nat [of bs] le_nat_less [of bs] be_bytes_be_nat [of bs] be_nat_less [of bs]
  by auto

lemma rd_words_Inr:
  "rd_le_u16 field buf = Inr (x, rest) \<longleftrightarrow> buf = wr_u16_le x @ rest"
  "rd_le_u32 field buf = Inr (y, rest) \<longleftrightarrow> buf = wr_u32_le y @ rest"
  "rd_le_u64 field buf = Inr (z, rest) \<longleftrightarrow> buf = wr_u64_le z @ rest"
  "rd_be_u16 field buf = Inr (x, rest) \<longleftrightarrow> buf = wr_u16_be x @ rest"
  "rd_be_u32 field buf = Inr (y, rest) \<longleftrightarrow> buf = wr_u32_be y @ rest"
  "rd_be_u64 field buf = Inr (z, rest) \<longleftrightarrow> buf = wr_u64_be z @ rest"
  using le_bytes_of_nat_le_nat [where n = 2] le_bytes_of_nat_le_nat [where n = 4]
    le_bytes_of_nat_le_nat [where n = 8]
    word_bytes_bound(1) [of x] word_bytes_bound(2) [of y] word_bytes_bound(3) [of z]
  by (auto simp: rd_le_u16_def rd_le_u32_def rd_le_u64_def rd_be_u16_def rd_be_u32_def
      rd_be_u64_def wr_u16_le_def wr_u32_le_def wr_u64_le_def wr_u16_be_def wr_u32_be_def
      wr_u64_be_def rd_array_Inr unat_of_nat le_nat_le_bytes be_nat_be_bytes
      simp del: rd_array_append)

lemma rd_len [simp]: "n < 2 ^ 32 \<Longrightarrow> rd_le_u32 field (wr_len n @ rest) = Inr (word_of_nat n, rest)"
  by (simp add: wr_len_def)

lemma unat_len [simp]: "n < 2 ^ 32 \<Longrightarrow> unat (word_of_nat n :: u32) = n"
  by (simp add: unat_of_nat)

lemma rd_blob_write_blob [simp]:
  "length bs < 2 ^ 32 \<Longrightarrow> rd_blob field (write_blob bs @ rest) = Inr (bs, rest)"
  by (simp add: rd_blob_def write_blob_def)


lemma rd_blob_Inr: "rd_blob field buf = Inr (bs, rest) \<Longrightarrow> buf = write_blob bs @ rest \<and> length bs < 2 ^ 32"
proof -
  assume "rd_blob field buf = Inr (bs, rest)"
  then obtain n buf' where n: "rd_le_u32 field buf = Inr (n, buf')"
      and b: "rd_bytes (unat n) field buf' = Inr (bs, rest)"
    by (auto simp: rd_blob_def)
  have "length bs = unat n" using b by (simp add: rd_bytes_Inr)
  with n b unsigned_less [of n] show ?thesis
    by (simp add: rd_words_Inr rd_bytes_Inr write_blob_def wr_len_def)
qed

lemma rd_slice_as_write_slice:
  assumes "length xs < 2 ^ 32" "length xs * sz < 2 ^ usize_bits"
    and "\<And>x. x \<in> set xs \<Longrightarrow> length (as_bytes x) = sz"
    and "\<And>x. x \<in> set xs \<Longrightarrow> cast (as_bytes x) = Inr x"
  shows "rd_slice_as usize_bits sz cast field (write_slice as_bytes xs @ rest) = Inr (xs, rest)"
proof -
  let ?bs = "concat (map as_bytes xs)"
  have len: "length ?bs = length xs * sz"
    using length_concat_const [of "map as_bytes xs" sz] assms(3) by auto
  have ch: "chunks sz (length xs) ?bs = map as_bytes xs"
    using chunks_concat [of "map as_bytes xs" sz "[]"] assms(3) by auto
  have "map_r cast (map as_bytes xs) = Inr xs"
    using assms(4) by (induction xs) simp_all
  then show ?thesis
    using assms(1,2) len ch by (simp add: rd_slice_as_def write_slice_def)
qed

text \<open>
  The overflow check of \<open>slice_as\<close> never changes the outcome on a buffer that fits the
  address space: an overflowing count fails with the same error as a short buffer.
\<close>

lemma rd_slice_as_usize:
  assumes "length buf < 2 ^ usize_bits"
  shows "rd_slice_as usize_bits sz cast field buf =
    rbind (rd_le_u32 field buf) (\<lambda>(count, buf).
    rbind (rd_bytes (unat count * sz) field buf) (\<lambda>(bs, buf).
    rbind (map_r cast (chunks sz (unat count) bs)) (\<lambda>vs. Inr (vs, buf))))"
proof (cases "rd_le_u32 field buf")
  case (Inr r)
  obtain count buf' where r: "r = (count, buf')" by (cases r)
  with Inr have "length buf' < 2 ^ usize_bits" using assms by (auto simp: rd_words_Inr)
  with Inr r show ?thesis
    by (auto simp: rd_slice_as_def rd_bytes_def rbind_def split: sum.splits)
qed (simp add: rd_slice_as_def)

lemma rd_slice_as_Inr:
  assumes "rd_slice_as usize_bits sz cast field buf = Inr (vs, rest)"
  shows "\<exists>bs. buf = wr_len (length vs) @ bs @ rest \<and> length vs < 2 ^ 32 \<and> length bs = length vs * sz
    \<and> map_r cast (chunks sz (length vs) bs) = Inr vs"
proof -
  from assms obtain n buf' bs where n: "rd_le_u32 field buf = Inr (n, buf')"
      and b: "rd_bytes (unat n * sz) field buf' = Inr (bs, rest)"
      and m: "map_r cast (chunks sz (unat n) bs) = Inr vs"
    by (auto simp: rd_slice_as_def split: if_splits)
  have "length vs = unat n" using map_r_length [OF m] by simp
  with n b m unsigned_less [of n] show ?thesis
    by (auto simp: rd_words_Inr rd_bytes_Inr wr_len_def)
qed

lemma encode_many_concat:
  "(\<And>w x. enc w x = w @ f x) \<Longrightarrow> encode_many enc xs w = w @ write_many f xs"
proof -
  assume enc: "\<And>w x. enc w x = w @ f x"
  have "foldl enc w xs = w @ concat (map f xs)" for w
    by (induction xs arbitrary: w) (simp_all add: enc)
  then show ?thesis by (simp add: encode_many_def write_many_def)
qed

subsection \<open>The contract of a wire format\<close>

text \<open>
  A wire format is an encoder and a reader such that the reader returns every valid value from
  its encoding and leaves the bytes behind it.  Formats that only accept their own encodings are
  canonical.
\<close>

locale wire_codec =
  fixes enc :: "'a \<Rightarrow> bytes" and dec :: "'a reader" and valid :: "'a \<Rightarrow> bool"
  assumes dec_enc: "valid x \<Longrightarrow> dec (enc x @ rest) = Inr (x, rest)"
begin

lemma enc_prefix_free:
  "valid x \<Longrightarrow> valid y \<Longrightarrow> enc x @ r = enc y @ s \<Longrightarrow> x = y \<and> r = s"
  by (metis dec_enc Inr_inject prod.inject)

lemma enc_inj: "valid x \<Longrightarrow> valid y \<Longrightarrow> enc x = enc y \<Longrightarrow> x = y"
  using enc_prefix_free [of x y "[]" "[]"] by simp

lemma times_round_trip:
  "list_all valid xs \<Longrightarrow> rd_times (length xs) dec (concat (map enc xs) @ rest) = Inr (xs, rest)"
  by (induction xs) (simp_all add: dec_enc)

lemma many_round_trip:
  "list_all valid xs \<Longrightarrow> length xs < 2 ^ 32 \<Longrightarrow>
    rd_many field dec (write_many enc xs @ rest) = Inr (xs, rest)"
  by (simp add: rd_many_def write_many_def times_round_trip)

end

locale canonical_codec = wire_codec +
  assumes enc_dec: "dec buf = Inr (x, rest) \<Longrightarrow> valid x \<and> buf = enc x @ rest"
begin

lemma dec_iff: "dec buf = Inr (x, rest) \<longleftrightarrow> valid x \<and> buf = enc x @ rest"
  using dec_enc enc_dec by blast

lemma times_canonical:
  "rd_times n dec buf = Inr (xs, rest) \<Longrightarrow>
    length xs = n \<and> list_all valid xs \<and> buf = concat (map enc xs) @ rest"
  by (induction n arbitrary: buf xs) (auto dest!: enc_dec)

lemma many_canonical:
  assumes "rd_many field dec buf = Inr (xs, rest)"
  shows "list_all valid xs \<and> length xs < 2 ^ 32 \<and> buf = write_many enc xs @ rest"
proof -
  from assms obtain n buf' where n: "rd_le_u32 field buf = Inr (n, buf')"
      and t: "rd_times (unat n) dec buf' = Inr (xs, rest)"
    by (auto simp: rd_many_def)
  have "length xs = unat n" using times_canonical [OF t] by simp
  with n times_canonical [OF t] unsigned_less [of n] show ?thesis
    by (simp add: rd_words_Inr write_many_def wr_len_def)
qed

end

interpretation u16_le: canonical_codec wr_u16_le "rd_le_u16 field" "\<lambda>_. True"
  by unfold_locales (simp_all add: rd_words_Inr)

interpretation u32_le: canonical_codec wr_u32_le "rd_le_u32 field" "\<lambda>_. True"
  by unfold_locales (simp_all add: rd_words_Inr)

interpretation u64_le: canonical_codec wr_u64_le "rd_le_u64 field" "\<lambda>_. True"
  by unfold_locales (simp_all add: rd_words_Inr)

interpretation blob: canonical_codec write_blob "rd_blob field" "\<lambda>bs. length bs < 2 ^ 32"
  by unfold_locales (simp, blast dest: rd_blob_Inr)

subsection \<open>Sorting\<close>

lemma reject_duplicates_Inr:
  assumes "sorted xs" "\<forall>p x. prev = Some p \<longrightarrow> x \<in> set xs \<longrightarrow> p \<le> x"
  shows "reject_duplicates xs prev = Inr ys \<longleftrightarrow>
    ys = xs \<and> sorted_wrt (<) xs \<and> (\<forall>p. prev = Some p \<longrightarrow> p \<notin> set xs)"
  using assms
proof (induction xs prev arbitrary: ys rule: reject_duplicates.induct)
  case (2 x xs prev)
  show ?case
  proof (cases "prev = Some x")
    case False
    have "\<forall>p y. Some x = Some p \<longrightarrow> y \<in> set xs \<longrightarrow> p \<le> y" "sorted xs" using "2.prems" by auto
    note IH = "2.IH" [OF False this(2,1)]
    have "(\<forall>p. prev = Some p \<longrightarrow> p \<notin> set (x # xs))" if "x \<notin> set xs" "sorted_wrt (<) xs"
      using "2.prems" False that by force
    moreover have "(\<forall>y\<in>set xs. x < y) \<longleftrightarrow> x \<notin> set xs"
      using "2.prems"(1) by (auto simp: less_le)
    moreover have "reject_duplicates (x # xs) prev = Inr ys \<longleftrightarrow>
        ys = x # xs \<and> sorted_wrt (<) xs \<and> x \<notin> set xs"
      using IH False by auto
    ultimately show ?thesis by (auto simp del: reject_duplicates.simps)
  qed simp
qed auto

lemma reject_duplicates_Inl:
  "reject_duplicates xs prev = Inl e \<Longrightarrow> e = Decode ''duplicate keys''"
  by (induction xs prev rule: reject_duplicates.induct) (auto simp: rbind_eq_Inl split: if_splits)

lemma map_sort_order: "length xs < 2 ^ 32 \<Longrightarrow> map (\<lambda>i. xs ! i) (sort_order xs) = sort xs"
proof -
  assume l: "length xs < 2 ^ 32"
  have "mset (map (\<lambda>i. xs ! i) (sort_order xs)) = mset (map (\<lambda>i. xs ! i) [0..<length xs])"
    using l by (simp add: sort_order_def)
  also have "\<dots> = mset xs" by (simp add: map_nth)
  finally show ?thesis
    by (intro properties_for_sort [symmetric]) (simp_all add: sort_order_def)
qed

subsection \<open>Properties\<close>

text \<open>C31: on inputs of less than 2^32 elements \<open>sort_unique\<close> fails with the duplicate error
  exactly when two elements are equal; otherwise it returns the elements in strictly ascending
  order together with a permutation of the input positions that maps the sorted elements back to
  the input.\<close>

theorem sort_unique_correct:
  fixes xs :: "'a::linorder list"
  assumes "length xs < 2 ^ 32"
  shows "sort_unique xs =
      (if distinct xs then Inr (sort xs, sort_order xs) else Inl (Decode ''duplicate keys''))
    \<and> (distinct xs \<longrightarrow> sorted_wrt (<) (sort xs))
    \<and> mset (sort_order xs) = mset [0..<length xs]
    \<and> map (\<lambda>i. xs ! i) (sort_order xs) = sort xs"
proof -
  have st: "sorted_wrt (<) (sort xs) \<longleftrightarrow> distinct xs" by (simp add: strict_sorted_iff)
  have rd: "reject_duplicates (sort xs) None = Inr ys \<longleftrightarrow> ys = sort xs \<and> distinct xs" for ys
    using reject_duplicates_Inr [of "sort xs" None ys] st by simp
  have "reject_duplicates (sort xs) None =
      (if distinct xs then Inr (sort xs) else Inl (Decode ''duplicate keys''))"
    using rd reject_duplicates_Inl [of "sort xs" None]
    by (cases "reject_duplicates (sort xs) None") auto
  then show ?thesis
    using assms st by (simp add: sort_unique_def Let_def map_sort_order) (simp add: sort_order_def)
qed

theorem sort_unique_correct_witness:
  "sort_unique [3, 1, 2 :: nat] = Inr ([1, 2, 3], sort_order [3, 1, 2 :: nat])
    \<and> sort_unique [3, 1, 3 :: nat] = Inl (Decode ''duplicate keys'')"
  using sort_unique_correct [of "[3, 1, 2 :: nat]"] sort_unique_correct [of "[3, 1, 3 :: nat]"]
  by simp

text \<open>C32: two byte strings share a prefix of \<open>bits\<close> bits exactly when both are long enough to
  have that many bits and agree on each of them, most significant bit first.\<close>

theorem shares_prefix_correct:
  "shares_prefix a b bits \<longleftrightarrow>
    bits \<le> 8 * length a \<and> bits \<le> 8 * length b \<and> (\<forall>i<bits. get_msb a i = get_msb b i)"
proof (cases "bits \<le> 8 * length a \<and> bits \<le> 8 * length b")
  case True
  then show ?thesis using shares_prefix_iff [of bits a b] by blast
next
  case False
  then have "length a < (bits + 7) div 8 \<or> length b < (bits + 7) div 8" by linarith
  then show ?thesis using False by (auto simp: shares_prefix_def Let_def)
qed

theorem shares_prefix_correct_witness:
  "shares_prefix [0xF0] [0xF8] 4 \<and> \<not> shares_prefix [0xF0] [0xF8] 9
    \<and> get_msb [0xF0] 3 = get_msb [0xF8] 3 \<and> get_msb [0xF0] 4 \<noteq> get_msb [0xF8] 4"
  using shares_prefix_correct [of "[0xF0]" "[0xF8]" 4] shares_prefix_correct [of "[0xF0]" "[0xF8]" 9]
  by (simp add: shares_prefix_def get_msb_def)

end
