(* ===== verification/SMT_Base.thy ===== *)
theory SMT_Base
  imports Codec
begin

text \<open>
  Data of the sparse Merkle tree of \<open>core/smt/src\<close>: kinded node summaries
  (\<open>hashed_node.rs\<close>), tree positions (\<open>key.rs\<close>), stored nodes
  (\<open>node.rs\<close>), commitments and stale markers, with their wire formats.

  The hash function is a parameter \<open>H domain parts\<close>, the
  \<open>hash_parts_with_domain\<close> of the \<open>Hasher\<close> trait.  The last part states what
  the tree is meant to store: \<open>spec_node\<close> is the node that a set of live entries has at a
  given height, and \<open>apply_commits\<close> is the effect of a list of commitments on the entries.
\<close>

type_synonym hash = bytes
type_synonym hasher = "bytes \<Rightarrow> bytes list \<Rightarrow> hash"

definition DEPTH :: nat where "DEPTH = 256"

definition EMPTY_HASH :: hash where "EMPTY_HASH = replicate 32 0"

definition EMPTY :: byte where "EMPTY = 0"
definition LEAF :: byte where "LEAF = 1"
definition INTERNAL :: byte where "INTERNAL = 2"

subsection \<open>Node summaries\<close>

record hashed_node =
  kind :: byte
  hn_hash :: hash

definition hn_empty :: hashed_node where
  "hn_empty = \<lparr>kind = EMPTY, hn_hash = EMPTY_HASH\<rparr>"

definition hn_new :: "byte \<Rightarrow> hash \<Rightarrow> hashed_node" where
  "hn_new k h = \<lparr>kind = k, hn_hash = h\<rparr>"

definition hn_leaf :: "hasher \<Rightarrow> bytes \<Rightarrow> hash \<Rightarrow> hashed_node" where
  "hn_leaf H key value_hash =
    (if value_hash = EMPTY_HASH then hn_empty else hn_new LEAF (H [LEAF] [key, value_hash]))"

definition hn_internal :: "hasher \<Rightarrow> hashed_node \<Rightarrow> hashed_node \<Rightarrow> hashed_node" where
  "hn_internal H left right =
    (if kind left = EMPTY \<and> kind right = EMPTY then hn_empty
     else hn_new INTERNAL
       (H [INTERNAL, kind left, kind right] [hn_hash left, hn_hash right]))"

definition combine :: "hasher \<Rightarrow> hashed_node \<Rightarrow> hashed_node \<Rightarrow> hashed_node" where
  "combine H left right =
    (if kind left = LEAF \<and> kind right = EMPTY then left
     else if kind left = EMPTY \<and> kind right = LEAF then right
     else hn_internal H left right)"

subsection \<open>Positions\<close>

record smt_key =
  level :: nat
  path :: bytes

definition ROOT :: smt_key where
  "ROOT = \<lparr>level = 0, path = replicate 32 0\<rparr>"

definition key_decode :: "smt_key reader" where
  "key_decode buf =
    rbind (rd_array 32 ''path'' buf) (\<lambda>(p, buf).
    rbind (rd_be_u16 ''level'' buf) (\<lambda>(l, buf). Inr (\<lparr>level = unat l, path = p\<rparr>, buf)))"

definition key_encode :: "smt_key \<Rightarrow> bytes" where
  "key_encode k = path k @ wr_u16_be (word_of_nat (level k))"

definition left_child :: "smt_key \<Rightarrow> smt_key" where
  "left_child k = \<lparr>level = level k + 1, path = path k\<rparr>"

definition right_child :: "smt_key \<Rightarrow> smt_key" where
  "right_child k = \<lparr>level = level k + 1, path = set_msb (path k) (level k)\<rparr>"

subsection \<open>Stored nodes\<close>

datatype node =
    NodeEmpty
  | NodeInternal hash
  | NodeLeaf bytes hash hash

definition node_internal :: "hasher \<Rightarrow> hashed_node \<Rightarrow> hashed_node \<Rightarrow> node" where
  "node_internal H left right = NodeInternal (hn_hash (hn_internal H left right))"

definition node_leaf :: "hasher \<Rightarrow> bytes \<Rightarrow> hash \<Rightarrow> node" where
  "node_leaf H key value_hash = NodeLeaf key value_hash (hn_hash (hn_leaf H key value_hash))"

definition node_decode :: "node reader" where
  "node_decode buf =
    rbind (rd_byte ''tag'' buf) (\<lambda>(tag, buf).
      if tag = EMPTY then Inr (NodeEmpty, buf)
      else if tag = INTERNAL then
        rbind (rd_array 32 ''hash'' buf) (\<lambda>(h, buf). Inr (NodeInternal h, buf))
      else if tag = LEAF then
        rbind (rd_array 32 ''key'' buf) (\<lambda>(k, buf).
        rbind (rd_array 32 ''value_hash'' buf) (\<lambda>(v, buf).
        rbind (rd_array 32 ''hash'' buf) (\<lambda>(h, buf). Inr (NodeLeaf k v h, buf))))
      else Inl (Decode ''unknown node tag''))"

fun node_hash :: "node \<Rightarrow> hash" where
  "node_hash NodeEmpty = EMPTY_HASH"
| "node_hash (NodeInternal h) = h"
| "node_hash (NodeLeaf _ _ h) = h"

fun node_encode :: "node \<Rightarrow> bytes" where
  "node_encode NodeEmpty = [EMPTY]"
| "node_encode (NodeInternal h) = INTERNAL # h"
| "node_encode (NodeLeaf k v h) = LEAF # k @ v @ h"

fun hn_of_node :: "node \<Rightarrow> hashed_node" where
  "hn_of_node NodeEmpty = hn_empty"
| "hn_of_node (NodeInternal h) = hn_new INTERNAL h"
| "hn_of_node (NodeLeaf _ _ h) = hn_new LEAF h"

subsection \<open>Commitments and stale markers\<close>

text \<open>A commitment is a resource id with its value hash; \<open>EMPTY_HASH\<close> means deletion.\<close>

type_synonym commitment = "bytes \<times> hash"

definition commitment_new :: "bytes \<Rightarrow> hash \<Rightarrow> commitment" where
  "commitment_new key value_hash = (key, value_hash)"

record stale_node =
  stale_since_version :: nat
  stale_key :: smt_key
  stale_version :: nat

definition stale_new :: "nat \<Rightarrow> smt_key \<Rightarrow> nat \<Rightarrow> stale_node" where
  "stale_new since key version =
    \<lparr>stale_since_version = since, stale_key = key, stale_version = version\<rparr>"

subsection \<open>Reference semantics\<close>

definition live :: "commitment \<Rightarrow> bool" where
  "live c \<longleftrightarrow> snd c \<noteq> EMPTY_HASH"

definition bit_at :: "nat \<Rightarrow> commitment \<Rightarrow> bool" where
  "bit_at l c = get_msb (fst c) l"

definition summary :: "node option \<Rightarrow> hashed_node" where
  "summary x = (case x of None \<Rightarrow> hn_empty | Some n \<Rightarrow> hn_of_node n)"

text \<open>
  \<open>spec_node H n xs\<close> is the node of the subtree of height \<open>n\<close> that holds exactly
  the entries \<open>xs\<close>: nothing, one shortcut leaf, or an internal node over the two halves.
\<close>

primrec spec_node :: "hasher \<Rightarrow> nat \<Rightarrow> commitment list \<Rightarrow> node option" where
  "spec_node H 0 xs =
    (case xs of [x] \<Rightarrow> Some (node_leaf H (fst x) (snd x)) | _ \<Rightarrow> None)"
| "spec_node H (Suc n) xs =
    (case xs of
       [] \<Rightarrow> None
     | [x] \<Rightarrow> Some (node_leaf H (fst x) (snd x))
     | _ \<Rightarrow> Some (node_internal H
         (summary (spec_node H n (filter (\<lambda>x. \<not> bit_at (DEPTH - Suc n) x) xs)))
         (summary (spec_node H n (filter (bit_at (DEPTH - Suc n)) xs)))))"

definition spec_summary :: "hasher \<Rightarrow> nat \<Rightarrow> commitment list \<Rightarrow> hashed_node" where
  "spec_summary H n xs = summary (spec_node H n xs)"

definition spec_root :: "hasher \<Rightarrow> commitment list \<Rightarrow> hash" where
  "spec_root H xs = hn_hash (spec_summary H DEPTH xs)"

definition apply_commits :: "commitment list \<Rightarrow> commitment list \<Rightarrow> commitment list" where
  "apply_commits xs cs = filter live (cs @ filter (\<lambda>x. fst x \<notin> fst ` set cs) xs)"

text \<open>
  Entries that can sit in one subtree of height \<open>n\<close>: distinct 32-byte keys that agree on
  the \<open>DEPTH - n\<close> leading bits.
\<close>

definition keys32 :: "commitment list \<Rightarrow> bool" where
  "keys32 xs \<longleftrightarrow> (\<forall>x\<in>set xs. length (fst x) = 32)"

definition on_path :: "smt_key \<Rightarrow> bytes \<Rightarrow> bool" where
  "on_path pos k \<longleftrightarrow> length k = 32 \<and> (\<forall>i < level pos. get_msb k i = get_msb (path pos) i)"

definition fits :: "smt_key \<Rightarrow> commitment list \<Rightarrow> bool" where
  "fits pos xs \<longleftrightarrow> distinct (map fst xs) \<and> (\<forall>x\<in>set xs. on_path pos (fst x))"

definition canon_pos :: "smt_key \<Rightarrow> bool" where
  "canon_pos pos \<longleftrightarrow> length (path pos) = 32 \<and> level pos \<le> DEPTH
    \<and> (\<forall>i \<ge> level pos. \<not> get_msb (path pos) i)"

subsection \<open>Kinds\<close>

lemma kinds_distinct [simp]:
  "EMPTY \<noteq> LEAF" "LEAF \<noteq> EMPTY" "EMPTY \<noteq> INTERNAL" "INTERNAL \<noteq> EMPTY"
  "LEAF \<noteq> INTERNAL" "INTERNAL \<noteq> LEAF"
  by (simp_all add: EMPTY_def LEAF_def INTERNAL_def)

lemma length_EMPTY_HASH [simp]: "length EMPTY_HASH = 32"
  by (simp add: EMPTY_HASH_def)

lemma hn_sel [simp]:
  "kind hn_empty = EMPTY" "hn_hash hn_empty = EMPTY_HASH"
  "kind (hn_new k h) = k" "hn_hash (hn_new k h) = h"
  by (simp_all add: hn_empty_def hn_new_def)

lemma hn_new_eq [simp]:
  "hn_new k h = hn_new k' h' \<longleftrightarrow> k = k' \<and> h = h'"
  "hn_new k h = hn_empty \<longleftrightarrow> k = EMPTY \<and> h = EMPTY_HASH"
  "hn_empty = hn_new k h \<longleftrightarrow> k = EMPTY \<and> h = EMPTY_HASH"
  by (auto simp: hn_new_def hn_empty_def)

lemma summary_simps [simp]:
  "summary None = hn_empty" "summary (Some n) = hn_of_node n"
  by (simp_all add: summary_def)

lemma DEPTH_pos [simp]: "0 < DEPTH" "DEPTH \<noteq> 0"
  by (simp_all add: DEPTH_def)


subsection \<open>Wire formats\<close>

definition key_valid :: "smt_key \<Rightarrow> bool" where
  "key_valid k \<longleftrightarrow> length (path k) = 32 \<and> level k < 2 ^ 16"

fun node_valid :: "node \<Rightarrow> bool" where
  "node_valid NodeEmpty = True"
| "node_valid (NodeInternal h) = (length h = 32)"
| "node_valid (NodeLeaf k v h) = (length k = 32 \<and> length v = 32 \<and> length h = 32)"

interpretation smt_key_codec: canonical_codec key_encode key_decode key_valid
proof unfold_locales
  fix k :: smt_key and rest assume "key_valid k"
  then show "key_decode (key_encode k @ rest) = Inr (k, rest)"
    by (cases k) (simp add: key_decode_def key_encode_def key_valid_def unat_of_nat)
next
  fix buf k rest assume "key_decode buf = Inr (k, rest)"
  then obtain p l buf' where "rd_array 32 ''path'' buf = Inr (p, buf')"
      "rd_be_u16 ''level'' buf' = Inr (l, rest)" "k = \<lparr>level = unat l, path = p\<rparr>"
    by (auto simp: key_decode_def)
  then show "key_valid k \<and> buf = key_encode k @ rest"
    using unsigned_less [of l] by (auto simp: rd_array_Inr rd_words_Inr key_valid_def key_encode_def)
qed

interpretation smt_node_codec: canonical_codec node_encode node_decode node_valid
proof unfold_locales
  fix n rest assume "node_valid n"
  then show "node_decode (node_encode n @ rest) = Inr (n, rest)"
    by (cases n) (simp_all add: node_decode_def)
next
  fix buf n rest assume "node_decode buf = Inr (n, rest)"
  then show "node_valid n \<and> buf = node_encode n @ rest"
    by (auto simp: node_decode_def rd_byte_Inr rd_array_Inr split: if_splits)
qed

lemma length_key_encode: "length (path k) = 32 \<Longrightarrow> length (key_encode k) = 34"
  by (simp add: key_encode_def)

subsection \<open>Key order and bits\<close>

lemma bit_concat_nat:
  assumes "(y :: nat) < 2 ^ m"
  shows "bit (x * 2 ^ m + y) j = (if j < m then bit y j else bit x (j - m))"
proof -
  have t: "take_bit m (x * 2 ^ m + y) = y" using assms by (simp add: take_bit_eq_mod)
  have d: "drop_bit m (x * 2 ^ m + y) = x" using assms by (simp add: drop_bit_eq_div)
  show ?thesis
  proof (cases "j < m")
    case True
    then show ?thesis using arg_cong [OF t, of "\<lambda>v. bit v j"] by (simp add: bit_take_bit_iff)
  next
    case False
    then show ?thesis using arg_cong [OF d, of "\<lambda>v. bit v (j - m)"] by (simp add: bit_drop_bit_eq)
  qed
qed

lemma get_msb_Cons_low: "i < 8 \<Longrightarrow> get_msb (b # bs) i = bit b (7 - i)"
  by (simp add: get_msb_bit)

lemma get_msb_Cons_high: "8 \<le> i \<Longrightarrow> get_msb (b # bs) i = get_msb bs (i - 8)"
  by (simp add: get_msb_bit le_div_geq le_mod_geq)

lemma get_msb_be_nat:
  "i < 8 * length bs \<Longrightarrow> get_msb bs i = bit (be_nat bs) (8 * length bs - 1 - i)"
proof (induction bs arbitrary: i)
  case (Cons b bs)
  have e: "(256 :: nat) ^ length bs = 2 ^ (8 * length bs)" by (simp add: power_mult)
  have lt: "be_nat bs < 2 ^ (8 * length bs)" using be_nat_less [of bs] by (simp add: e)
  show ?case
  proof (cases "i < 8")
    case True
    then have idx: "8 * length (b # bs) - 1 - i = 8 * length bs + (7 - i)" by simp
    have "bit (be_nat (b # bs)) (8 * length bs + j) = bit b j" for j
      by (simp add: be_nat_Cons e bit_concat_nat [OF lt] bit_unsigned_iff)
    then show ?thesis unfolding idx using True by (simp only: get_msb_Cons_low)
  next
    case False
    with Cons.prems have "8 * length (b # bs) - 1 - i = 8 * length bs - 1 - (i - 8)"
      "i - 8 < 8 * length bs" by simp_all
    note idx = this
    have "bit (be_nat (b # bs)) j = bit (be_nat bs) j" if "j < 8 * length bs" for j
      using that by (simp add: be_nat_Cons e bit_concat_nat [OF lt])
    moreover have "8 * length bs - 1 - (i - 8) < 8 * length bs" using idx(2) by linarith
    ultimately show ?thesis
      unfolding idx(1) using False Cons.IH [OF idx(2)] by (simp only: get_msb_Cons_high not_less)
  qed
qed simp

lemma msb_mono:
  assumes "length a = length b" "a \<le> b" "l < 8 * length a"
    and "\<forall>i<l. get_msb a i = get_msb b i" "get_msb a l"
  shows "get_msb b l"
proof -
  define L where "L = 8 * length a"
  define m where "m = L - 1 - l"
  have ab: "be_nat a \<le> be_nat b"
    using assms(1,2) bytes_less_be_nat [of b a] by (simp add: not_less [symmetric])
  have bnd: "be_nat a < 2 ^ L" "be_nat b < 2 ^ L"
    using be_nat_less [of a] be_nat_less [of b] assms(1) by (simp_all add: L_def power_mult)
  have "drop_bit (Suc m) (be_nat a) = drop_bit (Suc m) (be_nat b)"
  proof (rule bit_eqI)
    fix n
    show "bit (drop_bit (Suc m) (be_nat a)) n = bit (drop_bit (Suc m) (be_nat b)) n"
    proof (cases "Suc m + n < L")
      case True
      define i where "i = L - 1 - (Suc m + n)"
      have "i < l" "i < L" "L - 1 - i = Suc m + n"
        using True assms(3) by (auto simp: i_def m_def L_def)
      then show ?thesis
        using assms(1,4) get_msb_be_nat [of i a] get_msb_be_nat [of i b]
        by (simp add: bit_drop_bit_eq L_def)
    next
      case False
      then have "be_nat a < 2 ^ (Suc m + n)" "be_nat b < 2 ^ (Suc m + n)"
        using bnd power_increasing [of L "Suc m + n" "2 :: nat"] by simp_all
      then show ?thesis
        by (simp add: bit_drop_bit_eq bit_iff_odd del: power_Suc)
    qed
  qed
  moreover have "drop_bit m x = 2 * drop_bit (Suc m) x + of_bool (bit x m)" for x :: nat
    by (simp add: drop_bit_Suc drop_bit_half bit_iff_odd_drop_bit)
  moreover have "drop_bit m (be_nat a) \<le> drop_bit m (be_nat b)"
    using ab by (simp add: drop_bit_eq_div div_le_mono)
  moreover have "bit (be_nat a) m" using assms(3,5) by (simp add: get_msb_be_nat m_def L_def)
  ultimately have "bit (be_nat b) m" by (cases "bit (be_nat b) m") simp_all
  then show ?thesis using assms(1,3) by (simp add: get_msb_be_nat m_def L_def)
qed


subsection \<open>Positions and the keys below them\<close>

lemma canon_pos_ROOT [simp]: "canon_pos ROOT" "level ROOT = 0"
  by (auto simp: canon_pos_def ROOT_def get_msb_def)

lemma level_child [simp]:
  "level (left_child pos) = Suc (level pos)" "level (right_child pos) = Suc (level pos)"
  by (simp_all add: left_child_def right_child_def)

lemma canon_pos_child:
  "canon_pos pos \<Longrightarrow> level pos < DEPTH \<Longrightarrow> canon_pos (left_child pos)"
  "canon_pos pos \<Longrightarrow> level pos < DEPTH \<Longrightarrow> canon_pos (right_child pos)"
  by (auto simp: canon_pos_def left_child_def right_child_def get_msb_set_msb)

lemma on_path_left:
  "canon_pos pos \<Longrightarrow> on_path (left_child pos) k \<longleftrightarrow> on_path pos k \<and> \<not> get_msb k (level pos)"
  by (auto simp: canon_pos_def on_path_def left_child_def less_Suc_eq)

lemma on_path_right:
  assumes "canon_pos pos" "level pos < DEPTH"
  shows "on_path (right_child pos) k \<longleftrightarrow> on_path pos k \<and> get_msb k (level pos)"
proof -
  have "level pos div 8 < 32" using assms(2) by (simp add: DEPTH_def)
  then show ?thesis using assms(1)
    by (auto simp: canon_pos_def on_path_def right_child_def less_Suc_eq get_msb_set_msb)
qed

lemma on_path_ROOT [simp]: "on_path ROOT k \<longleftrightarrow> length k = 32"
  by (simp add: on_path_def)

lemma on_path_full:
  assumes "on_path pos k" "on_path pos k'" "level pos = DEPTH"
  shows "k = k'"
proof -
  have "take 32 k = take 32 k'"
    using assms by (subst take_eq_msb) (simp_all add: on_path_def DEPTH_def)
  then show ?thesis using assms by (simp add: on_path_def)
qed

lemma fits_ROOT: "fits ROOT xs \<longleftrightarrow> distinct (map fst xs) \<and> keys32 xs"
  by (auto simp: fits_def keys32_def)

lemma fits_full: "fits pos xs \<Longrightarrow> level pos = DEPTH \<Longrightarrow> length xs \<le> 1"
  by (cases xs; cases "tl xs") (auto simp: fits_def dest: on_path_full)

lemma distinct_map_filter_fst: "distinct (map fst xs) \<Longrightarrow> distinct (map fst (filter P xs))"
  by (rule distinct_map_filter)

lemma fits_child:
  assumes "fits pos xs" "canon_pos pos" "level pos < DEPTH"
  shows "fits (left_child pos) (filter (\<lambda>x. \<not> bit_at (level pos) x) xs)"
    and "fits (right_child pos) (filter (bit_at (level pos)) xs)"
  using assms by (auto simp: fits_def on_path_left on_path_right bit_at_def distinct_map_filter)

lemma fits_filter: "fits pos xs \<Longrightarrow> fits pos (filter P xs)"
  by (auto simp: fits_def distinct_map_filter)

subsection \<open>Shape of the reference tree\<close>

lemma spec_node_Nil [simp]: "spec_node H n [] = None"
  by (cases n) simp_all

lemma spec_node_single [simp]: "spec_node H n [x] = Some (node_leaf H (fst x) (snd x))"
  by (cases n) simp_all

lemma spec_node_many:
  "2 \<le> length xs \<Longrightarrow> spec_node H (Suc n) xs = Some (node_internal H
     (spec_summary H n (filter (\<lambda>x. \<not> bit_at (DEPTH - Suc n) x) xs))
     (spec_summary H n (filter (bit_at (DEPTH - Suc n)) xs)))"
  by (cases xs; cases "tl xs") (simp_all add: spec_summary_def)

lemma spec_node_not_Empty: "spec_node H n xs \<noteq> Some NodeEmpty"
  by (cases n; cases xs; cases "tl xs") (simp_all add: node_leaf_def node_internal_def)

declare spec_node.simps [simp del]

lemma spec_node_kind:
  assumes "fits pos xs" "level pos + n = DEPTH"
  shows "spec_node H n xs = None \<longleftrightarrow> xs = []"
    and "(\<exists>k v h. spec_node H n xs = Some (NodeLeaf k v h)) \<longleftrightarrow> length xs = 1"
    and "(\<exists>h. spec_node H n xs = Some (NodeInternal h)) \<longleftrightarrow> 2 \<le> length xs"
proof -
  have "n \<noteq> 0" if "2 \<le> length xs" using fits_full [OF assms(1)] assms(2) that by force
  then have *: "\<exists>h. spec_node H n xs = Some (NodeInternal h)" if "2 \<le> length xs"
    using that by (cases n) (auto simp: spec_node_many node_internal_def)
  show "spec_node H n xs = None \<longleftrightarrow> xs = []"
    by (cases xs rule: length_cases_012) (use * in \<open>auto simp: node_leaf_def\<close>)
  show "(\<exists>k v h. spec_node H n xs = Some (NodeLeaf k v h)) \<longleftrightarrow> length xs = 1"
    by (cases xs rule: length_cases_012) (use * in \<open>auto simp: node_leaf_def\<close>)
  show "(\<exists>h. spec_node H n xs = Some (NodeInternal h)) \<longleftrightarrow> 2 \<le> length xs"
    by (cases xs rule: length_cases_012) (use * in \<open>auto simp: node_leaf_def\<close>)
qed

lemma spec_node_perm: "mset xs = mset ys \<Longrightarrow> spec_node H n xs = spec_node H n ys"
proof (induction n arbitrary: xs ys)
  case 0
  then show ?case
    by (cases xs rule: length_cases_012; cases ys rule: length_cases_012)
      (auto simp: spec_node.simps dest: mset_eq_length split: list.splits)
next
  case (Suc n)
  show ?case
  proof (cases xs rule: length_cases_012)
    case more
    then have "2 \<le> length ys" using Suc.prems by (metis size_mset)
    moreover have "spec_node H n (filter P xs) = spec_node H n (filter P ys)" for P
      using Suc.prems by (intro Suc.IH) simp
    ultimately show ?thesis using more by (simp add: spec_node_many spec_summary_def)
  qed (use Suc.prems in \<open>auto dest: mset_single_iff [THEN iffD1]\<close>)
qed

lemma distinct_set_perm:
  "distinct (map fst xs) \<Longrightarrow> distinct (map fst ys) \<Longrightarrow> set xs = set ys \<Longrightarrow> mset xs = mset ys"
  by (simp add: set_eq_iff_mset_eq_distinct [symmetric] distinct_map)

lemma spec_node_set:
  "distinct (map fst xs) \<Longrightarrow> distinct (map fst ys) \<Longrightarrow> set xs = set ys
    \<Longrightarrow> spec_node H n xs = spec_node H n ys"
  by (rule spec_node_perm [OF distinct_set_perm])

subsection \<open>Effect of commitments\<close>

lemma set_apply_commits:
  "x \<in> set (apply_commits xs cs) \<longleftrightarrow>
    live x \<and> (x \<in> set cs \<or> (x \<in> set xs \<and> fst x \<notin> fst ` set cs))"
  by (auto simp: apply_commits_def)

lemma distinct_apply_commits:
  "distinct (map fst xs) \<Longrightarrow> distinct (map fst cs) \<Longrightarrow> distinct (map fst (apply_commits xs cs))"
  unfolding apply_commits_def by (rule distinct_map_filter) (force simp: distinct_map_filter)

lemma fits_apply_commits:
  "fits pos xs \<Longrightarrow> fits pos cs \<Longrightarrow> fits pos (apply_commits xs cs)"
  by (force simp: fits_def distinct_apply_commits set_apply_commits)

lemma apply_commits_Nil: "list_all live xs \<Longrightarrow> apply_commits xs [] = xs"
  by (simp add: apply_commits_def list_all_iff filter_id_conv)

lemma map_of_apply_commits:
  assumes "distinct (map fst xs)" "distinct (map fst cs)" "list_all live xs"
  shows "map_of (apply_commits xs cs) k =
    (case map_of cs k of Some v \<Rightarrow> if v = EMPTY_HASH then None else Some v | None \<Rightarrow> map_of xs k)"
proof -
  have d: "distinct (map fst (apply_commits xs cs))" by (rule distinct_apply_commits [OF assms(1,2)])
  have iff: "map_of (apply_commits xs cs) k = Some v \<longleftrightarrow>
      v \<noteq> EMPTY_HASH \<and> (map_of cs k = Some v \<or> (map_of xs k = Some v \<and> map_of cs k = None))" for v
    using assms
    by (auto simp: map_of_eq_Some_iff [OF d] set_apply_commits live_def map_of_eq_None_iff)
  have "map_of xs k \<noteq> Some EMPTY_HASH"
    using assms(1,3) by (auto simp: list_all_iff live_def)
  then show ?thesis
    by (intro option_ext) (auto simp: iff split: option.splits)
qed

lemma apply_commits_filter:
  assumes "\<And>x y. fst x = fst y \<Longrightarrow> P x = P y"
  shows "set (filter P (apply_commits xs cs)) = set (apply_commits (filter P xs) (filter P cs))"
proof (rule set_eqI)
  fix x
  have "fst x \<in> fst ` set (filter P cs) \<longleftrightarrow> fst x \<in> fst ` set cs" if "P x"
  proof
    assume "fst x \<in> fst ` set cs"
    then obtain y where "y \<in> set cs" "fst x = fst y" by auto
    with that assms [of x y] show "fst x \<in> fst ` set (filter P cs)" by auto
  qed auto
  then show "x \<in> set (filter P (apply_commits xs cs)) \<longleftrightarrow>
      x \<in> set (apply_commits (filter P xs) (filter P cs))"
    by (cases "P x") (auto simp: set_apply_commits)
qed

end
