(* ===== verification/SMT_Update.thy ===== *)
theory SMT_Update
  imports SMT_Base
begin

text \<open>
  The tree writer of \<open>core/smt/src/updater.rs\<close> and the default methods \<open>root\<close>
  and \<open>update\<close> of the \<open>Tree\<close> trait (\<open>tree.rs\<close>).

  The read side is a function from positions to versioned nodes: what
  \<open>Tree::node(key, version - 1, snapshot)\<close> returns.  The write batch is the list of the
  operations issued, in order.  A panic of the source is the value \<open>None\<close>.

  The lemmas compare the writer with the reference tree \<open>spec_node\<close>: \<open>rep\<close> says
  that the nodes read below a position are exactly those of a set of entries (and none elsewhere),
  \<open>reach\<close> the same for the nodes that a traversal from the position can reach.
\<close>

subsection \<open>Write batch\<close>

datatype wb_op =
    PutNode smt_key nat node
  | PutStaleNode stale_node
  | DeleteNode smt_key nat
  | DeleteStaleNode stale_node

type_synonym write_batch = "wb_op list"

subsection \<open>The updater\<close>

record updater =
  u_node :: "smt_key \<Rightarrow> (nat \<times> node) option"
  u_version :: nat

definition mark_stale :: "updater \<Rightarrow> smt_key \<Rightarrow> write_batch \<Rightarrow> write_batch" where
  "mark_stale u node_key wb =
    (case u_node u node_key of
       Some (old_version, _) \<Rightarrow> wb @ [PutStaleNode (stale_new (u_version u) node_key old_version)]
     | None \<Rightarrow> wb)"

definition write_child ::
  "updater \<Rightarrow> node option \<Rightarrow> smt_key \<Rightarrow> write_batch \<Rightarrow> hashed_node \<times> write_batch" where
  "write_child u child key wb =
    (case child of
       None \<Rightarrow>
         (hn_empty,
          if (case u_node u key of Some (_, n) \<Rightarrow> n \<noteq> NodeEmpty | None \<Rightarrow> False)
          then wb @ [PutNode key (u_version u) NodeEmpty,
                     PutStaleNode (stale_new (u_version u) key (u_version u))]
          else wb)
     | Some n \<Rightarrow> (hn_of_node n, wb @ [PutNode key (u_version u) n]))"

definition join_children ::
  "hasher \<Rightarrow> updater \<Rightarrow> smt_key \<Rightarrow> smt_key \<Rightarrow> node option \<Rightarrow> node option \<Rightarrow> write_batch
    \<Rightarrow> node option \<times> write_batch" where
  "join_children H u left_key right_key left_result right_result wb =
    (case (left_result, right_result) of
       (None, None) \<Rightarrow> (None, wb)
     | (Some (NodeLeaf _ _ _), None) \<Rightarrow> (left_result, wb)
     | (None, Some (NodeLeaf _ _ _)) \<Rightarrow> (right_result, wb)
     | _ \<Rightarrow>
        let (l, wb) = write_child u left_result left_key wb;
            (r, wb) = write_child u right_result right_key wb
        in (Some (node_internal H l r), wb))"

function (sequential)
  update_subtree :: "hasher \<Rightarrow> updater \<Rightarrow> smt_key \<Rightarrow> commitment list \<Rightarrow> write_batch
    \<Rightarrow> (node option \<times> write_batch) option"
and resolve_leaves :: "hasher \<Rightarrow> updater \<Rightarrow> smt_key \<Rightarrow> commitment list \<Rightarrow> write_batch
    \<Rightarrow> (node option \<times> write_batch) option"
and update_at_leaf :: "hasher \<Rightarrow> updater \<Rightarrow> smt_key \<Rightarrow> commitment list \<Rightarrow> bytes \<Rightarrow> hash \<Rightarrow> write_batch
    \<Rightarrow> (node option \<times> write_batch) option"
and split_and_recurse :: "hasher \<Rightarrow> updater \<Rightarrow> smt_key \<Rightarrow> commitment list \<Rightarrow> write_batch
    \<Rightarrow> (node option \<times> write_batch) option"
where
  "update_subtree H u key commitments wb =
    (if commitments = [] then
       Some (case u_node u key of Some (_, n) \<Rightarrow> if n = NodeEmpty then None else Some n | None \<Rightarrow> None, wb)
     else case u_node u key of
       None \<Rightarrow> resolve_leaves H u key commitments wb
     | Some (_, NodeEmpty) \<Rightarrow> resolve_leaves H u key commitments (mark_stale u key wb)
     | Some (_, NodeLeaf existing_key existing_vh _) \<Rightarrow>
         update_at_leaf H u key commitments existing_key existing_vh wb
     | Some (_, NodeInternal _) \<Rightarrow> split_and_recurse H u key commitments (mark_stale u key wb))"
| "resolve_leaves H u key commitments wb =
    (case filter (\<lambda>c. snd c \<noteq> EMPTY_HASH) commitments of
       [] \<Rightarrow> Some (None, wb)
     | [first] \<Rightarrow> Some (Some (node_leaf H (fst first) (snd first)), wb)
     | _ \<Rightarrow> split_and_recurse H u key commitments wb)"
| "update_at_leaf H u key commitments existing_key existing_vh wb =
    (let wb = mark_stale u key wb in
     if length commitments = 1 \<and> fst (commitments ! 0) = existing_key then
       (let new_vh = snd (commitments ! 0) in
        if new_vh = EMPTY_HASH then Some (None, wb)
        else Some (Some (node_leaf H existing_key new_vh), wb))
     else
       (let pos = partition_point (\<lambda>c. fst c < existing_key) commitments in
        if pos < length commitments \<and> fst (commitments ! pos) = existing_key
        then resolve_leaves H u key commitments wb
        else resolve_leaves H u key
          (take pos commitments @ [commitment_new existing_key existing_vh] @ drop pos commitments) wb))"
| "split_and_recurse H u key commitments wb =
    (if \<not> level key < DEPTH then None
     else
       (let mid = partition_point (\<lambda>c. \<not> get_msb (fst c) (level key)) commitments in
        case update_subtree H u (left_child key) (take mid commitments) wb of
          None \<Rightarrow> None
        | Some (left_result, wb) \<Rightarrow>
           (case update_subtree H u (right_child key) (drop mid commitments) wb of
              None \<Rightarrow> None
            | Some (right_result, wb) \<Rightarrow>
               Some (join_children H u (left_child key) (right_child key) left_result right_result wb))))"
  by pat_completeness auto
termination
  by (relation "measure (\<lambda>x. case x of
      Inl (Inl (_, _, k, _)) \<Rightarrow> 4 * (DEPTH - level k) + 3
    | Inl (Inr (_, _, k, _)) \<Rightarrow> 4 * (DEPTH - level k) + 1
    | Inr (Inl (_, _, k, _)) \<Rightarrow> 4 * (DEPTH - level k) + 2
    | Inr (Inr (_, _, k, _)) \<Rightarrow> 4 * (DEPTH - level k))") auto

declare update_subtree.simps [simp del] resolve_leaves.simps [simp del]
  update_at_leaf.simps [simp del] split_and_recurse.simps [simp del]

text \<open>
  \<open>sort_by_key\<close> is stable and \<open>dedup_by\<close> keeps the first element of a run of equal
  keys with the value of the last one.
\<close>

fun dedup_last :: "commitment list \<Rightarrow> commitment list" where
  "dedup_last (b # a # cs) =
    (if fst a = fst b then dedup_last ((fst b, snd a) # cs) else b # dedup_last (a # cs))"
| "dedup_last cs = cs"

definition updater_apply ::
  "hasher \<Rightarrow> updater \<Rightarrow> commitment list \<Rightarrow> write_batch \<Rightarrow> (hash \<times> write_batch) option" where
  "updater_apply H u commitments wb =
    (case update_subtree H u ROOT (dedup_last (sort_key fst commitments)) wb of
       None \<Rightarrow> None
     | Some (None, wb) \<Rightarrow> Some (EMPTY_HASH, wb @ [PutNode ROOT (u_version u) NodeEmpty])
     | Some (Some n, wb) \<Rightarrow> Some (node_hash n, wb @ [PutNode ROOT (u_version u) n]))"

subsection \<open>Tree methods\<close>

text \<open>
  \<open>node key max_version\<close> is the lookup of the \<open>Tree\<close> implementor under its
  snapshot.
\<close>

definition tree_root :: "(smt_key \<Rightarrow> nat \<Rightarrow> (nat \<times> node) option) \<Rightarrow> nat \<Rightarrow> hash" where
  "tree_root node version =
    (if version = 0 then EMPTY_HASH
     else case node ROOT version of Some (_, d) \<Rightarrow> node_hash d | None \<Rightarrow> EMPTY_HASH)"

definition tree_update ::
  "hasher \<Rightarrow> (smt_key \<Rightarrow> nat \<Rightarrow> (nat \<times> node) option) \<Rightarrow> commitment list \<Rightarrow> nat \<Rightarrow> write_batch
    \<Rightarrow> (hash \<times> write_batch) option" where
  "tree_update H node commitments version wb =
    (if version = 0 then None
     else if commitments = [] then Some (tree_root node (version - 1), wb)
     else updater_apply H \<lparr>u_node = \<lambda>k. node k (version - 1), u_version = version\<rparr> commitments wb)"


subsection \<open>What the reads stand for\<close>

fun norm :: "node option \<Rightarrow> node option" where
  "norm (Some NodeEmpty) = None"
| "norm x = x"

definition reads :: "updater \<Rightarrow> smt_key \<Rightarrow> node option" where
  "reads u key = norm (map_option snd (u_node u key))"

definition left_half :: "smt_key \<Rightarrow> commitment list \<Rightarrow> commitment list" where
  "left_half pos xs = filter (\<lambda>x. \<not> bit_at (level pos) x) xs"

definition right_half :: "smt_key \<Rightarrow> commitment list \<Rightarrow> commitment list" where
  "right_half pos xs = filter (bit_at (level pos)) xs"

primrec rep :: "hasher \<Rightarrow> (smt_key \<Rightarrow> node option) \<Rightarrow> nat \<Rightarrow> smt_key \<Rightarrow> commitment list \<Rightarrow> bool" where
  "rep H f 0 pos xs = (f pos = spec_node H 0 xs)"
| "rep H f (Suc n) pos xs =
    (f pos = spec_node H (Suc n) xs
     \<and> rep H f n (left_child pos) (if 2 \<le> length xs then left_half pos xs else [])
     \<and> rep H f n (right_child pos) (if 2 \<le> length xs then right_half pos xs else []))"

primrec reach :: "hasher \<Rightarrow> (smt_key \<Rightarrow> node option) \<Rightarrow> nat \<Rightarrow> smt_key \<Rightarrow> commitment list \<Rightarrow> bool" where
  "reach H f 0 pos xs = (f pos = spec_node H 0 xs)"
| "reach H f (Suc n) pos xs =
    (f pos = spec_node H (Suc n) xs
     \<and> (2 \<le> length xs \<longrightarrow>
         reach H f n (left_child pos) (left_half pos xs)
       \<and> reach H f n (right_child pos) (right_half pos xs)))"

fun overlay_op :: "wb_op \<Rightarrow> (smt_key \<Rightarrow> node option) \<Rightarrow> smt_key \<Rightarrow> node option" where
  "overlay_op (PutNode k v n) f = f(k := norm (Some n))"
| "overlay_op _ f = f"

definition overlay :: "write_batch \<Rightarrow> (smt_key \<Rightarrow> node option) \<Rightarrow> smt_key \<Rightarrow> node option" where
  "overlay ops f = fold overlay_op ops f"

definition beneath :: "smt_key \<Rightarrow> smt_key \<Rightarrow> bool" where
  "beneath pos k \<longleftrightarrow> level pos \<le> level k \<and> (\<forall>i < level pos. get_msb (path k) i = get_msb (path pos) i)"

fun op_below :: "updater \<Rightarrow> smt_key \<Rightarrow> wb_op \<Rightarrow> bool" where
  "op_below u pos (PutNode k v n) \<longleftrightarrow> v = u_version u \<and> beneath pos k \<and> level pos < level k"
| "op_below u pos _ \<longleftrightarrow> True"

definition ops_below :: "updater \<Rightarrow> smt_key \<Rightarrow> write_batch \<Rightarrow> bool" where
  "ops_below u pos ops = list_all (op_below u pos) ops"

subsection \<open>Frame\<close>

lemma read_cases [case_names emp none internal leaf]:
  obtains "x = Some NodeEmpty" | "x = None" | h where "x = Some (NodeInternal h)"
    | k v h where "x = Some (NodeLeaf k v h)"
  by (cases x rule: norm.cases) auto

lemma norm_Some: "norm (Some n) = (if n = NodeEmpty then None else Some n)"
  by (cases n) simp_all

lemma overlay_simps [simp]:
  "overlay [] f = f"
  "overlay (ops @ ops') f = overlay ops' (overlay ops f)"
  "overlay (op # ops) f = overlay ops (overlay_op op f)"
  by (simp_all add: overlay_def)

lemma overlay_other:
  "(\<And>v n. PutNode k v n \<notin> set ops) \<Longrightarrow> overlay ops f k = f k"
proof (induction ops arbitrary: f)
  case (Cons op ops)
  then show ?case by (cases op) auto
qed simp

lemma overlay_cong: "f k = g k \<Longrightarrow> overlay ops f k = overlay ops g k"
proof (induction ops arbitrary: f g)
  case (Cons op ops)
  then have "overlay_op op f k = overlay_op op g k" by (cases op) simp_all
  then have "overlay ops (overlay_op op f) k = overlay ops (overlay_op op g) k" by (rule Cons.IH)
  then show ?case by simp
qed simp

lemma ops_below_simps [simp]:
  "ops_below u pos []"
  "ops_below u pos (ops @ ops') \<longleftrightarrow> ops_below u pos ops \<and> ops_below u pos ops'"
  "ops_below u pos (PutStaleNode s # ops) \<longleftrightarrow> ops_below u pos ops"
  "ops_below u pos (PutNode k v n # ops) \<longleftrightarrow>
    v = u_version u \<and> beneath pos k \<and> level pos < level k \<and> ops_below u pos ops"
  by (auto simp: ops_below_def)

lemma beneath_refl [simp]: "beneath pos pos"
  by (simp add: beneath_def)

lemma beneath_child:
  assumes "canon_pos pos" "level pos < DEPTH"
  shows "beneath (left_child pos) k \<longleftrightarrow> beneath pos k \<and> level pos < level k \<and> \<not> get_msb (path k) (level pos)"
    and "beneath (right_child pos) k \<longleftrightarrow> beneath pos k \<and> level pos < level k \<and> get_msb (path k) (level pos)"
proof -
  have "level pos div 8 < 32" using assms(2) by (simp add: DEPTH_def)
  then show "beneath (left_child pos) k \<longleftrightarrow> beneath pos k \<and> level pos < level k \<and> \<not> get_msb (path k) (level pos)"
    and "beneath (right_child pos) k \<longleftrightarrow> beneath pos k \<and> level pos < level k \<and> get_msb (path k) (level pos)"
    using assms(1)
    by (auto simp: beneath_def canon_pos_def left_child_def right_child_def less_Suc_eq get_msb_set_msb)
qed

lemma ops_below_child:
  assumes "canon_pos pos" "level pos < DEPTH"
  shows "ops_below u (left_child pos) ops \<Longrightarrow> ops_below u pos ops"
    and "ops_below u (right_child pos) ops \<Longrightarrow> ops_below u pos ops"
proof -
  have "op_below u (left_child pos) op \<Longrightarrow> op_below u pos op"
    "op_below u (right_child pos) op \<Longrightarrow> op_below u pos op" for op
    using assms by (cases op; auto simp: beneath_child)+
  then show "ops_below u (left_child pos) ops \<Longrightarrow> ops_below u pos ops"
    and "ops_below u (right_child pos) ops \<Longrightarrow> ops_below u pos ops"
    by (auto simp: ops_below_def list_all_iff)
qed

lemma reach_cong:
  assumes "canon_pos pos" "level pos + n = DEPTH" "\<And>k. beneath pos k \<Longrightarrow> f k = g k"
  shows "reach H f n pos xs = reach H g n pos xs"
  using assms
proof (induction n arbitrary: pos xs)
  case (Suc n)
  have lt: "level pos < DEPTH" using Suc.prems(2) by simp
  have eq: "f pos = g pos" using Suc.prems(3) by simp
  have L: "reach H f n (left_child pos) ys = reach H g n (left_child pos) ys" for ys
    using Suc.prems lt by (intro Suc.IH canon_pos_child) (auto simp: beneath_child)
  have R: "reach H f n (right_child pos) ys = reach H g n (right_child pos) ys" for ys
    using Suc.prems lt by (intro Suc.IH canon_pos_child) (auto simp: beneath_child)
  show ?case by (simp add: eq L R)
qed simp

lemma rep_cong:
  assumes "canon_pos pos" "level pos + n = DEPTH" "\<And>k. beneath pos k \<Longrightarrow> f k = g k"
  shows "rep H f n pos xs = rep H g n pos xs"
  using assms
proof (induction n arbitrary: pos xs)
  case (Suc n)
  have lt: "level pos < DEPTH" using Suc.prems(2) by simp
  have eq: "f pos = g pos" using Suc.prems(3) by simp
  have L: "rep H f n (left_child pos) ys = rep H g n (left_child pos) ys" for ys
    using Suc.prems lt by (intro Suc.IH canon_pos_child) (auto simp: beneath_child)
  have R: "rep H f n (right_child pos) ys = rep H g n (right_child pos) ys" for ys
    using Suc.prems lt by (intro Suc.IH canon_pos_child) (auto simp: beneath_child)
  show ?case by (simp add: eq L R)
qed simp

lemma rep_imp_reach: "rep H f n pos xs \<Longrightarrow> reach H f n pos xs"
  by (induction n arbitrary: pos xs) auto

lemma rep_pos: "rep H f n pos xs \<Longrightarrow> f pos = spec_node H n xs"
  by (cases n) simp_all

lemma overlay_above:
  "ops_below u pos ops \<Longrightarrow> \<not> (beneath pos k \<and> level pos < level k) \<Longrightarrow> overlay ops f k = f k"
  by (rule overlay_other) (force simp: ops_below_def list_all_iff)


lemma reach_perm: "mset xs = mset ys \<Longrightarrow> reach H f n pos xs = reach H f n pos ys"
proof (induction n arbitrary: pos xs ys)
  case 0
  then show ?case by (simp add: spec_node_perm [OF 0])
next
  case (Suc n)
  have "length xs = length ys" using Suc.prems by (rule mset_eq_length)
  moreover have "mset (left_half pos xs) = mset (left_half pos ys)"
    "mset (right_half pos xs) = mset (right_half pos ys)"
    using Suc.prems by (simp_all add: left_half_def right_half_def)
  ultimately show ?case
    by (simp add: spec_node_perm [OF Suc.prems] Suc.IH [of "left_half pos xs" "left_half pos ys"]
        Suc.IH [of "right_half pos xs" "right_half pos ys"])
qed

lemma rep_perm: "mset xs = mset ys \<Longrightarrow> rep H f n pos xs = rep H f n pos ys"
proof (induction n arbitrary: pos xs ys)
  case 0
  then show ?case by (simp add: spec_node_perm [OF 0])
next
  case (Suc n)
  have "length xs = length ys" using Suc.prems by (rule mset_eq_length)
  moreover have "mset (left_half pos xs) = mset (left_half pos ys)"
    "mset (right_half pos xs) = mset (right_half pos ys)"
    using Suc.prems by (simp_all add: left_half_def right_half_def)
  ultimately show ?case
    by (simp add: spec_node_perm [OF Suc.prems] Suc.IH [of "left_half pos xs" "left_half pos ys"]
        Suc.IH [of "right_half pos xs" "right_half pos ys"])
qed

subsection \<open>Writing the children\<close>

definition child_ops :: "updater \<Rightarrow> node option \<Rightarrow> smt_key \<Rightarrow> write_batch" where
  "child_ops u c k = snd (write_child u c k [])"

lemma write_child_eq: "write_child u c k wb = (summary c, wb @ child_ops u c k)"
  by (auto simp: write_child_def child_ops_def split: option.splits)

lemma overlay_child_ops:
  "c \<noteq> Some NodeEmpty \<Longrightarrow> g k = reads u k \<Longrightarrow> overlay (child_ops u c k) g = g(k := c)"
  by (cases c; cases "u_node u k"; cases "snd (the (u_node u k))"; cases "the c")
    (auto simp: child_ops_def write_child_def reads_def fun_eq_iff)

lemma ops_below_child_ops:
  "beneath pos k \<Longrightarrow> level pos < level k \<Longrightarrow> ops_below u pos (child_ops u c k)"
  by (auto simp: child_ops_def write_child_def split: option.splits)

text \<open>
  What a recursive call must deliver: the reference node, writes strictly below its position, a
  tree reachable in the store overlaid with the writes and, if nothing was deleted (\<open>lv\<close>), a
  store with no other node below the position.
\<close>

definition result_ok ::
  "hasher \<Rightarrow> updater \<Rightarrow> nat \<Rightarrow> smt_key \<Rightarrow> bool \<Rightarrow> commitment list \<Rightarrow> write_batch
    \<Rightarrow> (node option \<times> write_batch) option \<Rightarrow> bool" where
  "result_ok H u n pos lv ys wb res \<longleftrightarrow>
    (\<exists>ops. res = Some (spec_node H n ys, wb @ ops) \<and> ops_below u pos ops
       \<and> reach H ((overlay ops (reads u))(pos := spec_node H n ys)) n pos ys
       \<and> (lv \<longrightarrow> rep H ((overlay ops (reads u))(pos := spec_node H n ys)) n pos ys))"

lemma result_ok_set:
  assumes "distinct (map fst ys)" "distinct (map fst ys')" "set ys = set ys'"
  shows "result_ok H u n pos lv ys wb res = result_ok H u n pos lv ys' wb res"
  unfolding result_ok_def spec_node_set [OF assms] reach_perm [OF distinct_set_perm [OF assms]]
    rep_perm [OF distinct_set_perm [OF assms]] ..

lemma result_ok_stale:
  "result_ok H u n pos lv ys (mark_stale u pos wb) res \<Longrightarrow> result_ok H u n pos lv ys wb res"
  by (auto simp: result_ok_def mark_stale_def split: option.splits)

lemma result_ok_short:
  assumes pos: "canon_pos pos" "level pos + n = DEPTH" and short: "length ys < 2"
    and below: "\<And>m. n = Suc m \<Longrightarrow> rep H (reads u) m (left_child pos) [] \<and> rep H (reads u) m (right_child pos) []"
  shows "result_ok H u n pos lv ys wb (Some (spec_node H n ys, wb))"
proof -
  have "rep H ((reads u)(pos := spec_node H n ys)) n pos ys"
  proof (cases n)
    case (Suc m)
    then have lt: "level pos < DEPTH" using pos(2) by simp
    note bc = beneath_child [OF pos(1) lt] and cc = canon_pos_child [OF pos(1) lt]
    have "rep H ((reads u)(pos := c)) m (left_child pos) []" for c
      using below [OF Suc] pos(2) Suc
      by (subst rep_cong [OF cc(1), where g = "reads u"]) (auto simp: bc)
    moreover have "rep H ((reads u)(pos := c)) m (right_child pos) []" for c
      using below [OF Suc] pos(2) Suc
      by (subst rep_cong [OF cc(2), where g = "reads u"]) (auto simp: bc)
    ultimately show ?thesis using short Suc by simp
  qed simp
  then show ?thesis
    unfolding result_ok_def using rep_imp_reach by (intro exI [of _ "[]"]) auto
qed

lemma halves_length: "length (left_half pos ys) + length (right_half pos ys) = length ys"
  unfolding left_half_def right_half_def
  using sum_length_filter_compl [of "bit_at (level pos)" ys] by simp

lemma join_children_spec:
  fixes H :: hasher
  assumes "fits pos ys" "canon_pos pos" "level pos + Suc n = DEPTH"
  defines "a \<equiv> spec_node H n (left_half pos ys)" and "b \<equiv> spec_node H n (right_half pos ys)"
  shows "join_children H u (left_child pos) (right_child pos) a b wb =
    (spec_node H (Suc n) ys,
     if length ys < 2 then wb
     else wb @ child_ops u a (left_child pos) @ child_ops u b (right_child pos))"
proof -
  have lt: "level pos < DEPTH" and lvl: "DEPTH - Suc n = level pos" using assms(3) by simp_all
  note fc = fits_child [OF assms(1,2) lt, folded left_half_def right_half_def]
  have ka: "a = None \<longleftrightarrow> left_half pos ys = []" "(\<exists>k v h. a = Some (NodeLeaf k v h)) \<longleftrightarrow> length (left_half pos ys) = 1"
    "(\<exists>h. a = Some (NodeInternal h)) \<longleftrightarrow> 2 \<le> length (left_half pos ys)"
    unfolding a_def using assms(3) by (intro spec_node_kind [OF fc(1)]; simp)+
  have kb: "b = None \<longleftrightarrow> right_half pos ys = []" "(\<exists>k v h. b = Some (NodeLeaf k v h)) \<longleftrightarrow> length (right_half pos ys) = 1"
    "(\<exists>h. b = Some (NodeInternal h)) \<longleftrightarrow> 2 \<le> length (right_half pos ys)"
    unfolding b_def using assms(3) by (intro spec_node_kind [OF fc(2)]; simp)+
  note len = halves_length [of pos ys]
  show ?thesis
  proof (cases ys rule: length_cases_012)
    case zero
    then show ?thesis by (simp add: a_def b_def left_half_def right_half_def join_children_def)
  next
    case (one x)
    then show ?thesis
      by (cases "bit_at (level pos) x")
        (simp_all add: a_def b_def left_half_def right_half_def join_children_def node_leaf_def)
  next
    case more
    have many: "spec_node H (Suc n) ys = Some (node_internal H (summary a) (summary b))"
      using more lvl by (simp add: spec_node_many spec_summary_def a_def b_def left_half_def right_half_def)
    have "\<not> (a = None \<and> b = None)" "\<not> ((\<exists>k v h. a = Some (NodeLeaf k v h)) \<and> b = None)"
      "\<not> (a = None \<and> (\<exists>k v h. b = Some (NodeLeaf k v h)))"
      using more len ka(1,2) kb(1,2) by auto
    then have "join_children H u (left_child pos) (right_child pos) a b wb =
        (let (l, wb) = write_child u a (left_child pos) wb;
             (r, wb) = write_child u b (right_child pos) wb
         in (Some (node_internal H l r), wb))"
      unfolding join_children_def by (auto split: option.splits node.splits)
    then show ?thesis using more many by (simp add: write_child_eq)
  qed
qed

lemma join_reach:
  assumes fits: "fits pos ys" and pos: "canon_pos pos" "level pos + Suc n = DEPTH"
    and L: "ops_below u (left_child pos) opsL"
      "reach H ((overlay opsL (reads u))(left_child pos := a)) n (left_child pos) (left_half pos ys)"
    and R: "ops_below u (right_child pos) opsR"
      "reach H ((overlay opsR (reads u))(right_child pos := b)) n (right_child pos) (right_half pos ys)"
    and LR: "lv \<Longrightarrow> rep H ((overlay opsL (reads u))(left_child pos := a)) n (left_child pos) (left_half pos ys)"
      "lv \<Longrightarrow> rep H ((overlay opsR (reads u))(right_child pos := b)) n (right_child pos) (right_half pos ys)"
    and ab: "a \<noteq> Some NodeEmpty" "b \<noteq> Some NodeEmpty"
  defines "ops \<equiv> opsL @ opsR @ child_ops u a (left_child pos) @ child_ops u b (right_child pos)"
  shows "ops_below u pos ops"
    and "reach H ((overlay ops (reads u))(pos := spec_node H (Suc n) ys)) (Suc n) pos ys"
    and "lv \<Longrightarrow> 2 \<le> length ys \<Longrightarrow> rep H ((overlay ops (reads u))(pos := spec_node H (Suc n) ys)) (Suc n) pos ys"
proof -
  let ?l = "left_child pos" and ?r = "right_child pos"
  have lt: "level pos < DEPTH" using pos(2) by simp
  note bc = beneath_child [OF pos(1) lt]
  have bl: "beneath pos ?l" "level pos < level ?l" "\<not> get_msb (path ?l) (level pos)"
    using bc(1) [of ?l] by simp_all
  have br: "beneath pos ?r" "level pos < level ?r" "get_msb (path ?r) (level pos)"
    using bc(2) [of ?r] by simp_all
  show "ops_below u pos ops"
    using L(1) R(1) ops_below_child [OF pos(1) lt] bl br
    by (simp add: ops_def ops_below_child_ops)
  have lk: "overlay opsL (reads u) ?l = reads u ?l" "overlay opsR f ?l = f ?l" for f
    using bl bc by (simp_all add: overlay_above [OF L(1)] overlay_above [OF R(1)])
  have rk: "overlay opsL (reads u) ?r = reads u ?r" "overlay opsR f ?r = f ?r" for f
    using br bc by (simp_all add: overlay_above [OF L(1)] overlay_above [OF R(1)])
  have lr: "?l \<noteq> ?r" using bl(3) br(3) by metis
  have fin: "overlay ops (reads u) = (overlay opsR (overlay opsL (reads u)))(?l := a, ?r := b)"
  proof -
    let ?g = "overlay opsR (overlay opsL (reads u))"
    have "overlay (child_ops u a ?l) ?g = ?g(?l := a)"
      by (rule overlay_child_ops [OF ab(1)]) (simp only: lk)
    moreover have "overlay (child_ops u b ?r) (?g(?l := a)) = ?g(?l := a, ?r := b)"
      by (rule overlay_child_ops [OF ab(2)]) (simp only: rk fun_upd_other [OF lr [symmetric]])
    ultimately show ?thesis by (simp only: ops_def overlay_simps)
  qed
  have offL: "overlay opsR f k = f k" if "beneath ?l k" for k f
    using that bc by (intro overlay_above [OF R(1)]) auto
  have offR: "overlay opsR (overlay opsL (reads u)) k = overlay opsR (reads u) k" if "beneath ?r k" for k
  proof -
    have "overlay opsL (reads u) k = reads u k" using that bc by (intro overlay_above [OF L(1)]) auto
    then show ?thesis by (rule overlay_cong)
  qed
  have "reach H ((overlay ops (reads u))(pos := c)) n ?l (left_half pos ys)" for c
    by (rule iffD1 [OF reach_cong L(2)], rule canon_pos_child [OF pos(1) lt])
      (use pos lr bl br bc offL in \<open>auto simp: fin fun_upd_def\<close>)
  moreover have "reach H ((overlay ops (reads u))(pos := c)) n ?r (right_half pos ys)" for c
    by (rule iffD1 [OF reach_cong R(2)], rule canon_pos_child [OF pos(1) lt])
      (use pos lr bl br bc offR in \<open>auto simp: fin fun_upd_def\<close>)
  ultimately show "reach H ((overlay ops (reads u))(pos := spec_node H (Suc n) ys)) (Suc n) pos ys"
    by simp
  assume lv: lv and len: "2 \<le> length ys"
  have "rep H ((overlay ops (reads u))(pos := c)) n ?l (left_half pos ys)" for c
    by (rule iffD1 [OF rep_cong LR(1) [OF lv]], rule canon_pos_child [OF pos(1) lt])
      (use pos lr bl br bc offL in \<open>auto simp: fin fun_upd_def\<close>)
  moreover have "rep H ((overlay ops (reads u))(pos := c)) n ?r (right_half pos ys)" for c
    by (rule iffD1 [OF rep_cong LR(2) [OF lv]], rule canon_pos_child [OF pos(1) lt])
      (use pos lr bl br bc offR in \<open>auto simp: fin fun_upd_def\<close>)
  ultimately show "rep H ((overlay ops (reads u))(pos := spec_node H (Suc n) ys)) (Suc n) pos ys"
    using len by simp
qed


subsection \<open>The writer computes the reference tree\<close>

definition key_sorted :: "commitment list \<Rightarrow> bool" where
  "key_sorted cs \<longleftrightarrow> sorted_wrt (\<lambda>a b. fst a < fst b) cs"

lemma key_sorted_distinct: "key_sorted cs \<Longrightarrow> distinct (map fst cs)"
  by (induction cs) (auto simp: key_sorted_def)

lemma on_path_msb_mono:
  assumes "on_path pos a" "on_path pos b" "level pos < DEPTH" "a < b" "get_msb a (level pos)"
  shows "get_msb b (level pos)"
  by (rule msb_mono [of a b]) (use assms in \<open>auto simp: on_path_def DEPTH_def\<close>)

lemma partition_halves:
  assumes "fits pos cs" "key_sorted cs" "level pos < DEPTH"
  defines "mid \<equiv> partition_point (\<lambda>c. \<not> get_msb (fst c) (level pos)) cs"
  shows "take mid cs = left_half pos cs" "drop mid cs = right_half pos cs"
proof -
  have "sorted_wrt (\<lambda>x y. \<not> get_msb (fst y) (level pos) \<longrightarrow> \<not> get_msb (fst x) (level pos)) cs"
    using assms(2) unfolding key_sorted_def
    by (rule sorted_wrt_mono_rel [rotated])
      (use assms(1,3) on_path_msb_mono in \<open>auto simp: fits_def\<close>)
  note part = partitioned_filter [OF this]
  show "take mid cs = left_half pos cs" "drop mid cs = right_half pos cs"
    unfolding mid_def take_partition_point drop_partition_point part
    by (simp_all add: left_half_def right_half_def bit_at_def [abs_def])
qed

lemma halves_apply_commits:
  "set (left_half pos (apply_commits xs cs)) = set (apply_commits (left_half pos xs) (left_half pos cs))"
  "set (right_half pos (apply_commits xs cs)) = set (apply_commits (right_half pos xs) (right_half pos cs))"
  unfolding left_half_def right_half_def by (rule apply_commits_filter; simp add: bit_at_def)+

lemma halves_simps:
  "key_sorted cs \<Longrightarrow> key_sorted (left_half pos cs)"
  "key_sorted cs \<Longrightarrow> key_sorted (right_half pos cs)"
  "list_all live cs \<Longrightarrow> list_all live (left_half pos cs)"
  "list_all live cs \<Longrightarrow> list_all live (right_half pos cs)"
  "distinct (map fst cs) \<Longrightarrow> distinct (map fst (left_half pos cs))"
  "distinct (map fst cs) \<Longrightarrow> distinct (map fst (right_half pos cs))"
  by (auto simp: key_sorted_def left_half_def right_half_def sorted_wrt_filter list_all_iff
      distinct_map_filter)

lemma fits_distinct: "fits pos xs \<Longrightarrow> distinct (map fst xs)"
  by (simp add: fits_def)

definition subtree_ok :: "hasher \<Rightarrow> updater \<Rightarrow> nat \<Rightarrow> bool" where
  "subtree_ok H u n \<longleftrightarrow> (\<forall>pos xs cs wb.
     canon_pos pos \<longrightarrow> level pos + n = DEPTH \<longrightarrow> fits pos xs \<longrightarrow> list_all live xs \<longrightarrow>
     fits pos cs \<longrightarrow> key_sorted cs \<longrightarrow> rep H (reads u) n pos xs \<longrightarrow>
     result_ok H u n pos (list_all live cs) (apply_commits xs cs) wb (update_subtree H u pos cs wb))"

lemma split_ok:
  assumes IH: "subtree_ok H u n"
    and pos: "canon_pos pos" "level pos + Suc n = DEPTH"
    and xs: "fits pos xs" "list_all live xs" and cs: "fits pos cs" "key_sorted cs"
    and repl: "rep H (reads u) n (left_child pos) (left_half pos xs)"
    and repr: "rep H (reads u) n (right_child pos) (right_half pos xs)"
    and many: "list_all live cs \<Longrightarrow> 2 \<le> length (apply_commits xs cs)"
  shows "result_ok H u (Suc n) pos (list_all live cs) (apply_commits xs cs) wb (split_and_recurse H u pos cs wb)"
proof -
  let ?ys = "apply_commits xs cs"
  have lt: "level pos < DEPTH" using pos(2) by simp
  note fc = fits_child [OF _ pos(1) lt, folded left_half_def right_half_def]
  have fy: "fits pos ?ys" by (rule fits_apply_commits [OF xs(1) cs(1)])
  have "result_ok H u n (left_child pos) (list_all live (left_half pos cs)) (left_half pos ?ys) wb
      (update_subtree H u (left_child pos) (left_half pos cs) wb)"
    using IH [unfolded subtree_ok_def, rule_format, of "left_child pos" "left_half pos xs" "left_half pos cs" wb]
      fc xs cs repl pos lt halves_simps canon_pos_child
    by (subst result_ok_set [OF _ _ halves_apply_commits(1)])
      (simp_all add: fits_distinct fy distinct_apply_commits)
  then obtain opsL where L: "update_subtree H u (left_child pos) (left_half pos cs) wb =
        Some (spec_node H n (left_half pos ?ys), wb @ opsL)"
      "ops_below u (left_child pos) opsL"
      "reach H ((overlay opsL (reads u))(left_child pos := spec_node H n (left_half pos ?ys))) n
        (left_child pos) (left_half pos ?ys)"
      "list_all live cs \<Longrightarrow> rep H ((overlay opsL (reads u))(left_child pos := spec_node H n (left_half pos ?ys))) n
        (left_child pos) (left_half pos ?ys)"
    using halves_simps(3) by (auto simp: result_ok_def)
  have "result_ok H u n (right_child pos) (list_all live (right_half pos cs)) (right_half pos ?ys) (wb @ opsL)
      (update_subtree H u (right_child pos) (right_half pos cs) (wb @ opsL))"
    using IH [unfolded subtree_ok_def, rule_format, of "right_child pos" "right_half pos xs"
        "right_half pos cs" "wb @ opsL"]
      fc xs cs repr pos lt halves_simps canon_pos_child
    by (subst result_ok_set [OF _ _ halves_apply_commits(2)])
      (simp_all add: fits_distinct fy distinct_apply_commits)
  then obtain opsR where R: "update_subtree H u (right_child pos) (right_half pos cs) (wb @ opsL) =
        Some (spec_node H n (right_half pos ?ys), wb @ opsL @ opsR)"
      "ops_below u (right_child pos) opsR"
      "reach H ((overlay opsR (reads u))(right_child pos := spec_node H n (right_half pos ?ys))) n
        (right_child pos) (right_half pos ?ys)"
      "list_all live cs \<Longrightarrow> rep H ((overlay opsR (reads u))(right_child pos := spec_node H n (right_half pos ?ys))) n
        (right_child pos) (right_half pos ?ys)"
    using halves_simps(4) by (auto simp: result_ok_def)
  let ?W = "child_ops u (spec_node H n (left_half pos ?ys)) (left_child pos) @
      child_ops u (spec_node H n (right_half pos ?ys)) (right_child pos)"
  define ops where "ops = opsL @ opsR @ (if length ?ys < 2 then [] else ?W)"
  have res: "split_and_recurse H u pos cs wb = Some (spec_node H (Suc n) ?ys, wb @ ops)"
    using lt L(1) R(1)
    by (simp add: split_and_recurse.simps partition_halves [OF cs lt] Let_def
        join_children_spec [OF fy pos] ops_def)
  have full: "ops_below u pos (opsL @ opsR @ ?W)"
      "reach H ((overlay (opsL @ opsR @ ?W) (reads u))(pos := spec_node H (Suc n) ?ys)) (Suc n) pos ?ys"
      "list_all live cs \<Longrightarrow> 2 \<le> length ?ys \<Longrightarrow>
        rep H ((overlay (opsL @ opsR @ ?W) (reads u))(pos := spec_node H (Suc n) ?ys)) (Suc n) pos ?ys"
    by (rule join_reach [OF fy pos L(2,3) R(2,3) L(4) R(4) spec_node_not_Empty spec_node_not_Empty],
        assumption+)+
  show ?thesis
  proof (cases "length ?ys < 2")
    case True
    then show ?thesis using res full(1) many
      by (auto simp: result_ok_def ops_def)
  next
    case False
    then have "ops = opsL @ opsR @ ?W" by (simp add: ops_def)
    then show ?thesis unfolding result_ok_def using res full many by blast
  qed
qed


lemma apply_commits_grows:
  assumes "fits pos xs" "list_all live xs" "fits pos cs" "list_all live cs"
  shows "length xs \<le> length (apply_commits xs cs)"
proof -
  have d: "distinct (map fst xs)" "distinct (map fst (apply_commits xs cs))"
    using assms by (simp_all add: fits_def distinct_apply_commits)
  have "fst ` set xs \<subseteq> fst ` set (apply_commits xs cs)"
  proof
    fix k assume "k \<in> fst ` set xs"
    then obtain v where v: "(k, v) \<in> set xs" by auto
    show "k \<in> fst ` set (apply_commits xs cs)"
    proof (cases "k \<in> fst ` set cs")
      case True
      then obtain w where "(k, w) \<in> set cs" by auto
      then have "(k, w) \<in> set (apply_commits xs cs)"
        using assms(4) by (auto simp: set_apply_commits list_all_iff)
      then show ?thesis by force
    next
      case False
      then have "(k, v) \<in> set (apply_commits xs cs)"
        using v assms(2) by (auto simp: set_apply_commits list_all_iff)
      then show ?thesis by force
    qed
  qed
  then have "card (set (map fst xs)) \<le> card (set (map fst (apply_commits xs cs)))"
    by (intro card_mono) simp_all
  then show ?thesis using d by (simp only: distinct_card length_map)
qed

lemma apply_commits_nothing: "apply_commits [] cs = filter live cs"
  by (simp add: apply_commits_def)

lemma resolve_ok:
  assumes IH: "\<And>m. n = Suc m \<Longrightarrow> subtree_ok H u m"
    and pos: "canon_pos pos" "level pos + n = DEPTH"
    and cs: "fits pos cs" "key_sorted cs"
    and below: "\<And>m. n = Suc m \<Longrightarrow> rep H (reads u) m (left_child pos) [] \<and> rep H (reads u) m (right_child pos) []"
  shows "result_ok H u n pos (list_all live cs) (apply_commits [] cs) wb (resolve_leaves H u pos cs wb)"
proof -
  have live: "(\<lambda>c. snd c \<noteq> EMPTY_HASH) = live" by (simp add: live_def [abs_def])
  show ?thesis
  proof (cases "filter live cs" rule: length_cases_012)
    case more
    then have "2 \<le> length cs" using length_filter_le [of live cs] by linarith
    then obtain k where n: "n = Suc k" using fits_full [OF cs(1)] pos(2) by (cases n) force+
    have "resolve_leaves H u pos cs wb = split_and_recurse H u pos cs wb"
      using more by (auto simp: resolve_leaves.simps live split: list.splits)
    moreover have "left_half pos [] = []" "right_half pos [] = []" "fits pos []"
      by (simp_all add: left_half_def right_half_def fits_def)
    ultimately show ?thesis
      using split_ok [OF IH [OF n] pos(1) pos(2) [unfolded n] _ _ cs, of "[]" wb] below [OF n] n
        more by (simp add: apply_commits_nothing)
  qed (use result_ok_short [OF pos _ below, of "apply_commits [] cs" "list_all live cs" wb] in
      \<open>simp_all add: resolve_leaves.simps live apply_commits_nothing\<close>)
qed

lemma key_partition:
  fixes ek :: bytes
  assumes "key_sorted cs"
  defines "p \<equiv> partition_point (\<lambda>c. fst c < ek) cs"
  shows "p < length cs \<and> fst (cs ! p) = ek \<longleftrightarrow> ek \<in> fst ` set cs"
    and "ek \<notin> fst ` set cs \<Longrightarrow> key_sorted (take p cs @ [(ek, ev)] @ drop p cs)"
proof -
  let ?P = "\<lambda>c. fst c < ek" and ?R = "\<lambda>a b. fst a < fst b"
  define A B where "A = takeWhile ?P cs" and "B = dropWhile ?P cs"
  have cat: "cs = A @ B" by (simp add: A_def B_def)
  have srt: "sorted_wrt ?R A" "sorted_wrt ?R B" "\<forall>a\<in>set A. \<forall>b\<in>set B. ?R a b"
    using assms(1) by (simp_all add: cat key_sorted_def sorted_wrt_append)
  have tw: "\<forall>c \<in> set A. fst c < ek" by (auto simp: A_def dest: set_takeWhileD)
  have "sorted_wrt (\<lambda>x y. ?P y \<longrightarrow> ?P x) cs"
    using assms(1) unfolding key_sorted_def by (rule sorted_wrt_mono_rel [rotated]) auto
  then have dw: "\<forall>c \<in> set B. ek \<le> fst c" by (auto simp: B_def partitioned_filter)
  have p: "p = length A" by (simp add: p_def partition_point_def A_def)
  have mem: "ek \<in> fst ` set cs \<longleftrightarrow> ek \<in> fst ` set B" using tw by (auto simp: cat)
  show "p < length cs \<and> fst (cs ! p) = ek \<longleftrightarrow> ek \<in> fst ` set cs"
  proof (cases B)
    case Nil
    then show ?thesis unfolding mem by (simp add: p cat)
  next
    case (Cons b bs)
    then show ?thesis unfolding mem using srt(2) dw by (auto simp: p cat nth_append)
  qed
  assume "ek \<notin> fst ` set cs"
  then have "\<forall>c \<in> set B. ek < fst c" using dw by (auto simp: mem order_le_less)
  then show "key_sorted (take p cs @ [(ek, ev)] @ drop p cs)"
    using srt tw by (simp add: key_sorted_def p cat sorted_wrt_append)
qed


lemma at_leaf_ok:
  assumes IH: "\<And>m. n = Suc m \<Longrightarrow> subtree_ok H u m"
    and pos: "canon_pos pos" "level pos + n = DEPTH"
    and x: "on_path pos ek" "ev \<noteq> EMPTY_HASH"
    and cs: "fits pos cs" "key_sorted cs"
    and below: "\<And>m. n = Suc m \<Longrightarrow> rep H (reads u) m (left_child pos) [] \<and> rep H (reads u) m (right_child pos) []"
  shows "result_ok H u n pos (list_all live cs) (apply_commits [(ek, ev)] cs) wb (update_at_leaf H u pos cs ek ev wb)"
proof -
  let ?wb = "mark_stale u pos wb"
  let ?p = "partition_point (\<lambda>c. fst c < ek) cs"
  let ?merged = "take ?p cs @ [(ek, ev)] @ drop ?p cs"
  note part = key_partition [OF cs(2), of ek]
  have d: "distinct (map fst [(ek, ev)])" "distinct (map fst cs)" using cs(1) by (simp_all add: fits_def)
  have "result_ok H u n pos (list_all live cs) (apply_commits [(ek, ev)] cs) ?wb (update_at_leaf H u pos cs ek ev wb)"
  proof (cases "ek \<in> fst ` set cs")
    case True
    then have "apply_commits [(ek, ev)] cs = apply_commits [] cs" by (simp add: apply_commits_def)
    moreover have "update_at_leaf H u pos cs ek ev wb = resolve_leaves H u pos cs ?wb"
    proof (cases "length cs = 1 \<and> fst (cs ! 0) = ek")
      case True
      then obtain v where "cs = [(ek, v)]" by (cases cs) auto
      then show ?thesis by (simp add: update_at_leaf.simps resolve_leaves.simps Let_def)
    next
      case False
      then show ?thesis using \<open>ek \<in> fst ` set cs\<close> part(1) by (auto simp: update_at_leaf.simps Let_def)
    qed
    ultimately show ?thesis using resolve_ok [OF IH pos cs below] by simp
  next
    case False
    then have "\<not> (length cs = 1 \<and> fst (cs ! 0) = ek)" by (cases cs) auto
    then have "update_at_leaf H u pos cs ek ev wb = resolve_leaves H u pos ?merged ?wb"
      using False part(1) by (auto simp: update_at_leaf.simps Let_def commitment_new_def)
    moreover have set_m: "set ?merged = insert (ek, ev) (set cs)"
      using arg_cong [OF append_take_drop_id [of ?p cs], of set] unfolding set_append by auto
    moreover have srt: "key_sorted ?merged" by (rule part(2) [OF False])
    moreover have dm: "distinct (map fst ?merged)"
      using srt by (rule key_sorted_distinct)
    moreover have "fits pos ?merged" using cs(1) x(1) dm set_m by (auto simp: fits_def)
    moreover have "list_all live ?merged = list_all live cs"
      unfolding list_all_iff set_m using x(2) by (simp add: live_def)
    moreover have "set (apply_commits [(ek, ev)] cs) = set (apply_commits [] ?merged)"
      unfolding apply_commits_nothing set_filter set_m
      using False x(2) by (auto simp: set_apply_commits live_def)
    ultimately show ?thesis
      using resolve_ok [OF IH pos _ _ below, of ?merged ?wb]
      by (subst result_ok_set [of _ "apply_commits [] ?merged"])
        (simp_all add: distinct_apply_commits d)
  qed
  then show ?thesis by (rule result_ok_stale)
qed


lemma subtree_step:
  assumes IH: "\<And>m. n = Suc m \<Longrightarrow> subtree_ok H u m"
  shows "subtree_ok H u n"
  unfolding subtree_ok_def
proof (intro allI impI)
  fix pos xs cs wb
  assume pos: "canon_pos pos" "level pos + n = DEPTH" and xs: "fits pos xs" "list_all live xs"
    and cs: "fits pos cs" "key_sorted cs" and rep: "rep H (reads u) n pos xs"
  note kind = spec_node_kind [OF xs(1) pos(2), of H]
  have rd: "reads u pos = spec_node H n xs" by (rule rep_pos [OF rep])
  have below: "rep H (reads u) m (left_child pos) [] \<and> rep H (reads u) m (right_child pos) []"
    if "n = Suc m" "length xs < 2" for m
    using rep that by simp
  show "result_ok H u n pos (list_all live cs) (apply_commits xs cs) wb (update_subtree H u pos cs wb)"
  proof (cases "cs = []")
    case True
    have "update_subtree H u pos cs wb = Some (reads u pos, wb)"
      by (auto simp: True update_subtree.simps reads_def norm_Some split: option.splits)
    moreover have "(reads u)(pos := spec_node H n xs) = reads u" using rd by (simp add: fun_upd_idem)
    ultimately show ?thesis
      using xs(2) rd rep rep_imp_reach [OF rep]
      by (auto simp: True apply_commits_Nil result_ok_def intro!: exI [of _ "[]"])
  next
    case False
    show ?thesis
    proof (cases "map_option snd (u_node u pos)" rule: read_cases)
      case emp
      then have "xs = []" using kind(1) rd by (auto simp: reads_def)
      moreover have "update_subtree H u pos cs wb = resolve_leaves H u pos cs (mark_stale u pos wb)"
        using emp False by (auto simp: update_subtree.simps)
      ultimately show ?thesis
        using resolve_ok [OF IH pos cs, of "mark_stale u pos wb"] below
        by (intro result_ok_stale [of H u n pos _ _ wb]) simp
    next
      case none
      then have "xs = []" using kind(1) rd by (auto simp: reads_def)
      moreover have "update_subtree H u pos cs wb = resolve_leaves H u pos cs wb"
        using none False by (simp add: update_subtree.simps)
      ultimately show ?thesis using resolve_ok [OF IH pos cs, of wb] below by simp
    next
      case (internal h)
      then have len: "2 \<le> length xs" using kind(3) rd by (auto simp: reads_def dest: sym)
      then obtain m where n: "n = Suc m" using fits_full [OF xs(1)] pos(2) by (cases n) force+
      have "update_subtree H u pos cs wb = split_and_recurse H u pos cs (mark_stale u pos wb)"
        using internal False by (auto simp: update_subtree.simps)
      moreover have "rep H (reads u) m (left_child pos) (left_half pos xs)"
        "rep H (reads u) m (right_child pos) (right_half pos xs)" using rep n len by simp_all
      moreover have "2 \<le> length (apply_commits xs cs)" if "list_all live cs"
        using apply_commits_grows [OF xs cs(1) that] len by simp
      ultimately show ?thesis
        using split_ok [OF IH [OF n] pos(1) _ xs cs, of "mark_stale u pos wb"] pos(2) n
        by (intro result_ok_stale [of H u n pos _ _ wb]) simp
    next
      case (leaf k v h)
      then obtain x where x: "xs = [x]" using kind(2) rd by (auto simp: reads_def length_Suc_conv dest: sym)
      then have "x = (k, v)" using rd leaf by (cases x) (auto simp: reads_def node_leaf_def)
      moreover have "update_subtree H u pos cs wb = update_at_leaf H u pos cs k v wb"
        using leaf False by (auto simp: update_subtree.simps)
      ultimately show ?thesis
        using at_leaf_ok [OF IH pos _ _ cs, of k v wb] below xs x by (simp add: fits_def live_def)
    qed
  qed
qed

lemma update_subtree_ok: "subtree_ok H u n"
  by (induction n) (auto intro: subtree_step)


subsection \<open>Sorting and deduplication\<close>

lemma dedup_last_keys: "fst ` set (dedup_last cs) = fst ` set cs"
  by (induction cs rule: dedup_last.induct) auto

lemma dedup_last_sorted: "sorted (map fst cs) \<Longrightarrow> key_sorted (dedup_last cs)"
proof (induction cs rule: dedup_last.induct)
  case (1 b a cs)
  show ?case
  proof (cases "fst a = fst b")
    case False
    then have "\<forall>c \<in> set (a # cs). fst b < fst c"
      using "1.prems" by (auto simp: order_le_less)
    then have "\<forall>k \<in> fst ` set (dedup_last (a # cs)). fst b < k"
      unfolding dedup_last_keys by auto
    with False 1 show ?thesis by (auto simp: key_sorted_def)
  qed (use 1 in auto)
qed (auto simp: key_sorted_def)

lemma map_of_rev_Cons:
  "map_of (rev (b # xs)) k =
    (case map_of (rev xs) k of None \<Rightarrow> if k = fst b then Some (snd b) else None | Some v \<Rightarrow> Some v)"
  by (cases b) (auto simp: map_add_def split: option.splits)

lemma dedup_last_map_of:
  "sorted (map fst cs) \<Longrightarrow> map_of (dedup_last cs) k = map_of (rev cs) k"
proof (induction cs rule: dedup_last.induct)
  case (1 b a cs)
  note srt = "1.prems"
  show ?case
  proof (cases "fst a = fst b")
    case True
    then have "map_of (dedup_last (b # a # cs)) k = map_of (rev ((fst b, snd a) # cs)) k"
      using 1 by simp
    also have "\<dots> = map_of (rev (b # a # cs)) k"
      unfolding map_of_rev_Cons using True by (auto split: option.splits)
    finally show ?thesis .
  next
    case False
    then have nin: "fst b \<notin> fst ` set (a # cs)" using srt by (auto simp: order_le_less)
    then have "map_of (rev (a # cs)) (fst b) = None" by (simp add: map_of_eq_None_iff del: rev.simps)
    moreover have "map_of (dedup_last (b # a # cs)) k =
        (if k = fst b then Some (snd b) else map_of (rev (a # cs)) k)"
      using 1 False by (cases b) (simp del: rev.simps)
    ultimately show ?thesis
      unfolding map_of_rev_Cons [of b] by (auto split: option.splits simp del: rev.simps)
  qed
qed auto

lemma map_of_rev_sort_key:
  fixes cs :: "commitment list"
  shows "map_of (rev (sort_key fst cs)) k = map_of (rev cs) k"
proof -
  have "filter (\<lambda>c. fst c = k) (sort_key fst cs) = filter (\<lambda>c. fst c = k) cs"
    by (rule sort_key_stable)
  moreover have "map_of xs k = map_of (filter (\<lambda>c. fst c = k) xs) k" for xs :: "commitment list"
    by (induction xs) auto
  ultimately show ?thesis by (metis rev_filter)
qed


definition normal_commits :: "commitment list \<Rightarrow> commitment list" where
  "normal_commits cs = dedup_last (sort_key fst cs)"

lemma normal_commits_props:
  "key_sorted (normal_commits cs)"
  "fst ` set (normal_commits cs) = fst ` set cs"
  "map_of (normal_commits cs) k = map_of (rev cs) k"
  by (simp_all add: normal_commits_def dedup_last_sorted dedup_last_keys dedup_last_map_of
      map_of_rev_sort_key)

lemma fits_normal_commits: "keys32 cs \<Longrightarrow> fits ROOT (normal_commits cs)"
proof -
  assume k: "keys32 cs"
  have "length (fst c) = 32" if "c \<in> set (normal_commits cs)" for c
  proof -
    from that have "fst c \<in> fst ` set cs" using normal_commits_props(2) by blast
    with k show ?thesis by (auto simp: keys32_def)
  qed
  then show ?thesis
    using key_sorted_distinct [OF normal_commits_props(1)] by (auto simp: fits_def)
qed

lemma updater_apply_ok:
  assumes "fits ROOT xs" "list_all live xs" "keys32 cs" "rep H (reads u) DEPTH ROOT xs"
  defines "ys \<equiv> apply_commits xs (normal_commits cs)"
  shows "\<exists>ops. updater_apply H u cs wb = Some (spec_root H ys, wb @ ops)
    \<and> reach H (overlay ops (reads u)) DEPTH ROOT ys
    \<and> (list_all live (normal_commits cs) \<longrightarrow> rep H (overlay ops (reads u)) DEPTH ROOT ys)"
proof -
  let ?r = "spec_node H DEPTH ys"
  have "result_ok H u DEPTH ROOT (list_all live (normal_commits cs)) ys wb (update_subtree H u ROOT (normal_commits cs) wb)"
    using update_subtree_ok [of H u DEPTH] assms(1,2,4) fits_normal_commits [OF assms(3)]
      normal_commits_props(1) by (simp add: subtree_ok_def ys_def)
  then obtain ops where ops: "update_subtree H u ROOT (normal_commits cs) wb = Some (?r, wb @ ops)"
      "reach H ((overlay ops (reads u))(ROOT := ?r)) DEPTH ROOT ys"
      "list_all live (normal_commits cs) \<longrightarrow> rep H ((overlay ops (reads u))(ROOT := ?r)) DEPTH ROOT ys"
    by (auto simp: result_ok_def)
  define n where "n = (case ?r of None \<Rightarrow> NodeEmpty | Some n \<Rightarrow> n)"
  have "updater_apply H u cs wb = Some (spec_root H ys, wb @ ops @ [PutNode ROOT (u_version u) n])"
    using ops(1) by (cases ?r; cases n)
      (auto simp: updater_apply_def normal_commits_def spec_root_def spec_summary_def n_def)
  moreover have "norm (Some n) = ?r"
    using spec_node_not_Empty by (cases ?r) (auto simp: n_def norm_Some)
  ultimately show ?thesis
    using ops(2,3) by (intro exI [of _ "ops @ [PutNode ROOT (u_version u) n]"]) simp
qed

lemma rep_Nil: "(\<And>k. level pos \<le> level k \<Longrightarrow> f k = None) \<Longrightarrow> rep H f n pos []"
proof (induction n arbitrary: pos)
  case (Suc n)
  have "rep H f n (left_child pos) []" "rep H f n (right_child pos) []"
    using Suc.prems by (auto intro!: Suc.IH simp: left_child_def right_child_def)
  then show ?case using Suc.prems by (simp add: left_half_def right_half_def)
qed simp

lemma rep_single:
  assumes "f pos = Some (node_leaf H (fst x) (snd x))" "\<And>k. level pos < level k \<Longrightarrow> f k = None"
  shows "rep H f n pos [x]"
proof (cases n)
  case (Suc m)
  have "rep H f m (left_child pos) []" "rep H f m (right_child pos) []"
    using assms(2) by (auto intro!: rep_Nil simp: left_child_def right_child_def)
  then show ?thesis using assms(1) Suc by simp
qed (use assms(1) in simp)

subsection \<open>Properties\<close>



end
