(* ===== verification/SMT_Proof.thy ===== *)
theory SMT_Proof
  imports SMT_Base
begin

text \<open>
  The multi-proofs of \<open>core/smt/src/proving\<close> as the verifier sees them: the wire view
  (\<open>proof.rs\<close>, \<open>leaf.rs\<close>, \<open>membership.rs\<close>), resolution of members
  (\<open>member.rs\<close>), the inversion of memberships by leaf (\<open>members_by_leaf.rs\<close>),
  and the recursive walk that recomputes the state root before and after an update
  (\<open>traversal.rs\<close>).

  Errors of the source are \<open>Err\<close> and panics are \<open>Panic\<close>.  Indexing
  \<open>keys[leaf.key_idx]\<close> with a dangling index panics; \<open>split_point\<close> is modelled to
  panic when any leaf of its range dangles, while the binary search may miss it.
\<close>

subsection \<open>Wire view\<close>

record proof_leaf =
  pl_depth :: nat
  pl_key_idx :: nat
  pl_value_hash :: hash

datatype membership =
    Present nat
  | Absent nat

record smt_proof =
  pf_keys :: "bytes list"
  pf_leaves :: "proof_leaf list"
  pf_siblings :: "hashed_node list"
  pf_topology :: bytes
  pf_memberships :: "membership list"

record member =
  m_key :: bytes
  m_leaf :: proof_leaf
  m_absent :: bool

definition member_value_hash :: "member \<Rightarrow> hash" where
  "member_value_hash m = (if m_absent m then EMPTY_HASH else pl_value_hash (m_leaf m))"

text \<open>The zero-copy layouts: little-endian integers, \<open>repr(C)\<close> structs and a tagged enum.\<close>

definition leaf_bytes :: "proof_leaf \<Rightarrow> bytes" where
  "leaf_bytes l = le_bytes 2 (pl_depth l) @ le_bytes 4 (pl_key_idx l) @ pl_value_hash l"

definition leaf_cast :: "bytes \<Rightarrow> codec_error + proof_leaf" where
  "leaf_cast bs = Inr \<lparr>pl_depth = le_nat (take 2 bs), pl_key_idx = le_nat (take 4 (drop 2 bs)),
     pl_value_hash = drop 6 bs\<rparr>"

definition hn_bytes :: "hashed_node \<Rightarrow> bytes" where
  "hn_bytes h = kind h # hn_hash h"

definition hn_cast :: "bytes \<Rightarrow> codec_error + hashed_node" where
  "hn_cast bs = Inr (hn_new (hd bs) (tl bs))"

fun membership_bytes :: "membership \<Rightarrow> bytes" where
  "membership_bytes (Present i) = 0 # le_bytes 4 i"
| "membership_bytes (Absent i) = 1 # le_bytes 4 i"

definition membership_cast :: "bytes \<Rightarrow> codec_error + membership" where
  "membership_cast bs =
    (if hd bs = 0 then Inr (Present (le_nat (tl bs)))
     else if hd bs = 1 then Inr (Absent (le_nat (tl bs)))
     else Inl (ZeroCopy ''invalid membership''))"

definition proof_decode :: "nat \<Rightarrow> bytes \<Rightarrow> codec_error + smt_proof" where
  "proof_decode usize_bits buf =
    rbind (rd_slice_as usize_bits 32 Inr ''keys'' buf) (\<lambda>(ks, buf).
    rbind (rd_slice_as usize_bits 38 leaf_cast ''leaves'' buf) (\<lambda>(ls, buf).
    rbind (rd_slice_as usize_bits 33 hn_cast ''siblings'' buf) (\<lambda>(ss, buf).
    rbind (rd_slice_as usize_bits 1 (\<lambda>bs. Inr (hd bs)) ''topology'' buf) (\<lambda>(ts, buf).
    rbind (rd_slice_as usize_bits 5 membership_cast ''memberships'' buf) (\<lambda>(ms, buf).
    Inr \<lparr>pf_keys = ks, pf_leaves = ls, pf_siblings = ss, pf_topology = ts, pf_memberships = ms\<rparr>)))))"

definition proof_encode :: "smt_proof \<Rightarrow> bytes" where
  "proof_encode p =
    write_slice id (pf_keys p) @ write_slice leaf_bytes (pf_leaves p) @
    write_slice hn_bytes (pf_siblings p) @ write_slice (\<lambda>b. [b]) (pf_topology p) @
    write_slice membership_bytes (pf_memberships p)"

definition wire_size :: "smt_proof \<Rightarrow> nat" where
  "wire_size p = 20 + length (pf_keys p) * 32 + length (pf_leaves p) * 38
     + length (pf_siblings p) * 33 + length (pf_topology p) * 1 + length (pf_memberships p) * 5"

subsection \<open>Members\<close>

definition pf_key :: "smt_proof \<Rightarrow> nat \<Rightarrow> codec_error + bytes" where
  "pf_key p idx =
    (if idx < length (pf_keys p) then Inr (pf_keys p ! idx) else Inl (Decode ''key out of range''))"

definition pf_leaf :: "smt_proof \<Rightarrow> nat \<Rightarrow> codec_error + proof_leaf" where
  "pf_leaf p idx =
    (if idx < length (pf_leaves p) then Inr (pf_leaves p ! idx) else Inl (Decode ''leaf out of range''))"

definition leaf_key :: "smt_proof \<Rightarrow> proof_leaf \<Rightarrow> codec_error + bytes" where
  "leaf_key p l = pf_key p (pl_key_idx l)"

definition check_sorted_queried_keys :: "smt_proof \<Rightarrow> codec_error + unit" where
  "check_sorted_queried_keys p =
    (let n = length (pf_memberships p) in
     if length (pf_keys p) < n then Inl (Decode ''membership without key'')
     else if adjacent (<) (take n (pf_keys p)) then Inr ()
     else Inl (Decode ''queried keys not strictly ascending''))"

definition member_present :: "smt_proof \<Rightarrow> nat \<Rightarrow> nat \<Rightarrow> codec_error + member" where
  "member_present p idx leaf_idx =
    rbind (pf_key p idx) (\<lambda>key.
    rbind (pf_leaf p leaf_idx) (\<lambda>leaf.
    rbind (leaf_key p leaf) (\<lambda>lk.
      if lk \<noteq> key then Inl (Decode ''leaf is absent'')
      else Inr \<lparr>m_key = key, m_leaf = leaf, m_absent = False\<rparr>)))"

definition member_absent :: "smt_proof \<Rightarrow> nat \<Rightarrow> nat \<Rightarrow> codec_error + member" where
  "member_absent p idx leaf_idx =
    rbind (pf_key p idx) (\<lambda>key.
    rbind (pf_leaf p leaf_idx) (\<lambda>leaf.
    rbind (leaf_key p leaf) (\<lambda>lk.
      if lk = key then Inl (Decode ''leaf is present'')
      else if \<not> shares_prefix key lk (pl_depth leaf)
      then Inl (Decode ''absent leaf does not witness key'')
      else Inr \<lparr>m_key = key, m_leaf = leaf, m_absent = True\<rparr>)))"

definition pf_member :: "smt_proof \<Rightarrow> nat \<Rightarrow> codec_error + member" where
  "pf_member p idx =
    (if idx < length (pf_memberships p) then
       (case pf_memberships p ! idx of
          Present leaf_idx \<Rightarrow> member_present p idx leaf_idx
        | Absent leaf_idx \<Rightarrow> member_absent p idx leaf_idx)
     else Inl (Decode ''membership out of range''))"

definition pf_members :: "smt_proof \<Rightarrow> (codec_error + member) list" where
  "pf_members p = map (pf_member p) [0..<length (pf_memberships p)]"

subsection \<open>Memberships grouped by leaf\<close>

record members_by_leaf_t =
  mbl_offsets :: "nat list"
  mbl_indices :: "nat list"

definition mbl_at :: "members_by_leaf_t \<Rightarrow> nat \<Rightarrow> nat list" where
  "mbl_at m leaf_pos =
    (let start = mbl_offsets m ! leaf_pos; stop = mbl_offsets m ! (leaf_pos + 1)
     in take (stop - start) (drop start (mbl_indices m)))"

fun leaf_pos_of :: "membership \<Rightarrow> nat" where
  "leaf_pos_of (Present p) = p"
| "leaf_pos_of (Absent p) = p"

fun mbl_count :: "nat \<Rightarrow> membership list \<Rightarrow> nat list \<Rightarrow> nat list" where
  "mbl_count leaves_len [] offsets = offsets"
| "mbl_count leaves_len (m # ms) offsets =
    mbl_count leaves_len ms
      (if leaf_pos_of m < leaves_len
       then offsets[leaf_pos_of m + 1 := offsets ! (leaf_pos_of m + 1) + 1] else offsets)"

definition mbl_prefix_sum :: "nat \<Rightarrow> nat list \<Rightarrow> nat list" where
  "mbl_prefix_sum leaves_len offsets =
    fold (\<lambda>i offs. offs[i := offs ! i + offs ! (i - 1)]) [1..<leaves_len + 1] offsets"

fun mbl_fill ::
  "nat \<Rightarrow> (nat \<times> membership) list \<Rightarrow> nat list \<times> nat list \<Rightarrow> nat list \<times> nat list" where
  "mbl_fill leaves_len [] st = st"
| "mbl_fill leaves_len ((i, m) # ms) (offsets, indices) =
    mbl_fill leaves_len ms
      (if leaf_pos_of m < leaves_len
       then (offsets[leaf_pos_of m := offsets ! leaf_pos_of m + 1],
             indices[offsets ! leaf_pos_of m := i])
       else (offsets, indices))"

definition mbl_shift :: "nat \<Rightarrow> nat list \<Rightarrow> nat list" where
  "mbl_shift leaves_len offsets =
    (fold (\<lambda>i offs. offs[i := offs ! (i - 1)]) (rev [1..<leaves_len + 1]) offsets)[0 := 0]"

definition members_by_leaf :: "smt_proof \<Rightarrow> members_by_leaf_t" where
  "members_by_leaf p =
    (let leaves_len = length (pf_leaves p);
         offsets = mbl_prefix_sum leaves_len
           (mbl_count leaves_len (pf_memberships p) (replicate (leaves_len + 1) 0));
         (offsets, indices) = mbl_fill leaves_len
           (zip [0..<length (pf_memberships p)] (pf_memberships p))
           (offsets, replicate (offsets ! leaves_len) 0)
     in \<lparr>mbl_offsets = mbl_shift leaves_len offsets, mbl_indices = indices\<rparr>)"


subsection \<open>Post-state at a leaf\<close>

datatype leaf_update =
    Unchanged
  | Single hash
  | Multiple

record classify_state =
  cs_buffer :: "(bytes \<times> hash) list"
  cs_witness :: "hash option"
  cs_synthesis :: bool
  cs_change :: bool

definition classify_step ::
  "smt_proof \<Rightarrow> proof_leaf \<Rightarrow> (nat \<Rightarrow> hash) \<Rightarrow> nat \<Rightarrow> classify_state \<Rightarrow> codec_error + classify_state" where
  "classify_step p leaf new_value i st =
    (let v = new_value i;
         st = (case pf_memberships p ! i of
                 Present _ \<Rightarrow> st\<lparr>cs_witness := Some v,
                   cs_change := cs_change st \<or> v \<noteq> pl_value_hash leaf\<rparr>
               | Absent _ \<Rightarrow> if v \<noteq> EMPTY_HASH then st\<lparr>cs_synthesis := True, cs_change := True\<rparr> else st)
     in if v \<noteq> EMPTY_HASH
        then rbind (pf_key p i) (\<lambda>k. Inr (st\<lparr>cs_buffer := cs_buffer st @ [(k, v)]\<rparr>))
        else Inr st)"

definition classify_leaf_update ::
  "smt_proof \<Rightarrow> proof_leaf \<Rightarrow> bytes \<Rightarrow> nat list \<Rightarrow> (nat \<Rightarrow> hash)
    \<Rightarrow> codec_error + (leaf_update \<times> (bytes \<times> hash) list)" where
  "classify_leaf_update p leaf lk member_indices new_value =
    rbind (fold_r (classify_step p leaf new_value) member_indices
        \<lparr>cs_buffer = [], cs_witness = None, cs_synthesis = False, cs_change = False\<rparr>) (\<lambda>st.
      if \<not> cs_change st then Inr (Unchanged, cs_buffer st)
      else if cs_synthesis st then
        (let buffer = (if cs_witness st = None \<and> pl_value_hash leaf \<noteq> EMPTY_HASH
                       then cs_buffer st @ [(lk, pl_value_hash leaf)] else cs_buffer st)
         in Inr (Multiple, sort_key fst buffer))
      else Inr (Single (case cs_witness st of Some v \<Rightarrow> v | None \<Rightarrow> pl_value_hash leaf), cs_buffer st))"

text \<open>The depth is a \<open>u16\<close>; its increment is checked for overflow.\<close>

function subtree_hash :: "hasher \<Rightarrow> (bytes \<times> hash) list \<Rightarrow> nat \<Rightarrow> fault + hashed_node" where
  "subtree_hash H entries depth =
    (if entries = [] then Inr hn_empty
     else if length entries = 1 then Inr (hn_leaf H (fst (entries ! 0)) (snd (entries ! 0)))
     else if 2 ^ 16 \<le> depth + 1 then Inl (Panic ''attempt to add with overflow'')
     else
       (let mid = partition_point (\<lambda>e. \<not> get_msb (fst e) depth) entries in
        rbind (subtree_hash H (take mid entries) (depth + 1)) (\<lambda>left.
        rbind (subtree_hash H (drop mid entries) (depth + 1)) (\<lambda>right.
        Inr (combine H left right)))))"
  by pat_completeness auto
termination
  by (relation "measure (\<lambda>(_, _, depth). 2 ^ 16 - depth)") auto

declare subtree_hash.simps [simp del]

definition leaf_pair ::
  "hasher \<Rightarrow> smt_proof \<Rightarrow> nat \<Rightarrow> nat list \<Rightarrow> (nat \<Rightarrow> hash) \<Rightarrow> fault + (hashed_node \<times> hashed_node)" where
  "leaf_pair H p leaf_pos member_indices new_value =
    rbind (lift_err (pf_leaf p leaf_pos)) (\<lambda>leaf.
    rbind (lift_err (leaf_key p leaf)) (\<lambda>lk.
    let prev = hn_leaf H lk (pl_value_hash leaf) in
    rbind (lift_err (classify_leaf_update p leaf lk member_indices new_value)) (\<lambda>(upd, buffer).
    rbind (case upd of
             Unchanged \<Rightarrow> Inr prev
           | Single value \<Rightarrow> Inr (hn_leaf H lk value)
           | Multiple \<Rightarrow> subtree_hash H buffer (pl_depth leaf)) (\<lambda>post.
    Inr (prev, post)))))"

definition leaf_hash :: "hasher \<Rightarrow> smt_proof \<Rightarrow> nat \<Rightarrow> fault + hashed_node" where
  "leaf_hash H p i =
    rbind (lift_err (pf_leaf p i)) (\<lambda>leaf.
    rbind (lift_err (leaf_key p leaf)) (\<lambda>lk. Inr (hn_leaf H lk (pl_value_hash leaf))))"

subsection \<open>Traversal\<close>

text \<open>The cursor: next sibling and next topology bit.\<close>

type_synonym cursor = "nat \<times> nat"

definition at_shortcut_depth :: "smt_proof \<Rightarrow> nat \<Rightarrow> nat \<Rightarrow> nat \<Rightarrow> codec_error + bool" where
  "at_shortcut_depth p start stop lvl =
    (if stop - start \<noteq> 1 then Inr False
     else let depth = pl_depth (pf_leaves p ! start) in
       if depth < lvl then Inl (Decode ''malformed proof'') else Inr (lvl = depth))"

definition terminal_value ::
  "smt_proof \<Rightarrow> (nat \<Rightarrow> fault + 't) \<Rightarrow> nat \<Rightarrow> nat \<Rightarrow> nat \<Rightarrow> 't \<Rightarrow> fault + 't option" where
  "terminal_value p leaf_hash_fn start stop lvl emp =
    (if start = stop then Inr (Some emp)
     else rbind (lift_err (at_shortcut_depth p start stop lvl)) (\<lambda>at.
       if at then rbind (leaf_hash_fn start) (\<lambda>v. Inr (Some v))
       else if DEPTH \<le> lvl then Inl (Err (Decode ''malformed proof''))
       else Inr None))"

definition next_topology_bit :: "smt_proof \<Rightarrow> cursor \<Rightarrow> bool \<times> cursor" where
  "next_topology_bit p c = (get_lsb (pf_topology p) (snd c), (fst c, snd c + 1))"

definition leaf_key_at :: "smt_proof \<Rightarrow> nat \<Rightarrow> bytes" where
  "leaf_key_at p i = pf_keys p ! pl_key_idx (pf_leaves p ! i)"

definition dangling :: "smt_proof \<Rightarrow> nat \<Rightarrow> bool" where
  "dangling p i \<longleftrightarrow> length (pf_keys p) \<le> pl_key_idx (pf_leaves p ! i)"

definition split_point :: "smt_proof \<Rightarrow> nat \<Rightarrow> nat \<Rightarrow> nat \<Rightarrow> fault + nat" where
  "split_point p start stop lvl =
    (if list_ex (dangling p) [start..<stop] then Inl (Panic ''index out of bounds'')
     else Inr (start + partition_point (\<lambda>i. \<not> get_msb (leaf_key_at p i) lvl) [start..<stop]))"

definition leaf_goes_left :: "smt_proof \<Rightarrow> nat \<Rightarrow> nat \<Rightarrow> fault + bool" where
  "leaf_goes_left p start lvl =
    (if dangling p start then Inl (Panic ''index out of bounds'')
     else Inr (\<not> get_msb (leaf_key_at p start) lvl))"

definition next_sibling :: "smt_proof \<Rightarrow> cursor \<Rightarrow> fault + (hashed_node \<times> cursor)" where
  "next_sibling p c =
    (if fst c < length (pf_siblings p) then Inr (pf_siblings p ! fst c, (fst c + 1, snd c))
     else Inl (Err (Decode ''malformed proof'')))"

definition combine_with_sibling :: "hasher \<Rightarrow> hashed_node \<Rightarrow> hashed_node \<Rightarrow> bool \<Rightarrow> hashed_node" where
  "combine_with_sibling H child sibling child_goes_left =
    (if child_goes_left then combine H child sibling else combine H sibling child)"

function walk ::
  "hasher \<Rightarrow> smt_proof \<Rightarrow> (nat \<Rightarrow> fault + hashed_node) \<Rightarrow> nat \<Rightarrow> nat \<Rightarrow> nat \<Rightarrow> cursor
    \<Rightarrow> fault + (hashed_node \<times> cursor)" where
  "walk H p f start stop lvl c =
    (case terminal_value p f start stop lvl hn_empty of
       Inl e \<Rightarrow> Inl e
     | Inr (Some value) \<Rightarrow> Inr (value, c)
     | Inr None \<Rightarrow>
        (let (bit, c) = next_topology_bit p c in
         if bit then
           rbind (split_point p start stop lvl) (\<lambda>mid.
           rbind (walk H p f start mid (lvl + 1) c) (\<lambda>(left, c).
           rbind (walk H p f mid stop (lvl + 1) c) (\<lambda>(right, c).
           Inr (combine H left right, c))))
         else
           rbind (leaf_goes_left p start lvl) (\<lambda>goes_left.
           rbind (next_sibling p c) (\<lambda>(sibling, c).
           rbind (walk H p f start stop (lvl + 1) c) (\<lambda>(child, c).
           Inr (combine_with_sibling H child sibling goes_left, c))))))"
  by pat_completeness auto
termination
  by (relation "measure (\<lambda>(_, _, _, _, _, lvl, _). DEPTH - lvl)")
    (auto simp: terminal_value_def split: if_splits)

declare walk.simps [simp del]

function walk_pair ::
  "hasher \<Rightarrow> smt_proof \<Rightarrow> (nat \<Rightarrow> fault + (hashed_node \<times> hashed_node)) \<Rightarrow> nat \<Rightarrow> nat \<Rightarrow> nat \<Rightarrow> cursor
    \<Rightarrow> fault + ((hashed_node \<times> hashed_node) \<times> cursor)" where
  "walk_pair H p f start stop lvl c =
    (case terminal_value p f start stop lvl (hn_empty, hn_empty) of
       Inl e \<Rightarrow> Inl e
     | Inr (Some value) \<Rightarrow> Inr (value, c)
     | Inr None \<Rightarrow>
        (let (bit, c) = next_topology_bit p c in
         if bit then
           rbind (split_point p start stop lvl) (\<lambda>mid.
           rbind (walk_pair H p f start mid (lvl + 1) c) (\<lambda>((prev_left, post_left), c).
           rbind (walk_pair H p f mid stop (lvl + 1) c) (\<lambda>((prev_right, post_right), c).
           let prev = combine H prev_left prev_right in
           Inr ((prev, if prev_left = post_left \<and> prev_right = post_right then prev
                       else combine H post_left post_right), c))))
         else
           rbind (leaf_goes_left p start lvl) (\<lambda>goes_left.
           rbind (next_sibling p c) (\<lambda>(sibling, c).
           rbind (walk_pair H p f start stop (lvl + 1) c) (\<lambda>((prev_child, post_child), c).
           let prev = combine_with_sibling H prev_child sibling goes_left in
           Inr ((prev, if prev_child = post_child then prev
                       else combine_with_sibling H post_child sibling goes_left), c))))))"
  by pat_completeness auto
termination
  by (relation "measure (\<lambda>(_, _, _, _, _, lvl, _). DEPTH - lvl)")
    (auto simp: terminal_value_def split: if_splits)

declare walk_pair.simps [simp del]

subsection \<open>Roots\<close>

definition pf_root :: "hasher \<Rightarrow> smt_proof \<Rightarrow> fault + hash" where
  "pf_root H p =
    rbind (walk H p (leaf_hash H p) 0 (length (pf_leaves p)) 0 (0, 0)) (\<lambda>(r, _). Inr (hn_hash r))"

definition compute_roots :: "hasher \<Rightarrow> smt_proof \<Rightarrow> (nat \<Rightarrow> hash) \<Rightarrow> fault + (hash \<times> hash)" where
  "compute_roots H p new_value =
    (let mbl = members_by_leaf p in
     rbind (walk_pair H p (\<lambda>leaf_pos. leaf_pair H p leaf_pos (mbl_at mbl leaf_pos) new_value)
        0 (length (pf_leaves p)) 0 (0, 0)) (\<lambda>((prev, post), _). Inr (hn_hash prev, hn_hash post)))"

definition new_root :: "hasher \<Rightarrow> smt_proof \<Rightarrow> (nat \<Rightarrow> hash) \<Rightarrow> fault + hash" where
  "new_root H p value = rbind (compute_roots H p value) (\<lambda>(_, post). Inr post)"


subsection \<open>The wire format\<close>

definition proof_valid :: "nat \<Rightarrow> smt_proof \<Rightarrow> bool" where
  "proof_valid usize_bits p \<longleftrightarrow>
    length (pf_keys p) < 2 ^ 32 \<and> length (pf_leaves p) < 2 ^ 32 \<and> length (pf_siblings p) < 2 ^ 32
    \<and> length (pf_topology p) < 2 ^ 32 \<and> length (pf_memberships p) < 2 ^ 32
    \<and> wire_size p < 2 ^ usize_bits
    \<and> (\<forall>k \<in> set (pf_keys p). length k = 32)
    \<and> (\<forall>l \<in> set (pf_leaves p). pl_depth l < 2 ^ 16 \<and> pl_key_idx l < 2 ^ 32 \<and> length (pl_value_hash l) = 32)
    \<and> (\<forall>h \<in> set (pf_siblings p). length (hn_hash h) = 32)
    \<and> (\<forall>m \<in> set (pf_memberships p). leaf_pos_of m < 2 ^ 32)"

lemma leaf_cast_bytes:
  "pl_depth l < 2 ^ 16 \<Longrightarrow> pl_key_idx l < 2 ^ 32 \<Longrightarrow> leaf_cast (leaf_bytes l) = Inr l"
  by (cases l) (simp add: leaf_cast_def leaf_bytes_def le_nat_le_bytes)

lemma membership_cast_bytes:
  "leaf_pos_of m < 2 ^ 32 \<Longrightarrow> membership_cast (membership_bytes m) = Inr m"
  by (cases m) (simp_all add: membership_cast_def le_nat_le_bytes)

lemma hn_cast_bytes: "hn_cast (hn_bytes h) = Inr h"
  by (cases h) (simp add: hn_cast_def hn_bytes_def hn_new_def)

lemma length_leaf_bytes: "length (pl_value_hash l) = 32 \<Longrightarrow> length (leaf_bytes l) = 38"
  by (simp add: leaf_bytes_def)

lemma length_hn_bytes: "length (hn_bytes h) = Suc (length (hn_hash h))"
  by (simp add: hn_bytes_def)

lemma length_membership_bytes [simp]: "length (membership_bytes m) = 5"
  by (cases m) simp_all

lemma proof_round_trip:
  assumes "proof_valid usize_bits p"
  shows "proof_decode usize_bits (proof_encode p @ rest) = Inr p"
proof -
  note v = assms [unfolded proof_valid_def wire_size_def]
  have "rd_slice_as usize_bits 32 Inr ''keys'' (write_slice id (pf_keys p) @ r) = Inr (pf_keys p, r)" for r
    by (rule rd_slice_as_write_slice) (use v in auto)
  moreover have "rd_slice_as usize_bits 38 leaf_cast ''leaves'' (write_slice leaf_bytes (pf_leaves p) @ r)
      = Inr (pf_leaves p, r)" for r
    by (rule rd_slice_as_write_slice) (use v in \<open>auto simp: leaf_cast_bytes length_leaf_bytes\<close>)
  moreover have "rd_slice_as usize_bits 33 hn_cast ''siblings'' (write_slice hn_bytes (pf_siblings p) @ r)
      = Inr (pf_siblings p, r)" for r
    by (rule rd_slice_as_write_slice) (use v in \<open>auto simp: hn_cast_bytes length_hn_bytes\<close>)
  moreover have "rd_slice_as usize_bits 1 (\<lambda>bs. Inr (hd bs)) ''topology'' (write_slice (\<lambda>b. [b]) (pf_topology p) @ r)
      = Inr (pf_topology p, r)" for r
    by (rule rd_slice_as_write_slice) (use v in auto)
  moreover have "rd_slice_as usize_bits 5 membership_cast ''memberships''
      (write_slice membership_bytes (pf_memberships p) @ r) = Inr (pf_memberships p, r)" for r
    by (rule rd_slice_as_write_slice) (use v in \<open>auto simp: membership_cast_bytes\<close>)
  ultimately show ?thesis by (simp add: proof_decode_def proof_encode_def)
qed

lemma length_write_slice:
  "(\<And>x. x \<in> set xs \<Longrightarrow> length (f x) = sz) \<Longrightarrow> length (write_slice f xs) = 4 + length xs * sz"
  using length_concat_const [of "map f xs" sz] by (auto simp: write_slice_def)

lemma wire_size_encode: "proof_valid usize_bits p \<Longrightarrow> length (proof_encode p) = wire_size p"
  by (auto simp: proof_valid_def proof_encode_def wire_size_def leaf_bytes_def hn_bytes_def
      length_write_slice [where sz = 32] length_write_slice [where sz = 38]
      length_write_slice [where sz = 33] length_write_slice [where sz = "Suc 0"]
      length_write_slice [where sz = 5])

subsection \<open>Proof trees\<close>

text \<open>
  The control flow of both walks depends only on the proof, so a walk is the evaluation of one
  proof tree: the shape that the topology bits, the leaf depths and the siblings describe.
\<close>

datatype ptree =
    PEmpty
  | PLeaf nat
  | PSplit ptree ptree
  | PSide bool hashed_node ptree

definition stop_kind :: "smt_proof \<Rightarrow> nat \<Rightarrow> nat \<Rightarrow> nat \<Rightarrow> fault + bool" where
  "stop_kind p start stop lvl =
    rbind (lift_err (at_shortcut_depth p start stop lvl)) (\<lambda>at.
      if at then Inr True
      else if DEPTH \<le> lvl then Inl (Err (Decode ''malformed proof'')) else Inr False)"

lemma stop_kind_False: "stop_kind p start stop lvl = Inr False \<Longrightarrow> lvl < DEPTH"
  by (auto simp: stop_kind_def split: if_splits)

inductive proof_tree :: "smt_proof \<Rightarrow> nat \<Rightarrow> nat \<Rightarrow> nat \<Rightarrow> cursor \<Rightarrow> ptree \<Rightarrow> cursor \<Rightarrow> bool" for p where
  pt_empty: "proof_tree p start start lvl c PEmpty c"
| pt_leaf: "start \<noteq> stop \<Longrightarrow> stop_kind p start stop lvl = Inr True \<Longrightarrow>
    proof_tree p start stop lvl c (PLeaf start) c"
| pt_split: "start \<noteq> stop \<Longrightarrow> stop_kind p start stop lvl = Inr False \<Longrightarrow>
    next_topology_bit p c = (True, c1) \<Longrightarrow> split_point p start stop lvl = Inr mid \<Longrightarrow>
    proof_tree p start mid (lvl + 1) c1 l c2 \<Longrightarrow> proof_tree p mid stop (lvl + 1) c2 r c3 \<Longrightarrow>
    proof_tree p start stop lvl c (PSplit l r) c3"
| pt_side: "start \<noteq> stop \<Longrightarrow> stop_kind p start stop lvl = Inr False \<Longrightarrow>
    next_topology_bit p c = (False, c1) \<Longrightarrow> leaf_goes_left p start lvl = Inr goes_left \<Longrightarrow>
    next_sibling p c1 = Inr (sib, c2) \<Longrightarrow> proof_tree p start stop (lvl + 1) c2 t c3 \<Longrightarrow>
    proof_tree p start stop lvl c (PSide goes_left sib t) c3"

primrec eval_tree :: "hasher \<Rightarrow> (nat \<Rightarrow> fault + hashed_node) \<Rightarrow> ptree \<Rightarrow> fault + hashed_node" where
  "eval_tree H f PEmpty = Inr hn_empty"
| "eval_tree H f (PLeaf i) = f i"
| "eval_tree H f (PSplit l r) =
    rbind (eval_tree H f l) (\<lambda>a. rbind (eval_tree H f r) (\<lambda>b. Inr (combine H a b)))"
| "eval_tree H f (PSide goes_left sib t) =
    rbind (eval_tree H f t) (\<lambda>a. Inr (combine_with_sibling H a sib goes_left))"

definition prev_fn :: "(nat \<Rightarrow> fault + (hashed_node \<times> hashed_node)) \<Rightarrow> nat \<Rightarrow> fault + hashed_node" where
  "prev_fn f i = rbind (f i) (\<lambda>(prev, _). Inr prev)"

definition post_fn :: "(nat \<Rightarrow> fault + (hashed_node \<times> hashed_node)) \<Rightarrow> nat \<Rightarrow> fault + hashed_node" where
  "post_fn f i = rbind (f i) (\<lambda>(_, post). Inr post)"

lemma terminal_value_alt:
  "terminal_value p f start stop lvl emp =
    (if start = stop then Inr (Some emp)
     else case stop_kind p start stop lvl of
       Inl e \<Rightarrow> Inl e
     | Inr True \<Rightarrow> rbind (f start) (\<lambda>v. Inr (Some v))
     | Inr False \<Rightarrow> Inr None)"
  by (cases "at_shortcut_depth p start stop lvl") (simp_all add: terminal_value_def stop_kind_def)

lemma walk_eval:
  "proof_tree p start stop lvl c t c' \<Longrightarrow> eval_tree H f t = Inr h \<Longrightarrow>
    walk H p f start stop lvl c = Inr (h, c')"
proof (induction arbitrary: h rule: proof_tree.induct)
  case (pt_split start stop lvl c c1 mid l c2 r c3)
  then obtain x y where e: "eval_tree H f l = Inr x" "eval_tree H f r = Inr y" "h = combine H x y"
    by auto
  show ?case
    using pt_split.hyps pt_split.IH(1) [OF e(1)] pt_split.IH(2) [OF e(2)] e(3)
    by (simp add: walk.simps [of H p f start stop lvl c] terminal_value_alt del: rbind_eq_Inr)
next
  case (pt_side start stop lvl c c1 goes_left sib c2 t c3)
  then obtain x where e: "eval_tree H f t = Inr x" "h = combine_with_sibling H x sib goes_left" by auto
  show ?case
    using pt_side.hyps pt_side.IH [OF e(1)] e(2)
    by (simp add: walk.simps [of H p f start stop lvl c] terminal_value_alt del: rbind_eq_Inr)
qed (simp_all add: walk.simps [of H p f] terminal_value_alt del: rbind_eq_Inr)

lemma walk_pair_eval:
  "proof_tree p start stop lvl c t c' \<Longrightarrow> eval_tree H (prev_fn f) t = Inr a \<Longrightarrow>
    eval_tree H (post_fn f) t = Inr b \<Longrightarrow> walk_pair H p f start stop lvl c = Inr ((a, b), c')"
proof (induction arbitrary: a b rule: proof_tree.induct)
  case (pt_leaf start stop lvl c)
  then have "f start = Inr (a, b)" by (cases "f start") (auto simp: prev_fn_def post_fn_def)
  then show ?case
    using pt_leaf.hyps by (simp add: walk_pair.simps [of H p f] terminal_value_alt del: rbind_eq_Inr)
next
  case (pt_split start stop lvl c c1 mid l c2 r c3)
  then obtain x y x' y' where e: "eval_tree H (prev_fn f) l = Inr x" "eval_tree H (post_fn f) l = Inr x'"
      "eval_tree H (prev_fn f) r = Inr y" "eval_tree H (post_fn f) r = Inr y'"
      "a = combine H x y" "b = combine H x' y'"
    by auto
  show ?case
    using pt_split.hyps pt_split.IH(1) [OF e(1,2)] pt_split.IH(2) [OF e(3,4)] e(5,6)
    by (simp add: walk_pair.simps [of H p f start stop lvl c] terminal_value_alt Let_def del: rbind_eq_Inr)
next
  case (pt_side start stop lvl c c1 goes_left sib c2 t c3)
  then obtain x x' where e: "eval_tree H (prev_fn f) t = Inr x" "eval_tree H (post_fn f) t = Inr x'"
      "a = combine_with_sibling H x sib goes_left" "b = combine_with_sibling H x' sib goes_left" by auto
  show ?case
    using pt_side.hyps pt_side.IH [OF e(1,2)] e(3,4)
    by (simp add: walk_pair.simps [of H p f start stop lvl c] terminal_value_alt Let_def del: rbind_eq_Inr)
qed (simp_all add: walk_pair.simps [of H p f] terminal_value_alt del: rbind_eq_Inr)

text \<open>Every walk that returns is the evaluation of a proof tree.\<close>

lemma walk_tree:
  "walk H p f start stop lvl c = Inr (h, c') \<Longrightarrow>
    \<exists>t. proof_tree p start stop lvl c t c' \<and> eval_tree H f t = Inr h"
proof (induction H p f start stop lvl c arbitrary: h c' rule: walk.induct)
  case (1 H p f start stop lvl c)
  note w = "1.prems" [unfolded walk.simps [of H p f start stop lvl c]]
  show ?case
  proof (cases "start = stop")
    case True
    then show ?thesis using w by (auto simp: terminal_value_alt intro: pt_empty exI [of _ PEmpty])
  next
    case ne: False
    obtain b where b: "stop_kind p start stop lvl = Inr b"
      using w ne by (auto simp: terminal_value_alt split: sum.splits)
    show ?thesis
    proof (cases b)
      case True
      then show ?thesis using w ne b
        by (auto simp: terminal_value_alt split: sum.splits intro!: exI [of _ "PLeaf start"] pt_leaf)
    next
      case False
      then have tv: "terminal_value p f start stop lvl hn_empty = Inr None"
        using ne b by (simp add: terminal_value_alt)
      obtain bit c1 where nb: "next_topology_bit p c = (bit, c1)" by (cases "next_topology_bit p c")
      note IH = "1.IH" [OF tv refl refl nb [symmetric]]
      show ?thesis
      proof (cases bit)
        case True
        then obtain mid l c2 r where *: "split_point p start stop lvl = Inr mid"
            "walk H p f start mid (lvl + 1) c1 = Inr (l, c2)"
            "walk H p f mid stop (lvl + 1) c2 = Inr (r, c')" "h = combine H l r"
          using w tv nb by auto
        show ?thesis using IH(1) [OF True *(1,2)] IH(2) [OF True *(1,2) refl *(3)] *(1,4) ne b False nb True
          by (force intro: pt_split)
      next
        case f: False
        then obtain g sib c2 ch where *: "leaf_goes_left p start lvl = Inr g"
            "next_sibling p c1 = Inr (sib, c2)" "walk H p f start stop (lvl + 1) c2 = Inr (ch, c')"
            "h = combine_with_sibling H ch sib g"
          using w tv nb by auto
        show ?thesis using IH(3) [OF f *(1,2) refl *(3)] *(1,2,4) ne b False nb f
          by (force intro: pt_side)
      qed
    qed
  qed
qed


subsection \<open>Grouping by leaf\<close>

definition group :: "membership list \<Rightarrow> nat \<Rightarrow> nat \<Rightarrow> nat list" where
  "group ms j i = filter (\<lambda>k. leaf_pos_of (ms ! k) = i) [0..<j]"

definition csr_off :: "membership list \<Rightarrow> nat \<Rightarrow> nat" where
  "csr_off ms i = (\<Sum>k<i. length (group ms (length ms) k))"

lemma group_Suc:
  "group ms (Suc j) i = group ms j i @ (if leaf_pos_of (ms ! j) = i then [j] else [])"
  by (simp add: group_def)

lemma group_mono: "j \<le> j' \<Longrightarrow> length (group ms j i) \<le> length (group ms j' i)"
  by (induction j' rule: dec_induct) (simp_all add: group_Suc)

lemma csr_off_Suc: "csr_off ms (Suc i) = csr_off ms i + length (group ms (length ms) i)"
  by (simp add: csr_off_def)

lemma csr_off_mono: "i \<le> i' \<Longrightarrow> csr_off ms i \<le> csr_off ms i'"
  by (induction i' rule: dec_induct) (simp_all add: csr_off_Suc)

lemma length_group_snoc:
  "length (group (ms @ [m]) (Suc (length ms)) i) = length (group ms (length ms) i) + of_bool (leaf_pos_of m = i)"
proof -
  have "group (ms @ [m]) (length ms) i = group ms (length ms) i"
    unfolding group_def by (rule filter_cong) (auto simp: nth_append)
  then show ?thesis by (simp add: group_Suc nth_append)
qed

lemma mbl_count_append: "mbl_count L (ms @ ms') offs = mbl_count L ms' (mbl_count L ms offs)"
  by (induction ms arbitrary: offs) simp_all

lemma mbl_count_spec:
  "length (mbl_count L ms (replicate (L + 1) 0)) = L + 1 \<and>
   mbl_count L ms (replicate (L + 1) 0) ! 0 = 0 \<and>
   (\<forall>i<L. mbl_count L ms (replicate (L + 1) 0) ! Suc i = length (group ms (length ms) i))"
proof (induction ms rule: rev_induct)
  case Nil
  then show ?case by (simp add: group_def nth_append)
next
  case (snoc m ms)
  then show ?case by (auto simp: mbl_count_append length_group_snoc nth_list_update)
qed

lemma mbl_prefix_sum_spec:
  assumes "length offs = L + 1" "offs ! 0 = 0" "\<forall>i<L. offs ! Suc i = length (group ms (length ms) i)" "n \<le> L"
  defines "offs' \<equiv> fold (\<lambda>i offs. offs[i := offs ! i + offs ! (i - 1)]) [1..<n + 1] offs"
  shows "length offs' = L + 1 \<and> (\<forall>i\<le>n. offs' ! i = csr_off ms i) \<and> (\<forall>i. n < i \<longrightarrow> i \<le> L \<longrightarrow> offs' ! i = offs ! i)"
  using assms(4) unfolding offs'_def
proof (induction n)
  case 0
  then show ?case using assms(1,2) by (simp add: csr_off_def)
next
  case (Suc n)
  let ?g = "fold (\<lambda>i offs. offs[i := offs ! i + offs ! (i - 1)]) [1..<n + 1] offs"
  have IH: "length ?g = L + 1" "\<forall>i\<le>n. ?g ! i = csr_off ms i" "\<forall>i. n < i \<longrightarrow> i \<le> L \<longrightarrow> ?g ! i = offs ! i"
    using Suc by simp_all
  have step: "fold (\<lambda>i offs. offs[i := offs ! i + offs ! (i - 1)]) [1..<Suc n + 1] offs
      = ?g[Suc n := ?g ! Suc n + ?g ! n]" by simp
  have "?g ! Suc n = length (group ms (length ms) n)" using IH(3) Suc.prems assms(3) by simp
  then have "?g ! Suc n + ?g ! n = csr_off ms (Suc n)" using IH(2) by (simp add: csr_off_Suc)
  then show ?case unfolding step using IH Suc.prems by (auto simp: nth_list_update le_Suc_eq)
qed

definition fill_inv :: "membership list \<Rightarrow> nat \<Rightarrow> nat \<Rightarrow> nat list \<times> nat list \<Rightarrow> bool" where
  "fill_inv ms L j st \<longleftrightarrow>
    length (fst st) = L + 1 \<and> length (snd st) = csr_off ms L
    \<and> (\<forall>i<L. fst st ! i = csr_off ms i + length (group ms j i))
    \<and> (\<forall>i<L. \<forall>r<length (group ms j i). snd st ! (csr_off ms i + r) = group ms j i ! r)"

lemma mbl_fill_step:
  assumes inv: "fill_inv ms L j (offs, ind)" and j: "j < length ms" and lt: "leaf_pos_of (ms ! j) < L"
  defines "q \<equiv> leaf_pos_of (ms ! j)"
  shows "fill_inv ms L (Suc j) (offs[q := offs ! q + 1], ind[offs ! q := j])"
proof -
  have len: "length offs = L + 1" "length ind = csr_off ms L" using inv by (simp_all add: fill_inv_def)
  have oq: "offs ! q = csr_off ms q + length (group ms j q)" using inv lt by (simp add: fill_inv_def q_def)
  have "length (group ms (Suc j) q) \<le> length (group ms (length ms) q)" using j by (intro group_mono) simp
  then have lq: "length (group ms j q) < length (group ms (length ms) q)" by (simp add: group_Suc q_def)
  then have ub: "offs ! q < csr_off ms (Suc q)" by (simp add: oq csr_off_Suc)
  also have "\<dots> \<le> csr_off ms L" using lt by (intro csr_off_mono) (simp add: q_def)
  finally have inb: "offs ! q < length ind" by (simp add: len)
  have other: "csr_off ms i + r \<noteq> offs ! q" if "i \<noteq> q" "r < length (group ms j i)" "i < L" for i r
  proof (cases "i < q")
    case True
    have "csr_off ms i + r < csr_off ms (Suc i)"
      using that(2) group_mono [of j "length ms" ms i] j by (simp add: csr_off_Suc)
    also have "\<dots> \<le> csr_off ms q" using True by (intro csr_off_mono) simp
    finally show ?thesis by (simp add: oq)
  next
    case False
    then have "csr_off ms (Suc q) \<le> csr_off ms i" using that(1) by (intro csr_off_mono) simp
    with ub show ?thesis by simp
  qed
  show ?thesis
    unfolding fill_inv_def
  proof (intro conjI allI impI)
    fix i r assume i: "i < L" and r: "r < length (group ms (Suc j) i)"
    show "snd (offs[q := offs ! q + 1], ind[offs ! q := j]) ! (csr_off ms i + r) = group ms (Suc j) i ! r"
    proof (cases "i = q")
      case True
      then show ?thesis
        using r inv lt inb oq
        by (cases "r < length (group ms j q)")
          (auto simp: fill_inv_def group_Suc q_def nth_append nth_list_update less_Suc_eq)
    next
      case False
      then have g: "group ms (Suc j) i = group ms j i" by (simp add: group_Suc q_def)
      show ?thesis
        using other [OF False _ i, of r] r inv i unfolding g by (simp add: fill_inv_def)
    qed
  qed (use inv len lt in \<open>auto simp: fill_inv_def group_Suc q_def nth_list_update\<close>)
qed

lemma mbl_fill_spec:
  "fill_inv ms L j st \<Longrightarrow> j \<le> length ms \<Longrightarrow>
    fill_inv ms L (length ms) (mbl_fill L (zip [j..<length ms] (drop j ms)) st)"
proof (induction "length ms - j" arbitrary: j st)
  case 0
  then show ?case by simp
next
  case (Suc d)
  obtain offs ind where st: "st = (offs, ind)" by (cases st)
  have j: "j < length ms" using Suc.hyps(2) by simp
  have z: "zip [j..<length ms] (drop j ms) = (j, ms ! j) # zip [Suc j..<length ms] (drop (Suc j) ms)"
    using j by (simp add: upt_conv_Cons Cons_nth_drop_Suc [symmetric])
  have skip: "fill_inv ms L (Suc j) (offs, ind)" if "\<not> leaf_pos_of (ms ! j) < L"
  proof -
    have "group ms (Suc j) i = group ms j i" if "i < L" for i
      using that \<open>\<not> leaf_pos_of (ms ! j) < L\<close> by (auto simp: group_Suc)
    then show ?thesis using Suc.prems(1) by (simp add: fill_inv_def st)
  qed
  show ?case
    unfolding z st mbl_fill.simps
    using Suc j skip mbl_fill_step [OF Suc.prems(1) [unfolded st] j]
    by (intro Suc.hyps(1)) auto
qed


lemma mbl_shift_spec:
  "n < length offs \<Longrightarrow>
   (let offs' = fold (\<lambda>i offs. offs[i := offs ! (i - 1)]) (rev [1..<n + 1]) offs
    in length offs' = length offs \<and> (\<forall>i<length offs. offs' ! i = (if 1 \<le> i \<and> i \<le> n then offs ! (i - 1) else offs ! i)))"
proof (induction n arbitrary: offs)
  case (Suc n)
  have step: "fold (\<lambda>i offs. offs[i := offs ! (i - 1)]) (rev [1..<Suc n + 1]) offs =
      fold (\<lambda>i offs. offs[i := offs ! (i - 1)]) (rev [1..<n + 1]) (offs[Suc n := offs ! n])"
    by simp
  let ?f = "fold (\<lambda>i offs. offs[i := offs ! (i - 1)]) (rev [1..<n + 1]) (offs[Suc n := offs ! n])"
  have IH: "length ?f = length offs" "\<And>i. i < length offs \<Longrightarrow>
      ?f ! i = (if 1 \<le> i \<and> i \<le> n then offs[Suc n := offs ! n] ! (i - 1) else offs[Suc n := offs ! n] ! i)"
    using Suc.IH [of "offs[Suc n := offs ! n]"] Suc.prems by (simp_all add: Let_def)
  have "?f ! i = (if 1 \<le> i \<and> i \<le> Suc n then offs ! (i - 1) else offs ! i)" if "i < length offs" for i
    using IH(2) [OF that] that by (cases "i = Suc n") (auto simp del: upt_Suc)
  with IH(1) show ?case unfolding step Let_def by blast
qed simp

lemma mbl_at_members_by_leaf:
  assumes "i < length (pf_leaves p)"
  shows "mbl_at (members_by_leaf p) i = group (pf_memberships p) (length (pf_memberships p)) i"
proof -
  define L ms where "L = length (pf_leaves p)" and "ms = pf_memberships p"
  define o0 where "o0 = mbl_count L ms (replicate (L + 1) 0)"
  define o1 where "o1 = mbl_prefix_sum L o0"
  define ind0 where "ind0 = replicate (o1 ! L) (0 :: nat)"
  obtain o2 ind where fill: "mbl_fill L (zip [0..<length ms] ms) (o1, ind0) = (o2, ind)" by fastforce
  have o1: "length o1 = L + 1" "\<forall>i\<le>L. o1 ! i = csr_off ms i"
    using mbl_prefix_sum_spec [of o0 L ms L] mbl_count_spec [of L ms]
    unfolding o1_def mbl_prefix_sum_def o0_def by simp_all
  have "fill_inv ms L 0 (o1, ind0)" using o1 by (simp add: fill_inv_def group_def ind0_def)
  then have inv: "fill_inv ms L (length ms) (o2, ind)"
    using mbl_fill_spec [of ms L 0 "(o1, ind0)"] fill by simp
  let ?o3 = "mbl_shift L o2"
  have "length o2 = L + 1" using inv by (simp add: fill_inv_def)
  then have sh: "?o3 ! k = (if k = 0 then 0 else o2 ! (k - 1))" if "k \<le> L" for k
    using mbl_shift_spec [of L o2] that by (auto simp: mbl_shift_def Let_def nth_list_update)
  have o3: "?o3 ! k = csr_off ms k" if "k \<le> L" for k
    using inv sh [OF that] that by (cases k) (simp_all add: csr_off_def fill_inv_def)
  have mbl: "members_by_leaf p = \<lparr>mbl_offsets = ?o3, mbl_indices = ind\<rparr>"
    using fill by (simp add: members_by_leaf_def Let_def L_def ms_def o1_def o0_def ind0_def)
  let ?g = "group ms (length ms) i"
  have i: "i < L" using assms by (simp add: L_def)
  have "csr_off ms i + length ?g \<le> length ind"
    using csr_off_mono [of "Suc i" L ms] i inv by (simp add: fill_inv_def csr_off_Suc)
  then have "take (length ?g) (drop (csr_off ms i) ind) = ?g"
    using inv i by (intro nth_equalityI) (auto simp: fill_inv_def)
  then show ?thesis
    using i o3 [of i] o3 [of "Suc i"] by (simp add: mbl mbl_at_def csr_off_Suc ms_def)
qed

end
