(* ===== verification/SMT_Sound.thy ===== *)
theory SMT_Sound
  imports SMT_Update SMT_Proof
begin

text \<open>
  What a multi-proof establishes.  A proof whose tree is well shaped (every leaf lies on the path
  of its key, no leaf summary is promoted past an empty side in the pre-state, empty siblings
  carry the empty hash) and whose pre-state root is the root of a set of entries determines the
  value of every member in these entries, and its post-state root is the root of the entries with
  the members' new values applied.  The hash function is assumed free of collisions.

  The code checks neither part of the shape; the theorems at the end of the theory
  \<open>SMT_Builder\<close> show both that the prover of the repository always produces it and what
  goes wrong without it.
\<close>

definition collision_free :: "hasher \<Rightarrow> bool" where
  "collision_free H \<longleftrightarrow> (\<forall>d ps d' ps'. H d ps = H d' ps' \<longrightarrow> d = d' \<and> ps = ps')"

text \<open>No collision, and no known preimage of the all-zero hash.\<close>

definition ideal_hash :: "hasher \<Rightarrow> bool" where
  "ideal_hash H \<longleftrightarrow> collision_free H \<and> (\<forall>d ps. H d ps \<noteq> EMPTY_HASH)"

definition no_promotion :: "hashed_node \<Rightarrow> hashed_node \<Rightarrow> bool" where
  "no_promotion a b \<longleftrightarrow>
    \<not> (kind a = LEAF \<and> kind b = EMPTY) \<and> \<not> (kind a = EMPTY \<and> kind b = LEAF)"

primrec tval :: "hasher \<Rightarrow> (nat \<Rightarrow> hashed_node) \<Rightarrow> ptree \<Rightarrow> hashed_node" where
  "tval H g PEmpty = hn_empty"
| "tval H g (PLeaf i) = g i"
| "tval H g (PSplit l r) = combine H (tval H g l) (tval H g r)"
| "tval H g (PSide goes_left sib t) = combine_with_sibling H (tval H g t) sib goes_left"

definition leaf_prev :: "hasher \<Rightarrow> smt_proof \<Rightarrow> nat \<Rightarrow> hashed_node" where
  "leaf_prev H p i = hn_leaf H (leaf_key_at p i) (pl_value_hash (pf_leaves p ! i))"

primrec shaped :: "hasher \<Rightarrow> smt_proof \<Rightarrow> ptree \<Rightarrow> smt_key \<Rightarrow> bool" where
  "shaped H p PEmpty pos = True"
| "shaped H p (PLeaf i) pos =
    (i < length (pf_leaves p) \<and> \<not> dangling p i \<and> pl_depth (pf_leaves p ! i) = level pos
     \<and> on_path pos (leaf_key_at p i))"
| "shaped H p (PSplit l r) pos =
    (level pos < DEPTH \<and> shaped H p l (left_child pos) \<and> shaped H p r (right_child pos)
     \<and> no_promotion (tval H (leaf_prev H p) l) (tval H (leaf_prev H p) r))"
| "shaped H p (PSide goes_left sib t) pos =
    (level pos < DEPTH \<and> (kind sib = EMPTY \<longrightarrow> sib = hn_empty)
     \<and> shaped H p t (if goes_left then left_child pos else right_child pos)
     \<and> (if goes_left then no_promotion (tval H (leaf_prev H p) t) sib
        else no_promotion sib (tval H (leaf_prev H p) t)))"

primrec tree_leaves :: "ptree \<Rightarrow> nat list" where
  "tree_leaves PEmpty = []"
| "tree_leaves (PLeaf i) = [i]"
| "tree_leaves (PSplit l r) = tree_leaves l @ tree_leaves r"
| "tree_leaves (PSide goes_left sib t) = tree_leaves t"

definition leaf_entries :: "smt_proof \<Rightarrow> nat \<Rightarrow> commitment list" where
  "leaf_entries p i =
    (if pl_value_hash (pf_leaves p ! i) = EMPTY_HASH then []
     else [(leaf_key_at p i, pl_value_hash (pf_leaves p ! i))])"

definition agree :: "nat \<Rightarrow> bytes \<Rightarrow> bytes \<Rightarrow> bool" where
  "agree d a b \<longleftrightarrow> (\<forall>j<d. get_msb a j = get_msb b j)"

definition near_leaf :: "smt_proof \<Rightarrow> nat \<Rightarrow> bytes \<Rightarrow> bool" where
  "near_leaf p i k \<longleftrightarrow> agree (pl_depth (pf_leaves p ! i)) (leaf_key_at p i) k"

subsection \<open>Summaries of reference trees\<close>

lemma spec_summary_kind:
  assumes "fits pos xs" "level pos + n = DEPTH"
  shows "kind (spec_summary H n xs) = EMPTY \<longleftrightarrow> xs = []"
    and "kind (spec_summary H n xs) = LEAF \<longleftrightarrow> length xs = 1"
    and "kind (spec_summary H n xs) = INTERNAL \<longleftrightarrow> 2 \<le> length xs"
proof -
  note k = spec_node_kind [OF assms, of H]
  have "kind (spec_summary H n xs) = (if xs = [] then EMPTY else if length xs = 1 then LEAF else INTERNAL)"
    using k spec_node_not_Empty [of H n xs]
    by (cases "spec_node H n xs"; cases "the (spec_node H n xs)"; cases xs rule: length_cases_012)
      (auto simp: spec_summary_def)
  then show "kind (spec_summary H n xs) = EMPTY \<longleftrightarrow> xs = []"
    "kind (spec_summary H n xs) = LEAF \<longleftrightarrow> length xs = 1"
    "kind (spec_summary H n xs) = INTERNAL \<longleftrightarrow> 2 \<le> length xs"
    by (auto simp: numeral_2_eq_2 Suc_le_eq neq_Nil_conv length_Suc_conv)
qed


lemma spec_summary_Nil [simp]: "spec_summary H n [] = hn_empty"
  by (simp add: spec_summary_def)

lemma spec_summary_single [simp]:
  "spec_summary H n [x] = hn_new LEAF (hn_hash (hn_leaf H (fst x) (snd x)))"
  by (simp add: spec_summary_def node_leaf_def)

lemma spec_summary_many:
  assumes "level pos + Suc m = DEPTH" "2 \<le> length ys"
  shows "spec_summary H (Suc m) ys =
    hn_new INTERNAL (hn_hash (hn_internal H (spec_summary H m (left_half pos ys)) (spec_summary H m (right_half pos ys))))"
proof -
  have "DEPTH - Suc m = level pos" using assms(1) by simp
  then show ?thesis
    using assms(2) by (simp add: spec_summary_def spec_node_many node_internal_def left_half_def right_half_def)
qed

lemma spec_summary_set:
  "distinct (map fst xs) \<Longrightarrow> distinct (map fst ys) \<Longrightarrow> set xs = set ys
    \<Longrightarrow> spec_summary H n xs = spec_summary H n ys"
  unfolding spec_summary_def using spec_node_set by metis

lemma fits_halves:
  assumes "fits pos ys" "canon_pos pos" "level pos < DEPTH"
  shows "fits (left_child pos) (left_half pos ys)" "fits (right_child pos) (right_half pos ys)"
  using fits_child [OF assms] by (simp_all add: left_half_def right_half_def)

lemma halves_kinds:
  assumes "fits pos ys" "canon_pos pos" "level pos + Suc m = DEPTH"
  shows "kind (spec_summary H m (left_half pos ys)) = EMPTY \<longleftrightarrow> left_half pos ys = []"
    "kind (spec_summary H m (left_half pos ys)) = LEAF \<longleftrightarrow> length (left_half pos ys) = 1"
    "kind (spec_summary H m (right_half pos ys)) = EMPTY \<longleftrightarrow> right_half pos ys = []"
    "kind (spec_summary H m (right_half pos ys)) = LEAF \<longleftrightarrow> length (right_half pos ys) = 1"
proof -
  have lt: "level pos < DEPTH" using assms(3) by simp
  note fh = fits_halves [OF assms(1,2) lt]
  show "kind (spec_summary H m (left_half pos ys)) = EMPTY \<longleftrightarrow> left_half pos ys = []"
    "kind (spec_summary H m (left_half pos ys)) = LEAF \<longleftrightarrow> length (left_half pos ys) = 1"
    using assms(3) by (intro spec_summary_kind [OF fh(1)]; simp)+
  show "kind (spec_summary H m (right_half pos ys)) = EMPTY \<longleftrightarrow> right_half pos ys = []"
    "kind (spec_summary H m (right_half pos ys)) = LEAF \<longleftrightarrow> length (right_half pos ys) = 1"
    using assms(3) by (intro spec_summary_kind [OF fh(2)]; simp)+
qed

text \<open>Combining the halves with promotion gives the whole: the tree has one shape per content.\<close>

lemma combine_spec:
  assumes "fits pos ys" "canon_pos pos" "level pos + Suc m = DEPTH"
  shows "combine H (spec_summary H m (left_half pos ys)) (spec_summary H m (right_half pos ys))
    = spec_summary H (Suc m) ys"
proof -
  note hk = halves_kinds [OF assms, of H] and len = halves_length [of pos ys]
  show ?thesis
  proof (cases ys rule: length_cases_012)
    case zero
    then show ?thesis by (simp add: left_half_def right_half_def combine_def hn_internal_def)
  next
    case (one x)
    then show ?thesis
      by (cases "bit_at (level pos) x") (simp_all add: left_half_def right_half_def combine_def)
  next
    case more
    let ?a = "spec_summary H m (left_half pos ys)" and ?b = "spec_summary H m (right_half pos ys)"
    have np: "\<not> (kind ?a = LEAF \<and> kind ?b = EMPTY)" "\<not> (kind ?a = EMPTY \<and> kind ?b = LEAF)"
      "\<not> (kind ?a = EMPTY \<and> kind ?b = EMPTY)"
      using more len by (auto simp: hk)
    then have "combine H ?a ?b = hn_internal H ?a ?b" by (auto simp: combine_def)
    also have "\<dots> = hn_new INTERNAL (hn_hash (hn_internal H ?a ?b))" using np by (auto simp: hn_internal_def)
    finally show ?thesis using spec_summary_many [OF assms(3) more] by simp
  qed
qed

lemma combine_inv:
  assumes H: "collision_free H"
    and fits: "fits pos ys" "canon_pos pos" "level pos + Suc m = DEPTH"
    and np: "no_promotion a b" and emp: "kind a = EMPTY \<Longrightarrow> a = hn_empty" "kind b = EMPTY \<Longrightarrow> b = hn_empty"
    and eq: "combine H a b = spec_summary H (Suc m) ys"
  shows "a = spec_summary H m (left_half pos ys) \<and> b = spec_summary H m (right_half pos ys)"
proof -
  have int: "combine H a b = hn_internal H a b" using np by (auto simp: combine_def no_promotion_def)
  note k = spec_summary_kind [OF fits(1,3), of H] and hk = halves_kinds [OF fits, of H]
  show ?thesis
  proof (cases "kind a = EMPTY \<and> kind b = EMPTY")
    case True
    then have "ys = []" using eq int k(1) by (simp add: hn_internal_def)
    with True emp show ?thesis by (simp add: left_half_def right_half_def)
  next
    case False
    let ?a = "spec_summary H m (left_half pos ys)" and ?b = "spec_summary H m (right_half pos ys)"
    have ab: "hn_new INTERNAL (H [INTERNAL, kind a, kind b] [hn_hash a, hn_hash b]) = spec_summary H (Suc m) ys"
      using eq int False by (simp add: hn_internal_def)
    then have len: "2 \<le> length ys" using k(3) by (metis hn_sel(3))
    then have "\<not> (kind ?a = EMPTY \<and> kind ?b = EMPTY)" using halves_length [of pos ys] by (auto simp: hk)
    then have "H [INTERNAL, kind a, kind b] [hn_hash a, hn_hash b] =
        H [INTERNAL, kind ?a, kind ?b] [hn_hash ?a, hn_hash ?b]"
      using ab unfolding spec_summary_many [OF fits(3) len] by (auto simp: hn_internal_def split: if_splits)
    then have "kind a = kind ?a \<and> hn_hash a = hn_hash ?a \<and> kind b = kind ?b \<and> hn_hash b = hn_hash ?b"
      using H unfolding collision_free_def by blast
    then show ?thesis by (intro conjI hashed_node.equality) simp_all
  qed
qed

lemma combine_empty:
  "no_promotion a b \<Longrightarrow> kind (combine H a b) = EMPTY \<Longrightarrow> combine H a b = hn_empty"
  by (auto simp: combine_def hn_internal_def no_promotion_def split: if_splits)

lemma tval_empty:
  assumes "shaped H p t pos" "kind (tval H (leaf_prev H p) t) = EMPTY"
  shows "tval H (leaf_prev H p) t = hn_empty"
proof (cases t)
  case (PLeaf i)
  then show ?thesis using assms by (auto simp: leaf_prev_def hn_leaf_def split: if_splits)
next
  case (PSide goes_left sib t)
  then show ?thesis using assms by (cases goes_left) (auto simp: combine_with_sibling_def combine_empty)
qed (use assms in \<open>auto simp: combine_empty\<close>)


subsection \<open>Changes on the two sides of a position\<close>

lemma fits_of_child:
  assumes "canon_pos pos" "level pos < DEPTH"
  shows "fits (left_child pos) cs \<Longrightarrow> fits pos cs \<and> left_half pos cs = cs \<and> right_half pos cs = []"
    and "fits (right_child pos) cs \<Longrightarrow> fits pos cs \<and> left_half pos cs = [] \<and> right_half pos cs = cs"
  using assms
  by (auto simp: fits_def on_path_left on_path_right left_half_def right_half_def bit_at_def
      filter_empty_conv filter_id_conv)

lemma halves_append:
  "left_half pos (xs @ ys) = left_half pos xs @ left_half pos ys"
  "right_half pos (xs @ ys) = right_half pos xs @ right_half pos ys"
  by (simp_all add: left_half_def right_half_def)

lemma apply_split:
  assumes pos: "canon_pos pos" "level pos + Suc m = DEPTH" and xs: "fits pos xs"
    and chl: "fits (left_child pos) chl" and chr: "fits (right_child pos) chr"
  shows "fits pos (chl @ chr)"
    and "combine H (spec_summary H m (apply_commits (left_half pos xs) chl))
           (spec_summary H m (apply_commits (right_half pos xs) chr))
         = spec_summary H (Suc m) (apply_commits xs (chl @ chr))"
proof -
  have lt: "level pos < DEPTH" using pos(2) by simp
  note L = fits_of_child(1) [OF pos(1) lt chl] and R = fits_of_child(2) [OF pos(1) lt chr]
  have "\<forall>c \<in> set chl. \<forall>d \<in> set chr. fst c \<noteq> fst d"
    using chl chr pos(1) lt unfolding fits_def by (metis on_path_left on_path_right)
  then show f: "fits pos (chl @ chr)" using L R by (auto simp: fits_def)
  let ?ys = "apply_commits xs (chl @ chr)"
  have fy: "fits pos ?ys" by (rule fits_apply_commits [OF xs f])
  have h: "left_half pos (chl @ chr) = chl" "right_half pos (chl @ chr) = chr"
    using L R by (simp_all add: halves_append)
  have d: "distinct (map fst xs)" "distinct (map fst chl)" "distinct (map fst chr)"
    using xs chl chr by (simp_all add: fits_def)
  have "spec_summary H m (apply_commits (left_half pos xs) chl) = spec_summary H m (left_half pos ?ys)"
    by (rule spec_summary_set) (use d fy in \<open>simp_all add: distinct_apply_commits halves_simps fits_distinct
        halves_apply_commits h\<close>)
  moreover have "spec_summary H m (apply_commits (right_half pos xs) chr) = spec_summary H m (right_half pos ?ys)"
    by (rule spec_summary_set) (use d fy in \<open>simp_all add: distinct_apply_commits halves_simps fits_distinct
        halves_apply_commits h\<close>)
  ultimately show "combine H (spec_summary H m (apply_commits (left_half pos xs) chl))
           (spec_summary H m (apply_commits (right_half pos xs) chr)) = spec_summary H (Suc m) ?ys"
    using combine_spec [OF fy pos] by simp
qed

lemma shaped_leaf:
  "shaped H p t pos \<Longrightarrow> canon_pos pos \<Longrightarrow> i \<in> set (tree_leaves t) \<Longrightarrow>
    on_path pos (leaf_key_at p i) \<and> level pos \<le> pl_depth (pf_leaves p ! i) \<and> i < length (pf_leaves p)
    \<and> \<not> dangling p i \<and> pl_depth (pf_leaves p ! i) \<le> DEPTH"
proof (induction t arbitrary: pos)
  case (PLeaf j)
  then show ?case by (simp add: canon_pos_def)
next
  case (PSplit l r)
  then have lt: "level pos < DEPTH" by simp
  note cc = canon_pos_child [OF PSplit.prems(2) lt]
  from PSplit.prems(3) have "i \<in> set (tree_leaves l) \<or> i \<in> set (tree_leaves r)" by simp
  then show ?case
    using PSplit.prems PSplit.IH(1) [OF _ cc(1)] PSplit.IH(2) [OF _ cc(2)] lt
    by (auto simp: on_path_left on_path_right)
next
  case (PSide g sib t)
  then have lt: "level pos < DEPTH" by simp
  note cc = canon_pos_child [OF PSide.prems(2) lt]
  show ?case
    using PSide.prems PSide.IH [OF _ cc(1)] PSide.IH [OF _ cc(2)] lt
    by (cases g) (auto simp: on_path_left on_path_right)
qed simp

lemma near_leaf_side:
  assumes "canon_pos pos" "level pos < DEPTH"
    and "on_path q (leaf_key_at p i)" "level q \<le> pl_depth (pf_leaves p ! i)"
  shows "q = left_child pos \<Longrightarrow>
      filter (\<lambda>x. near_leaf p i (fst x)) xs = filter (\<lambda>x. near_leaf p i (fst x)) (left_half pos xs)"
    and "q = right_child pos \<Longrightarrow>
      filter (\<lambda>x. near_leaf p i (fst x)) xs = filter (\<lambda>x. near_leaf p i (fst x)) (right_half pos xs)"
proof -
  have near: "near_leaf p i k \<Longrightarrow> get_msb k (level pos) = get_msb (leaf_key_at p i) (level pos)"
    if "q = left_child pos \<or> q = right_child pos" for k
    using assms(4) that by (auto simp: near_leaf_def agree_def)
  show "q = left_child pos \<Longrightarrow>
      filter (\<lambda>x. near_leaf p i (fst x)) xs = filter (\<lambda>x. near_leaf p i (fst x)) (left_half pos xs)"
    using near assms(1,3) by (auto simp: left_half_def bit_at_def on_path_left intro!: filter_cong)
  show "q = right_child pos \<Longrightarrow>
      filter (\<lambda>x. near_leaf p i (fst x)) xs = filter (\<lambda>x. near_leaf p i (fst x)) (right_half pos xs)"
    using near assms(1,2,3) by (auto simp: right_half_def bit_at_def on_path_right intro!: filter_cong)
qed


subsection \<open>A well-shaped tree with the right root is right everywhere\<close>

definition tree_ok ::
  "hasher \<Rightarrow> smt_proof \<Rightarrow> (nat \<Rightarrow> commitment list) \<Rightarrow> (nat \<Rightarrow> hashed_node) \<Rightarrow> nat \<Rightarrow> smt_key
    \<Rightarrow> commitment list \<Rightarrow> ptree \<Rightarrow> bool" where
  "tree_ok H p ch g n pos xs t \<longleftrightarrow>
    (\<forall>i \<in> set (tree_leaves t). filter (\<lambda>x. near_leaf p i (fst x)) xs = leaf_entries p i)
    \<and> fits pos (concat (map ch (tree_leaves t)))
    \<and> tval H g t = spec_summary H n (apply_commits xs (concat (map ch (tree_leaves t))))"

definition changes_ok ::
  "hasher \<Rightarrow> smt_proof \<Rightarrow> (nat \<Rightarrow> commitment list) \<Rightarrow> (nat \<Rightarrow> hashed_node) \<Rightarrow> nat \<Rightarrow> bool" where
  "changes_ok H p ch g i \<longleftrightarrow>
    (\<forall>c \<in> set (ch i). length (fst c) = 32 \<and> near_leaf p i (fst c)) \<and> distinct (map fst (ch i))
    \<and> g i = spec_summary H (DEPTH - pl_depth (pf_leaves p ! i)) (apply_commits (leaf_entries p i) (ch i))"

lemma leaf_inv:
  assumes H: "collision_free H" and xs: "fits pos xs" "level pos + n = DEPTH" "list_all live xs"
    and eq: "leaf_prev H p i = spec_summary H n xs"
  shows "xs = leaf_entries p i"
proof (cases "pl_value_hash (pf_leaves p ! i) = EMPTY_HASH")
  case True
  then have "kind (spec_summary H n xs) = EMPTY" using eq by (simp add: leaf_prev_def hn_leaf_def flip: eq)
  then show ?thesis using True spec_summary_kind(1) [OF xs(1,2)] by (simp add: leaf_entries_def)
next
  case False
  let ?k = "leaf_key_at p i" and ?v = "pl_value_hash (pf_leaves p ! i)"
  have e: "hn_new LEAF (H [LEAF] [?k, ?v]) = spec_summary H n xs"
    using eq False by (simp add: leaf_prev_def hn_leaf_def)
  then have "length xs = 1" using spec_summary_kind(2) [OF xs(1,2), of H] by (metis hn_sel(3))
  then obtain x where x: "xs = [x]" by (auto simp: length_Suc_conv)
  then have "snd x \<noteq> EMPTY_HASH" using xs(3) by (simp add: live_def)
  then have "H [LEAF] [?k, ?v] = H [LEAF] [fst x, snd x]" using e x by (simp add: hn_leaf_def)
  then have "?k = fst x \<and> ?v = snd x" using H unfolding collision_free_def by blast
  then show ?thesis using x False by (simp add: leaf_entries_def)
qed

lemma tree_sound:
  assumes H: "collision_free H"
  shows "shaped H p t pos \<Longrightarrow> canon_pos pos \<Longrightarrow> level pos + n = DEPTH \<Longrightarrow> fits pos xs \<Longrightarrow>
    list_all live xs \<Longrightarrow> tval H (leaf_prev H p) t = spec_summary H n xs \<Longrightarrow>
    (\<forall>i \<in> set (tree_leaves t). changes_ok H p ch g i) \<Longrightarrow> tree_ok H p ch g n pos xs t"
proof (induction t arbitrary: pos n xs)
  case PEmpty
  then have "xs = []" using spec_summary_kind(1) [OF PEmpty(4,3), of H] by (metis hn_sel(1) tval.simps(1))
  then show ?case by (simp add: tree_ok_def fits_def apply_commits_def)
next
  case (PLeaf i)
  have x: "xs = leaf_entries p i" using leaf_inv [OF H PLeaf.prems(4,3,5)] PLeaf.prems(6) by simp
  have "on_path pos (fst c)" if "c \<in> set (ch i)" for c
    using PLeaf.prems(1,7) that by (auto simp: changes_ok_def on_path_def near_leaf_def agree_def)
  moreover have "n = DEPTH - pl_depth (pf_leaves p ! i)" using PLeaf.prems(1,3) by simp
  ultimately show ?case
    using PLeaf.prems(7) by (auto simp: tree_ok_def x changes_ok_def fits_def leaf_entries_def
        near_leaf_def agree_def)
next
  case (PSplit l r)
  have lt: "level pos < DEPTH" using PSplit.prems(1) by simp
  then obtain m where n: "n = Suc m" using PSplit.prems(3) by (cases n) auto
  note pos = PSplit.prems(2) PSplit.prems(3) [unfolded n]
  have sh: "shaped H p l (left_child pos)" "shaped H p r (right_child pos)" using PSplit.prems(1) by simp_all
  note cc = canon_pos_child [OF pos(1) lt] and fh = fits_halves [OF PSplit.prems(4) pos(1) lt]
  have inv: "tval H (leaf_prev H p) l = spec_summary H m (left_half pos xs)
      \<and> tval H (leaf_prev H p) r = spec_summary H m (right_half pos xs)"
    using PSplit.prems(1,6) n tval_empty [OF sh(1)] tval_empty [OF sh(2)]
    by (intro combine_inv [OF H PSplit.prems(4) pos]) auto
  have L: "tree_ok H p ch g m (left_child pos) (left_half pos xs) l"
    using PSplit.prems pos inv halves_simps by (intro PSplit.IH(1) [OF sh(1) cc(1) _ fh(1)]) auto
  have R: "tree_ok H p ch g m (right_child pos) (right_half pos xs) r"
    using PSplit.prems pos inv halves_simps by (intro PSplit.IH(2) [OF sh(2) cc(2) _ fh(2)]) auto
  have "\<forall>i \<in> set (tree_leaves (PSplit l r)). filter (\<lambda>x. near_leaf p i (fst x)) xs = leaf_entries p i"
    using L R shaped_leaf [OF sh(1) cc(1)] shaped_leaf [OF sh(2) cc(2)]
      near_leaf_side [OF pos(1) lt, where xs = xs and p = p]
    unfolding tree_ok_def tree_leaves.simps set_append by (metis Un_iff)
  moreover note apply_split(1) [OF pos PSplit.prems(4), of "concat (map ch (tree_leaves l))"
      "concat (map ch (tree_leaves r))"]
  moreover note apply_split(2) [OF pos PSplit.prems(4), of "concat (map ch (tree_leaves l))"
      "concat (map ch (tree_leaves r))" H]
  ultimately show ?case using L R unfolding tree_ok_def n by simp
next
  case (PSide goes_left sib t)
  have lt: "level pos < DEPTH" using PSide.prems(1) by simp
  then obtain m where n: "n = Suc m" using PSide.prems(3) by (cases n) auto
  note pos = PSide.prems(2) PSide.prems(3) [unfolded n]
  note cc = canon_pos_child [OF pos(1) lt] and fh = fits_halves [OF PSide.prems(4) pos(1) lt]
  have emp: "kind sib = EMPTY \<Longrightarrow> sib = hn_empty" using PSide.prems(1) by simp
  have none: "apply_commits (left_half pos xs) [] = left_half pos xs"
    "apply_commits (right_half pos xs) [] = right_half pos xs"
    using PSide.prems(5) by (simp_all add: apply_commits_Nil halves_simps)
  show ?case
  proof (cases goes_left)
    case True
    then have sh: "shaped H p t (left_child pos)" using PSide.prems(1) by simp
    have inv: "tval H (leaf_prev H p) t = spec_summary H m (left_half pos xs) \<and> sib = spec_summary H m (right_half pos xs)"
      using PSide.prems(1,6) n tval_empty [OF sh] emp True
      by (intro combine_inv [OF H PSide.prems(4) pos]) (auto simp: combine_with_sibling_def)
    have L: "tree_ok H p ch g m (left_child pos) (left_half pos xs) t"
      using PSide.prems pos inv halves_simps by (intro PSide.IH [OF sh cc(1) _ fh(1)]) auto
    have "\<forall>i \<in> set (tree_leaves t). filter (\<lambda>x. near_leaf p i (fst x)) xs = leaf_entries p i"
      using L shaped_leaf [OF sh cc(1)] near_leaf_side(1) [OF pos(1) lt, where xs = xs and p = p]
      unfolding tree_ok_def by metis
    moreover note apply_split(1) [OF pos PSide.prems(4), of "concat (map ch (tree_leaves t))" "[]"]
    moreover note apply_split(2) [OF pos PSide.prems(4), of "concat (map ch (tree_leaves t))" "[]" H]
    ultimately show ?thesis
      using L inv none True unfolding tree_ok_def n by (simp add: combine_with_sibling_def fits_def)
  next
    case False
    then have sh: "shaped H p t (right_child pos)" using PSide.prems(1) by simp
    have inv: "sib = spec_summary H m (left_half pos xs) \<and> tval H (leaf_prev H p) t = spec_summary H m (right_half pos xs)"
      using PSide.prems(1,6) n tval_empty [OF sh] emp False
      by (intro combine_inv [OF H PSide.prems(4) pos]) (auto simp: combine_with_sibling_def)
    have R: "tree_ok H p ch g m (right_child pos) (right_half pos xs) t"
      using PSide.prems pos inv halves_simps by (intro PSide.IH [OF sh cc(2) _ fh(2)]) auto
    have "\<forall>i \<in> set (tree_leaves t). filter (\<lambda>x. near_leaf p i (fst x)) xs = leaf_entries p i"
      using R shaped_leaf [OF sh cc(2)] near_leaf_side(2) [OF pos(1) lt, where xs = xs and p = p]
      unfolding tree_ok_def by metis
    moreover note apply_split(1) [OF pos PSide.prems(4), of "[]" "concat (map ch (tree_leaves t))"]
    moreover note apply_split(2) [OF pos PSide.prems(4), of "[]" "concat (map ch (tree_leaves t))" H]
    ultimately show ?thesis
      using R inv none False unfolding tree_ok_def n by (simp add: combine_with_sibling_def fits_def)
  qed
qed


subsection \<open>The post-state of one leaf\<close>

lemma subtree_hash_short [simp]:
  "subtree_hash H [] d = Inr hn_empty"
  "subtree_hash H [x] d = Inr (hn_leaf H (fst x) (snd x))"
  by (subst subtree_hash.simps; simp)+

lemma subtree_hash_many:
  assumes "2 \<le> length es" "d + 1 < 2 ^ 16"
  shows "subtree_hash H es d =
    rbind (subtree_hash H (take (partition_point (\<lambda>e. \<not> get_msb (fst e) d) es) es) (d + 1)) (\<lambda>left.
    rbind (subtree_hash H (drop (partition_point (\<lambda>e. \<not> get_msb (fst e) d) es) es) (d + 1)) (\<lambda>right.
    Inr (combine H left right)))"
  using assms by (subst subtree_hash.simps) (auto simp: Let_def)

lemma subtree_hash_spec:
  "fits pos es \<Longrightarrow> canon_pos pos \<Longrightarrow> key_sorted es \<Longrightarrow> list_all live es \<Longrightarrow> level pos + n = DEPTH \<Longrightarrow>
    subtree_hash H es (level pos) = Inr (spec_summary H n es)"
proof (induction n arbitrary: pos es)
  case 0
  then have "length es \<le> 1" using fits_full by simp
  then show ?case using 0(4) by (cases es) (auto simp: hn_leaf_def live_def)
next
  case (Suc n)
  have lt: "level pos < DEPTH" using Suc.prems(5) by simp
  show ?case
  proof (cases es rule: length_cases_012)
    case (one x)
    then show ?thesis using Suc.prems(4) by (simp add: hn_leaf_def live_def)
  next
    case more
    note cc = canon_pos_child [OF Suc.prems(2) lt] and fh = fits_halves [OF Suc.prems(1,2) lt]
    have "subtree_hash H (left_half pos es) (level pos + 1) = Inr (spec_summary H n (left_half pos es))"
      using Suc.IH [OF fh(1) cc(1)] Suc.prems halves_simps by simp
    moreover have "subtree_hash H (right_half pos es) (level pos + 1) = Inr (spec_summary H n (right_half pos es))"
      using Suc.IH [OF fh(2) cc(2)] Suc.prems halves_simps by simp
    moreover have "level pos + 1 < 2 ^ 16" using lt by (simp add: DEPTH_def)
    ultimately show ?thesis
      using combine_spec [OF Suc.prems(1,2,5), of H]
      unfolding subtree_hash_many [OF more \<open>level pos + 1 < 2 ^ 16\<close>]
        partition_halves [OF Suc.prems(1,3) lt] by simp
  qed simp
qed

lemma leaf_entries_summary: "leaf_prev H p i = spec_summary H n (leaf_entries p i)"
  by (simp add: leaf_prev_def leaf_entries_def hn_leaf_def)

fun is_present :: "membership \<Rightarrow> bool" where
  "is_present (Present _) = True"
| "is_present (Absent _) = False"

text \<open>What the classification loop leaves behind.\<close>

lemma classify_loop:
  assumes "\<forall>j \<in> set js. j < length (pf_keys p)"
  shows "\<exists>st'. fold_r (classify_step p leaf nv) js st = Inr st'
    \<and> cs_buffer st' = cs_buffer st @ filter live (map (\<lambda>j. (pf_keys p ! j, nv j)) js)
    \<and> cs_witness st' = fold (\<lambda>j w. if is_present (pf_memberships p ! j) then Some (nv j) else w) js (cs_witness st)
    \<and> (cs_synthesis st' \<longleftrightarrow> cs_synthesis st \<or> (\<exists>j \<in> set js. \<not> is_present (pf_memberships p ! j) \<and> nv j \<noteq> EMPTY_HASH))
    \<and> (cs_change st' \<longleftrightarrow> cs_change st \<or> (\<exists>j \<in> set js.
         if is_present (pf_memberships p ! j) then nv j \<noteq> pl_value_hash leaf else nv j \<noteq> EMPTY_HASH))"
  using assms
proof (induction js arbitrary: st)
  case (Cons j js)
  define st1 where "st1 = (case pf_memberships p ! j of
      Present _ \<Rightarrow> st\<lparr>cs_witness := Some (nv j), cs_change := cs_change st \<or> nv j \<noteq> pl_value_hash leaf\<rparr>
    | Absent _ \<Rightarrow> if nv j \<noteq> EMPTY_HASH then st\<lparr>cs_synthesis := True, cs_change := True\<rparr> else st)"
  define st2 where "st2 = (if nv j \<noteq> EMPTY_HASH then st1\<lparr>cs_buffer := cs_buffer st1 @ [(pf_keys p ! j, nv j)]\<rparr> else st1)"
  have step: "classify_step p leaf nv j st = Inr st2"
    using Cons.prems by (auto simp: classify_step_def Let_def st1_def st2_def pf_key_def)
  have f: "cs_buffer st2 = cs_buffer st @ filter live [(pf_keys p ! j, nv j)]"
    "cs_witness st2 = (if is_present (pf_memberships p ! j) then Some (nv j) else cs_witness st)"
    "cs_synthesis st2 \<longleftrightarrow> cs_synthesis st \<or> (\<not> is_present (pf_memberships p ! j) \<and> nv j \<noteq> EMPTY_HASH)"
    "cs_change st2 \<longleftrightarrow> cs_change st \<or> (if is_present (pf_memberships p ! j) then nv j \<noteq> pl_value_hash leaf else nv j \<noteq> EMPTY_HASH)"
    by (cases "pf_memberships p ! j"; auto simp: st1_def st2_def live_def)+
  have "fold_r (classify_step p leaf nv) (j # js) st = fold_r (classify_step p leaf nv) js st2"
    by (simp add: step)
  moreover obtain st' where A: "fold_r (classify_step p leaf nv) js st2 = Inr st'"
      "cs_buffer st' = cs_buffer st2 @ filter live (map (\<lambda>j. (pf_keys p ! j, nv j)) js)"
      "cs_witness st' = fold (\<lambda>j w. if is_present (pf_memberships p ! j) then Some (nv j) else w) js (cs_witness st2)"
      "cs_synthesis st' \<longleftrightarrow> cs_synthesis st2 \<or> (\<exists>j \<in> set js. \<not> is_present (pf_memberships p ! j) \<and> nv j \<noteq> EMPTY_HASH)"
      "cs_change st' \<longleftrightarrow> cs_change st2 \<or> (\<exists>j \<in> set js.
         if is_present (pf_memberships p ! j) then nv j \<noteq> pl_value_hash leaf else nv j \<noteq> EMPTY_HASH)"
    using Cons.IH [of st2] Cons.prems by auto
  ultimately have "fold_r (classify_step p leaf nv) (j # js) st = Inr st'" by simp
  then show ?case
  proof (intro exI [of _ st'] conjI)
    show "cs_buffer st' = cs_buffer st @ filter live (map (\<lambda>j. (pf_keys p ! j, nv j)) (j # js))"
      unfolding A(2) f(1) by simp
    show "cs_witness st' = fold (\<lambda>j w. if is_present (pf_memberships p ! j) then Some (nv j) else w) (j # js) (cs_witness st)"
      unfolding A(3) f(2) by simp
  qed (unfold A(4,5) f(3,4), auto)
qed simp

lemma fold_witness:
  "fold (\<lambda>j w. if P j then Some (nv j) else w) js w0 =
    (case rev (filter P js) of [] \<Rightarrow> w0 | j # _ \<Rightarrow> Some (nv j))"
  by (induction js rule: rev_induct) auto


definition members_ok :: "smt_proof \<Rightarrow> nat \<Rightarrow> nat list \<Rightarrow> bool" where
  "members_ok p i js \<longleftrightarrow>
    distinct (map (\<lambda>j. pf_keys p ! j) js)
    \<and> (\<forall>j \<in> set js. j < length (pf_keys p) \<and> length (pf_keys p ! j) = 32 \<and> near_leaf p i (pf_keys p ! j)
         \<and> (is_present (pf_memberships p ! j) \<longleftrightarrow> pf_keys p ! j = leaf_key_at p i))"

definition member_changes :: "smt_proof \<Rightarrow> (nat \<Rightarrow> hash) \<Rightarrow> nat list \<Rightarrow> commitment list" where
  "member_changes p nv js = map (\<lambda>j. (pf_keys p ! j, nv j)) js"

lemma present_unique:
  assumes "members_ok p i js"
  shows "(\<exists>j. filter (\<lambda>j. is_present (pf_memberships p ! j)) js = [j] \<and> j \<in> set js \<and> pf_keys p ! j = leaf_key_at p i)
    \<or> (filter (\<lambda>j. is_present (pf_memberships p ! j)) js = [] \<and> leaf_key_at p i \<notin> (\<lambda>j. pf_keys p ! j) ` set js)"
  using assms
proof (induction js)
  case (Cons j js)
  then have ok: "members_ok p i js" by (simp add: members_ok_def)
  show ?case
  proof (cases "is_present (pf_memberships p ! j)")
    case True
    then have k: "pf_keys p ! j = leaf_key_at p i" using Cons.prems by (simp add: members_ok_def)
    then have "\<forall>j' \<in> set js. \<not> is_present (pf_memberships p ! j')" using Cons.prems by (force simp: members_ok_def)
    then have "filter (\<lambda>j. is_present (pf_memberships p ! j)) js = []" by (simp add: filter_empty_conv)
    with True k show ?thesis by simp
  next
    case False
    then have "pf_keys p ! j \<noteq> leaf_key_at p i" using Cons.prems by (simp add: members_ok_def)
    with False Cons.IH [OF ok] show ?thesis by auto
  qed
qed simp

definition classified ::
  "bytes \<Rightarrow> commitment list \<Rightarrow> commitment list \<Rightarrow> leaf_update \<times> commitment list \<Rightarrow> bool" where
  "classified k es ys r \<longleftrightarrow>
    (case r of
       (Unchanged, _) \<Rightarrow> set ys = set es
     | (Single w, _) \<Rightarrow> set ys = (if w = EMPTY_HASH then {} else {(k, w)})
     | (Multiple, buffer) \<Rightarrow> set ys = set buffer \<and> key_sorted buffer)"

lemma sort_key_sorted: "distinct (map fst xs) \<Longrightarrow> key_sorted (sort_key fst xs)" for xs :: "commitment list"
proof -
  assume d: "distinct (map fst xs)"
  have "sorted (map fst (sort_key fst xs))" by simp
  moreover have "distinct (map fst (sort_key fst xs))" using d by (simp add: distinct_map)
  ultimately have "sorted_wrt (<) (map fst (sort_key fst xs))" by (simp add: strict_sorted_iff)
  then show ?thesis by (simp add: key_sorted_def sorted_wrt_map)
qed

lemma classify_spec:
  fixes nv :: "nat \<Rightarrow> hash"
  assumes js: "members_ok p i js"
  defines "leaf \<equiv> pf_leaves p ! i" and "cs \<equiv> member_changes p nv js" and "es \<equiv> leaf_entries p i"
  shows "\<exists>r. classify_leaf_update p leaf (leaf_key_at p i) js nv = Inr r
    \<and> classified (leaf_key_at p i) es (apply_commits es cs) r"
proof -
  define k v where "k = leaf_key_at p i" and "v = pl_value_hash leaf"
  define pres where "pres = (\<lambda>j. is_present (pf_memberships p ! j))"
  have es: "es = (if v = EMPTY_HASH then [] else [(k, v)])"
    by (simp add: es_def leaf_entries_def v_def leaf_def k_def)
  have set_es: "set es = (if v = EMPTY_HASH then {} else {(k, v)})" by (simp add: es)
  have d: "distinct (map fst cs)" using js by (simp add: cs_def member_changes_def members_ok_def comp_def)
  let ?st0 = "\<lparr>cs_buffer = [], cs_witness = None, cs_synthesis = False, cs_change = False\<rparr>"
  have "\<forall>j \<in> set js. j < length (pf_keys p)" using js by (simp add: members_ok_def)
  from classify_loop [OF this, of leaf nv ?st0] obtain st where
      st1: "fold_r (classify_step p leaf nv) js ?st0 = Inr st" and
      st2: "cs_buffer st = cs_buffer ?st0 @ filter live (map (\<lambda>j. (pf_keys p ! j, nv j)) js)" and
      st3: "cs_witness st = fold (\<lambda>j w. if is_present (pf_memberships p ! j) then Some (nv j) else w) js (cs_witness ?st0)" and
      st4: "cs_synthesis st \<longleftrightarrow> cs_synthesis ?st0 \<or> (\<exists>j \<in> set js. \<not> is_present (pf_memberships p ! j) \<and> nv j \<noteq> EMPTY_HASH)" and
      st5: "cs_change st \<longleftrightarrow> cs_change ?st0 \<or> (\<exists>j \<in> set js.
         if is_present (pf_memberships p ! j) then nv j \<noteq> pl_value_hash leaf else nv j \<noteq> EMPTY_HASH)"
    by blast
  have st: "fold_r (classify_step p leaf nv) js ?st0 = Inr st" "cs_buffer st = filter live cs"
      "cs_witness st = (case rev (filter pres js) of [] \<Rightarrow> None | j # _ \<Rightarrow> Some (nv j))"
      "cs_synthesis st \<longleftrightarrow> (\<exists>j \<in> set js. \<not> pres j \<and> nv j \<noteq> EMPTY_HASH)"
      "cs_change st \<longleftrightarrow> (\<exists>j \<in> set js. if pres j then nv j \<noteq> v else nv j \<noteq> EMPTY_HASH)"
    using st1 st2 st3 st4 st5 unfolding fold_witness
    by (simp_all add: cs_def member_changes_def pres_def v_def cong: list.case_cong)
  have key: "pres j \<longleftrightarrow> pf_keys p ! j = k" if "j \<in> set js" for j
    using js that by (simp add: members_ok_def pres_def k_def)
  have cs: "(a, w) \<in> set cs \<longleftrightarrow> (\<exists>j \<in> set js. a = pf_keys p ! j \<and> w = nv j)" for a w
    by (auto simp: cs_def member_changes_def)
  note unf = classify_leaf_update_def [of p leaf k js nv] st(1)
  consider (P) j0 where "filter pres js = [j0]" "j0 \<in> set js" "pf_keys p ! j0 = k"
    | (N) "filter pres js = []" "k \<notin> (\<lambda>j. pf_keys p ! j) ` set js"
    using present_unique [OF js] unfolding pres_def k_def by blast
  then have "\<exists>r. classify_leaf_update p leaf k js nv = Inr r \<and> classified k es (apply_commits es cs) r"
  proof cases
    case P
    have w: "cs_witness st = Some (nv j0)" using st(3) P(1) by simp
    have j0: "j = j0" if "j \<in> set js" "pres j" for j
    proof -
      have "j \<in> set (filter pres js)" using that by simp
      then show ?thesis by (simp add: P(1))
    qed
    have k0: "(k, nv j0) \<in> set cs" using cs P(2,3) by blast
    then have Y1: "set (apply_commits es cs) = set (filter live cs)"
      by (force simp: set_apply_commits es)
    have Y2: "set (filter live cs) = (if nv j0 = EMPTY_HASH then {} else {(k, nv j0)})"
      if ns: "\<not> cs_synthesis st"
    proof -
      have "c = (k, nv j0)" if mem: "c \<in> set cs" "live c" for c
      proof -
        obtain j where j: "j \<in> set js" "c = (pf_keys p ! j, nv j)"
          using mem(1) unfolding cs_def member_changes_def by auto
        then have "pres j" using ns st(4) mem(2) by (auto simp: live_def)
        then show ?thesis using j j0 P(3) by simp
      qed
      then have "set (filter live cs) \<subseteq> {(k, nv j0)}" by (simp only: set_filter) blast
      moreover have "(k, nv j0) \<in> set (filter live cs) \<longleftrightarrow> nv j0 \<noteq> EMPTY_HASH"
        using k0 by (simp add: live_def)
      ultimately show ?thesis using subset_singletonD by force
    qed
    have c0: "\<not> cs_change st \<Longrightarrow> nv j0 = v \<and> \<not> cs_synthesis st" using st(4,5) P(2,3) key by auto
    define r where "r = (if \<not> cs_change st then (Unchanged, filter live cs)
      else if cs_synthesis st then (Multiple, sort_key fst (filter live cs)) else (Single (nv j0), filter live cs))"
    have "classify_leaf_update p leaf k js nv = Inr r" by (simp add: unf st(2) w r_def)
    moreover have "classified k es (apply_commits es cs) r"
      using Y2 c0 sort_key_sorted [of "filter live cs"] d
      by (cases "cs_change st"; cases "cs_synthesis st")
        (simp_all add: classified_def r_def Y1 distinct_map_filter set_es)
    ultimately show ?thesis by blast
  next
    case N
    have w: "cs_witness st = None" using st(3) N(1) by simp
    have np: "\<not> pres j" if "j \<in> set js" for j using N(1) that by (simp add: filter_empty_conv)
    then have cc: "cs_change st \<longleftrightarrow> cs_synthesis st" using st(4,5) by auto
    have "k \<notin> fst ` set cs" using N(2) by (auto simp: cs_def member_changes_def)
    then have Y: "set (apply_commits es cs) = set (filter live cs) \<union> set es"
      by (auto simp: set_apply_commits es live_def)
    have e: "\<not> cs_synthesis st \<Longrightarrow> filter live cs = []" using st(4) np by (auto simp: filter_empty_conv live_def cs)
    have "distinct (map fst (filter live cs @ es))"
      using d \<open>k \<notin> fst ` set cs\<close> by (auto simp: distinct_map_filter es)
    note srt = sort_key_sorted [OF this]
    define r where "r = (if \<not> cs_synthesis st then (Unchanged, filter live cs)
      else (Multiple, sort_key fst (filter live cs @ es)))"
    have "classify_leaf_update p leaf k js nv = Inr r" using cc by (simp add: unf st(2) w r_def es v_def)
    moreover have "classified k es (apply_commits es cs) r"
      using e srt by (cases "cs_synthesis st") (simp_all add: classified_def r_def Y)
    ultimately show ?thesis by blast
  qed
  then show ?thesis by (simp add: k_def)
qed

lemma leaf_pair_ok:
  fixes nv :: "nat \<Rightarrow> hash"
  assumes i: "i < length (pf_leaves p)" "\<not> dangling p i"
    and q: "canon_pos q" "level q = pl_depth (pf_leaves p ! i)" "on_path q (leaf_key_at p i)"
    and js: "members_ok p i js"
  shows "leaf_pair H p i js nv = Inr (leaf_prev H p i,
    spec_summary H (DEPTH - pl_depth (pf_leaves p ! i)) (apply_commits (leaf_entries p i) (member_changes p nv js)))"
proof -
  define leaf k cs es where "leaf = pf_leaves p ! i" and "k = leaf_key_at p i"
    and "cs = member_changes p nv js" and "es = leaf_entries p i"
  let ?n = "DEPTH - pl_depth leaf" and ?ys = "apply_commits es cs"
  have lvl: "level q + ?n = DEPTH" using q(1,2) by (simp add: canon_pos_def leaf_def)
  have lk: "leaf_key p leaf = Inr k"
    using i(2) by (simp add: leaf_key_def pf_key_def k_def leaf_key_at_def dangling_def leaf_def)
  have fc: "fits q cs"
    using js q by (auto simp: fits_def cs_def member_changes_def members_ok_def comp_def on_path_def
        near_leaf_def agree_def)
  have fe: "fits q es" using q(3) by (simp add: es_def leaf_entries_def fits_def)
  have fy: "fits q ?ys" by (rule fits_apply_commits [OF fe fc])
  obtain u buf where r: "classify_leaf_update p leaf k js nv = Inr (u, buf)" "classified k es ?ys (u, buf)"
    using classify_spec [OF js, of nv] unfolding leaf_def k_def cs_def es_def by auto
  have same: "spec_summary H ?n ?ys = spec_summary H ?n zs" if "set ?ys = set zs" "distinct (map fst zs)" for zs
    by (rule spec_summary_set [OF fits_distinct [OF fy] that(2,1)])
  have "(case u of Unchanged \<Rightarrow> Inr (leaf_prev H p i) | Single value \<Rightarrow> Inr (hn_leaf H k value)
      | Multiple \<Rightarrow> subtree_hash H buf (pl_depth leaf)) = Inr (spec_summary H ?n ?ys)"
  proof (cases u)
    case Unchanged
    then show ?thesis
      using r(2) same [of es] fits_distinct [OF fe] leaf_entries_summary [of H p i ?n]
      by (simp add: classified_def es_def)
  next
    case (Single w)
    then show ?thesis
      using r(2) same [of "if w = EMPTY_HASH then [] else [(k, w)]"]
      by (auto simp: classified_def hn_leaf_def)
  next
    case Multiple
    then have b: "set ?ys = set buf" "key_sorted buf" using r(2) by (simp_all add: classified_def)
    have "fits q buf" using fy b(1) key_sorted_distinct [OF b(2)] by (simp add: fits_def)
    moreover have "list_all live buf" unfolding list_all_iff b(1) [symmetric] by (auto simp: set_apply_commits)
    ultimately show ?thesis
      using Multiple subtree_hash_spec [OF _ q(1) b(2) _ lvl, of H] same [OF b(1) key_sorted_distinct [OF b(2)]] q(2)
      by (simp add: leaf_def)
  qed
  then show ?thesis
    using i(1) lk r(1) by (simp add: leaf_pair_def pf_leaf_def leaf_def k_def cs_def es_def
        leaf_prev_def Let_def cong: leaf_update.case_cong)
qed


subsection \<open>From the walk to the tree\<close>

lemma proof_tree_leaves:
  "proof_tree p start stop lvl c t c' \<Longrightarrow> start \<le> stop \<Longrightarrow> tree_leaves t = [start..<stop]"
proof (induction rule: proof_tree.induct)
  case (pt_leaf start stop lvl c)
  then have "stop = Suc start"
    by (auto simp: stop_kind_def at_shortcut_depth_def lift_err_def split: if_splits sum.splits)
  then show ?case by simp
next
  case (pt_split start stop lvl c c1 mid l c2 r c3)
  have "mid = start + partition_point (\<lambda>i. \<not> get_msb (leaf_key_at p i) lvl) [start..<stop]"
    using pt_split.hyps(4) by (auto simp: split_point_def split: if_splits)
  then have "start \<le> mid" "mid \<le> stop"
    using partition_point_le [of "\<lambda>i. \<not> get_msb (leaf_key_at p i) lvl" "[start..<stop]"] pt_split.prems
    by simp_all
  then show ?case
    using pt_split.IH upt_add_eq_append [of start mid "stop - mid"] by simp
qed simp_all

lemma eval_tree_tval:
  "(\<And>i. i \<in> set (tree_leaves t) \<Longrightarrow> f i = Inr (g i)) \<Longrightarrow> eval_tree H f t = Inr (tval H g t)"
  by (induction t) auto

lemma shaped_pos:
  "shaped H p t pos \<Longrightarrow> canon_pos pos \<Longrightarrow> i \<in> set (tree_leaves t) \<Longrightarrow>
    \<exists>q. canon_pos q \<and> level q = pl_depth (pf_leaves p ! i) \<and> on_path q (leaf_key_at p i)"
proof (induction t arbitrary: pos)
  case (PSplit l r)
  then show ?case using canon_pos_child [OF PSplit.prems(2)] by auto
next
  case (PSide g sib t)
  then show ?case using canon_pos_child [OF PSide.prems(2)] by (cases g) auto
qed auto

definition summary_form :: "hasher \<Rightarrow> hashed_node \<Rightarrow> bool" where
  "summary_form H h \<longleftrightarrow> h = hn_empty \<or> (\<exists>ps. h = hn_new LEAF (H [LEAF] ps))
    \<or> (\<exists>a b ps. h = hn_new INTERNAL (H [INTERNAL, a, b] ps))"

lemma summary_form_eq:
  assumes "ideal_hash H" "summary_form H a" "summary_form H b" "hn_hash a = hn_hash b"
  shows "a = b"
proof -
  have z: "H d ps \<noteq> EMPTY_HASH" "EMPTY_HASH \<noteq> H d ps" for d ps
    using assms(1) unfolding ideal_hash_def by metis+
  have i: "H d ps = H d' ps' \<Longrightarrow> d = d'" for d ps d' ps'
    using assms(1) unfolding ideal_hash_def collision_free_def by blast
  show ?thesis
    using assms(2-4) z unfolding summary_form_def by (auto dest!: i)
qed

lemma combine_form: "no_promotion a b \<Longrightarrow> summary_form H (combine H a b)"
  by (auto simp: combine_def hn_internal_def no_promotion_def summary_form_def)

lemma summary_form_simps: "summary_form H hn_empty" "summary_form H (hn_leaf H k v)"
  by (auto simp: summary_form_def hn_leaf_def)

lemma tval_form: "shaped H p t pos \<Longrightarrow> summary_form H (tval H (leaf_prev H p) t)"
  by (cases t) (auto simp: combine_form combine_with_sibling_def summary_form_simps leaf_prev_def)

lemma spec_no_promotion:
  assumes "fits pos ys" "canon_pos pos" "level pos + Suc m = DEPTH" "2 \<le> length ys"
  shows "no_promotion (spec_summary H m (left_half pos ys)) (spec_summary H m (right_half pos ys))"
  using assms(4) halves_length [of pos ys] by (auto simp: no_promotion_def halves_kinds [OF assms(1-3)])

lemma spec_summary_form:
  assumes "fits pos xs" "canon_pos pos" "level pos + n = DEPTH" "list_all live xs"
  shows "summary_form H (spec_summary H n xs)"
proof (cases xs rule: length_cases_012)
  case (one x)
  then show ?thesis using assms(4) by (auto simp: summary_form_def hn_leaf_def live_def)
next
  case more
  then obtain m where n: "n = Suc m" using fits_full [OF assms(1)] assms(3) by (cases n) force+
  show ?thesis
    unfolding n combine_spec [OF assms(1,2) assms(3) [unfolded n], symmetric]
    by (rule combine_form, rule spec_no_promotion [OF assms(1,2) assms(3) [unfolded n] more])
qed (simp add: summary_form_simps)

subsection \<open>The members of a checked proof\<close>

definition all_members_ok :: "smt_proof \<Rightarrow> bool" where
  "all_members_ok p \<longleftrightarrow> (\<forall>j < length (pf_memberships p). is_ok (pf_member p j))"

lemma pf_member_Inr:
  assumes "pf_member p j = Inr m" "j < length (pf_memberships p)"
  defines "i \<equiv> leaf_pos_of (pf_memberships p ! j)"
  shows "j < length (pf_keys p)" "i < length (pf_leaves p)" "\<not> dangling p i"
    "is_present (pf_memberships p ! j) \<longleftrightarrow> pf_keys p ! j = leaf_key_at p i"
    "\<not> is_present (pf_memberships p ! j) \<Longrightarrow> shares_prefix (pf_keys p ! j) (leaf_key_at p i) (pl_depth (pf_leaves p ! i))"
    "member_value_hash m = (if is_present (pf_memberships p ! j) then pl_value_hash (pf_leaves p ! i) else EMPTY_HASH)"
  using assms
  by (auto simp: pf_member_def member_present_def member_absent_def pf_key_def pf_leaf_def leaf_key_def
      dangling_def leaf_key_at_def member_value_hash_def split: membership.splits if_splits)

lemma queried_keys_inj:
  assumes "check_sorted_queried_keys p = Inr ()"
  shows "length (pf_memberships p) \<le> length (pf_keys p)"
    and "distinct (map (\<lambda>j. pf_keys p ! j) [0..<length (pf_memberships p)])"
proof -
  let ?n = "length (pf_memberships p)"
  show le: "?n \<le> length (pf_keys p)"
    using assms by (auto simp: check_sorted_queried_keys_def Let_def split: if_splits)
  have "adjacent (<) (take ?n (pf_keys p))"
    using assms by (auto simp: check_sorted_queried_keys_def Let_def split: if_splits)
  then have "sorted_wrt (<) (take ?n (pf_keys p))" by (simp add: adjacent_sorted_wrt)
  then have "distinct (take ?n (pf_keys p))" by (simp add: strict_sorted_iff)
  moreover have "map (\<lambda>j. pf_keys p ! j) [0..<?n] = take ?n (pf_keys p)"
    using le by (intro nth_equalityI) simp_all
  ultimately show "distinct (map (\<lambda>j. pf_keys p ! j) [0..<?n])" by simp
qed

lemma group_members_ok:
  assumes sorted: "check_sorted_queried_keys p = Inr ()" and mem: "all_members_ok p"
    and len: "\<forall>k \<in> set (pf_keys p). length k = 32" and d: "pl_depth (pf_leaves p ! i) \<le> DEPTH"
  shows "members_ok p i (group (pf_memberships p) (length (pf_memberships p)) i)"
proof -
  let ?ms = "pf_memberships p" and ?js = "group (pf_memberships p) (length (pf_memberships p)) i"
  have dist: "distinct (map (\<lambda>j. pf_keys p ! j) ?js)"
    using queried_keys_inj(2) [OF sorted] unfolding group_def by (rule distinct_map_filter)
  have "j < length (pf_keys p) \<and> length (pf_keys p ! j) = 32 \<and> near_leaf p i (pf_keys p ! j)
      \<and> (is_present (?ms ! j) \<longleftrightarrow> pf_keys p ! j = leaf_key_at p i)" if "j \<in> set ?js" for j
  proof -
    have j: "j < length ?ms" "leaf_pos_of (?ms ! j) = i" using that by (auto simp: group_def)
    then obtain m where m: "pf_member p j = Inr m" using mem by (auto simp: all_members_ok_def is_ok_iff)
    note f = pf_member_Inr [OF m j(1), unfolded j(2)]
    have k: "length (pf_keys p ! j) = 32" "length (leaf_key_at p i) = 32"
      using len f(1,3) by (simp_all add: leaf_key_at_def dangling_def)
    have "near_leaf p i (pf_keys p ! j)"
    proof (cases "is_present (?ms ! j)")
      case True
      then show ?thesis using f(4) by (simp add: near_leaf_def agree_def)
    next
      case False
      then show ?thesis
        using f(5) k d by (auto simp: near_leaf_def agree_def DEPTH_def shares_prefix_iff)
    qed
    then show ?thesis using f(1,4) k by simp
  qed
  then show ?thesis using dist by (simp add: members_ok_def)
qed


definition queried_changes :: "smt_proof \<Rightarrow> (nat \<Rightarrow> hash) \<Rightarrow> commitment list" where
  "queried_changes p nv = member_changes p nv [0..<length (pf_memberships p)]"

definition well_shaped :: "hasher \<Rightarrow> smt_proof \<Rightarrow> bool" where
  "well_shaped H p \<longleftrightarrow>
    (\<exists>t c. proof_tree p 0 (length (pf_leaves p)) 0 (0, 0) t c \<and> shaped H p t ROOT)"

text \<open>All checks the verifier makes before it uses the roots.\<close>

definition proof_checked :: "smt_proof \<Rightarrow> bool" where
  "proof_checked p \<longleftrightarrow>
    (\<forall>k \<in> set (pf_keys p). length k = 32) \<and> check_sorted_queried_keys p = Inr () \<and> all_members_ok p"

lemma apply_commits_cong_set:
  assumes "set cs = set ds"
  shows "set (apply_commits xs cs) = set (apply_commits xs ds)"
  using assms by (intro set_eqI) (auto simp: set_apply_commits)

lemma group_changes_set:
  assumes "all_members_ok p"
  shows "set (concat (map (\<lambda>i. member_changes p nv (group (pf_memberships p) (length (pf_memberships p)) i))
      [0..<length (pf_leaves p)])) = set (queried_changes p nv)"
proof -
  have "leaf_pos_of (pf_memberships p ! j) < length (pf_leaves p)" if j: "j < length (pf_memberships p)" for j
  proof -
    obtain m where "pf_member p j = Inr m"
      using assms j unfolding all_members_ok_def is_ok_iff by blast
    then show ?thesis using pf_member_Inr(2) j by blast
  qed
  then show ?thesis by (force simp: member_changes_def queried_changes_def group_def)
qed

lemma walk_values:
  assumes H: "ideal_hash H" and xs: "fits ROOT xs" "list_all live xs"
    and tree: "proof_tree p 0 (length (pf_leaves p)) 0 (0, 0) t c" "shaped H p t ROOT"
    and chk: "proof_checked p" and root: "pf_root H p = Inr (spec_root H xs)"
  defines "ms \<equiv> pf_memberships p"
  defines "ch \<equiv> \<lambda>nv i. member_changes p nv (group ms (length ms) i)"
  defines "g \<equiv> \<lambda>nv i. spec_summary H (DEPTH - pl_depth (pf_leaves p ! i)) (apply_commits (leaf_entries p i) (ch nv i))"
  shows "tree_leaves t = [0..<length (pf_leaves p)]"
    and "tval H (leaf_prev H p) t = spec_summary H DEPTH xs"
    and "i < length (pf_leaves p) \<Longrightarrow> leaf_pair H p i (group ms (length ms) i) nv = Inr (leaf_prev H p i, g nv i)"
    and "tree_ok H p (ch nv) (g nv) DEPTH ROOT xs t"
proof -
  show lv: "tree_leaves t = [0..<length (pf_leaves p)]" by (rule proof_tree_leaves [OF tree(1)]) simp
  have leaf: "\<not> dangling p i \<and> pl_depth (pf_leaves p ! i) \<le> DEPTH" if "i < length (pf_leaves p)" for i
    using shaped_leaf [OF tree(2), of i] that lv by simp
  have "eval_tree H (leaf_hash H p) t = Inr (tval H (leaf_prev H p) t)"
    using leaf lv by (intro eval_tree_tval)
      (simp add: leaf_hash_def pf_leaf_def leaf_key_def pf_key_def dangling_def leaf_prev_def leaf_key_at_def not_le)
  then have "hn_hash (tval H (leaf_prev H p) t) = hn_hash (spec_summary H DEPTH xs)"
    using root walk_eval [OF tree(1)] by (simp add: pf_root_def spec_root_def)
  then show tv: "tval H (leaf_prev H p) t = spec_summary H DEPTH xs"
    using summary_form_eq [OF H tval_form [OF tree(2)] spec_summary_form [OF xs(1) _ _ xs(2)]] by simp
  have mo: "members_ok p i (group ms (length ms) i)" if "i < length (pf_leaves p)" for i
    using group_members_ok [of p i] chk leaf [OF that] by (simp add: proof_checked_def ms_def)
  show lp: "leaf_pair H p i (group ms (length ms) i) nv = Inr (leaf_prev H p i, g nv i)"
    if i: "i < length (pf_leaves p)" for i nv
  proof -
    obtain q where "canon_pos q" "level q = pl_depth (pf_leaves p ! i)" "on_path q (leaf_key_at p i)"
      using shaped_pos [OF tree(2), of i] i lv by auto
    then show ?thesis
      unfolding g_def ch_def using leaf [OF i] i mo [OF i] by (intro leaf_pair_ok) auto
  qed
  have "changes_ok H p (ch nv) (g nv) i" if "i < length (pf_leaves p)" for i
    using mo [OF that] by (auto simp: changes_ok_def ch_def g_def member_changes_def members_ok_def comp_def)
  then show "tree_ok H p (ch nv) (g nv) DEPTH ROOT xs t"
    using H lv by (intro tree_sound [OF _ tree(2) _ _ xs tv]) (auto simp: ideal_hash_def)
qed

lemma roots_sound:
  assumes H: "ideal_hash H" and xs: "fits ROOT xs" "list_all live xs"
    and shape: "well_shaped H p" and chk: "proof_checked p" and root: "pf_root H p = Inr (spec_root H xs)"
  shows "compute_roots H p nv = Inr (spec_root H xs, spec_root H (apply_commits xs (queried_changes p nv)))"
proof -
  define ms where "ms = pf_memberships p"
  define ch where "ch = (\<lambda>i. member_changes p nv (group ms (length ms) i))"
  define g where "g = (\<lambda>i. spec_summary H (DEPTH - pl_depth (pf_leaves p ! i)) (apply_commits (leaf_entries p i) (ch i)))"
  obtain t c where tree: "proof_tree p 0 (length (pf_leaves p)) 0 (0, 0) t c" "shaped H p t ROOT"
    using shape by (auto simp: well_shaped_def)
  note wv = walk_values [OF H xs tree chk root]
  have lp: "leaf_pair H p i (mbl_at (members_by_leaf p) i) nv = Inr (leaf_prev H p i, g i)"
    if "i < length (pf_leaves p)" for i
    using wv(3) [OF that, of nv] that by (simp add: mbl_at_members_by_leaf ms_def g_def ch_def)
  let ?f = "\<lambda>i. leaf_pair H p i (mbl_at (members_by_leaf p) i) nv"
  have "eval_tree H (prev_fn ?f) t = Inr (tval H (leaf_prev H p) t)" "eval_tree H (post_fn ?f) t = Inr (tval H g t)"
    using lp wv(1) by (intro eval_tree_tval; simp add: prev_fn_def post_fn_def)+
  then have "walk_pair H p ?f 0 (length (pf_leaves p)) 0 (0, 0) = Inr ((tval H (leaf_prev H p) t, tval H g t), c)"
    by (rule walk_pair_eval [OF tree(1)])
  moreover have ok: "tree_ok H p ch g DEPTH ROOT xs t" using wv(4) [of nv] by (simp add: ch_def g_def ms_def)
  moreover have "spec_summary H DEPTH (apply_commits xs (concat (map ch (tree_leaves t))))
      = spec_summary H DEPTH (apply_commits xs (queried_changes p nv))"
  proof (rule spec_summary_set)
    have "distinct (map fst (queried_changes p nv))"
      using queried_keys_inj(2) [of p] chk by (simp add: queried_changes_def member_changes_def proof_checked_def comp_def)
    then show "distinct (map fst (apply_commits xs (queried_changes p nv)))"
      using xs(1) by (simp add: distinct_apply_commits fits_def)
    show "distinct (map fst (apply_commits xs (concat (map ch (tree_leaves t)))))"
      using ok xs(1) by (simp add: distinct_apply_commits fits_def tree_ok_def)
    have "set (concat (map ch (tree_leaves t))) = set (queried_changes p nv)"
      using group_changes_set [of p nv] chk wv(1) by (simp add: proof_checked_def ch_def ms_def)
    then show "set (apply_commits xs (concat (map ch (tree_leaves t)))) = set (apply_commits xs (queried_changes p nv))"
      by (rule apply_commits_cong_set)
  qed
  ultimately show ?thesis
    using wv(2) by (simp add: compute_roots_def Let_def tree_ok_def spec_root_def)
qed

definition lookup_hash :: "commitment list \<Rightarrow> bytes \<Rightarrow> hash" where
  "lookup_hash xs k = (case map_of xs k of None \<Rightarrow> EMPTY_HASH | Some v \<Rightarrow> v)"

lemma map_of_filter_key: "P k \<Longrightarrow> map_of (filter (\<lambda>x. P (fst x)) xs) k = map_of xs k"
  by (induction xs) auto

lemma members_sound:
  assumes H: "ideal_hash H" and xs: "fits ROOT xs" "list_all live xs"
    and shape: "well_shaped H p" and chk: "proof_checked p" and root: "pf_root H p = Inr (spec_root H xs)"
    and m: "pf_member p j = Inr m" and j: "j < length (pf_memberships p)"
  shows "member_value_hash m = lookup_hash xs (pf_keys p ! j)"
proof -
  let ?ms = "pf_memberships p" and ?k = "pf_keys p ! j"
  define i where "i = leaf_pos_of (?ms ! j)"
  obtain t c where tree: "proof_tree p 0 (length (pf_leaves p)) 0 (0, 0) t c" "shaped H p t ROOT"
    using shape by (auto simp: well_shaped_def)
  note wv = walk_values [OF H xs tree chk root] and f = pf_member_Inr [OF m j, folded i_def]
  have d: "pl_depth (pf_leaves p ! i) \<le> DEPTH" using shaped_leaf [OF tree(2), of i] wv(1) f(2) by simp
  have "filter (\<lambda>x. near_leaf p i (fst x)) xs = leaf_entries p i"
    using wv(1) wv(4) [of undefined] f(2) by (simp add: tree_ok_def)
  moreover have "members_ok p i (group ?ms (length ?ms) i)"
    using group_members_ok [of p i] chk d by (simp add: proof_checked_def)
  then have "near_leaf p i ?k" using j i_def by (auto simp: members_ok_def group_def)
  ultimately have "map_of xs ?k = map_of (leaf_entries p i) ?k" using map_of_filter_key by metis
  then show ?thesis
    using f(4,6) by (auto simp: lookup_hash_def leaf_entries_def)
qed

subsection \<open>A hash without collisions\<close>

text \<open>A self-delimiting encoding of the hashed parts satisfies the assumptions on the hash.\<close>

definition frame :: "bytes \<Rightarrow> bytes" where
  "frame bs = concat (map (\<lambda>b. [1, b]) bs) @ [0]"

definition framed_hash :: hasher where
  "framed_hash d ps = frame d @ concat (map frame ps) @ [2]"

lemma frame_prefix_free: "frame a @ r = frame b @ s \<Longrightarrow> a = b \<and> r = s"
proof (induction a arbitrary: b)
  case Nil
  then show ?case by (cases b) (auto simp: frame_def)
next
  case (Cons x a)
  then show ?case by (cases b) (auto simp: frame_def)
qed

lemma frames_prefix_free: "concat (map frame ps) @ [2] = concat (map frame qs) @ [2] \<Longrightarrow> ps = qs"
proof (induction ps arbitrary: qs)
  case Nil
  have "hd (frame q) \<noteq> 2 \<and> frame q \<noteq> []" for q by (cases q) (simp_all add: frame_def)
  then show ?case using Nil by (cases qs) (auto simp: hd_append append_eq_Cons_conv)
next
  case (Cons p ps)
  have "hd (frame q) \<noteq> 2 \<and> frame q \<noteq> []" for q by (cases q) (simp_all add: frame_def)
  then obtain q qs' where qs: "qs = q # qs'" using Cons.prems by (cases qs) (auto simp: append_eq_Cons_conv)
  then show ?case using Cons.prems Cons.IH [of qs'] frame_prefix_free [of p _ q] by auto
qed

lemma framed_hash_ideal: "ideal_hash framed_hash"
proof -
  have "last (framed_hash d ps) \<noteq> last EMPTY_HASH" for d ps by (simp add: framed_hash_def EMPTY_HASH_def)
  then have "framed_hash d ps \<noteq> EMPTY_HASH" for d ps by metis
  then show ?thesis
    unfolding ideal_hash_def collision_free_def
    using frame_prefix_free frames_prefix_free by (metis framed_hash_def)
qed

subsection \<open>Properties\<close>


definition one_leaf_proof :: "bytes \<Rightarrow> hash \<Rightarrow> smt_proof" where
  "one_leaf_proof k v =
    \<lparr>pf_keys = [k], pf_leaves = [\<lparr>pl_depth = 0, pl_key_idx = 0, pl_value_hash = v\<rparr>], pf_siblings = [],
     pf_topology = [], pf_memberships = [Present 0]\<rparr>"

lemma one_leaf_tree: "proof_tree (one_leaf_proof k v) 0 1 0 (0, 0) (PLeaf 0) (0, 0)"
  by (rule pt_leaf) (simp_all add: stop_kind_def at_shortcut_depth_def one_leaf_proof_def)

lemma one_leaf_shaped: "length k = 32 \<Longrightarrow> well_shaped H (one_leaf_proof k v)"
  unfolding well_shaped_def
  by (rule exI [of _ "PLeaf 0"], rule exI [of _ "(0, 0)"])
    (use one_leaf_tree [of k v] in \<open>simp add: one_leaf_proof_def dangling_def leaf_key_at_def ROOT_def on_path_def\<close>)


text \<open>A one-leaf proof that answers the query with an empty leaf beside the real one.\<close>

definition forged_proof :: "hasher \<Rightarrow> bytes \<Rightarrow> hash \<Rightarrow> smt_proof" where
  "forged_proof H k v =
    \<lparr>pf_keys = [k], pf_leaves = [\<lparr>pl_depth = 1, pl_key_idx = 0, pl_value_hash = EMPTY_HASH\<rparr>],
     pf_siblings = [hn_leaf H k v], pf_topology = [0], pf_memberships = [Present 0]\<rparr>"
text \<open>C20: the verifier's checks do not include the shape.  For every key whose first bit is set and
  every value there is a proof that passes all of them, has the root of the tree holding just that
  key and value, and reports the key as having no value: the one-sided step takes the leaf that
  answers the query for an empty subtree next to a leaf sibling and lets the sibling be promoted.\<close>

theorem forged_absence:
  assumes "length k = 32" "get_msb k 0" "v \<noteq> EMPTY_HASH"
  shows "proof_checked (forged_proof H k v)
    \<and> pf_root H (forged_proof H k v) = Inr (spec_root H [(k, v)])
    \<and> (\<exists>m. pf_member (forged_proof H k v) 0 = Inr m \<and> m_key m = k
        \<and> member_value_hash m = EMPTY_HASH \<and> lookup_hash [(k, v)] k = v)"
proof -
  let ?p = "forged_proof H k v"
  have t1: "proof_tree ?p 0 1 1 (1, 1) (PLeaf 0) (1, 1)"
    by (rule pt_leaf) (simp_all add: stop_kind_def at_shortcut_depth_def forged_proof_def)
  have t: "proof_tree ?p 0 1 0 (0, 0) (PSide False (hn_leaf H k v) (PLeaf 0)) (1, 1)"
  proof (rule pt_side)
    show "stop_kind ?p 0 1 0 = Inr False" by (simp add: stop_kind_def at_shortcut_depth_def forged_proof_def)
    show "next_topology_bit ?p (0, 0) = (False, (0, 1))" by (simp add: next_topology_bit_def forged_proof_def get_lsb_def)
    show "leaf_goes_left ?p 0 0 = Inr False"
      using assms(2) by (simp add: leaf_goes_left_def dangling_def leaf_key_at_def forged_proof_def)
    show "next_sibling ?p (0, 1) = Inr (hn_leaf H k v, (1, 1))" by (simp add: next_sibling_def forged_proof_def)
  qed (use t1 in simp_all)
  have leaf: "leaf_hash H ?p 0 = Inr hn_empty"
    by (simp add: leaf_hash_def pf_leaf_def leaf_key_def pf_key_def forged_proof_def hn_leaf_def)
  have "combine_with_sibling H hn_empty (hn_leaf H k v) False = hn_leaf H k v"
    using assms(3) by (simp add: combine_with_sibling_def combine_def hn_leaf_def)
  then have "walk H ?p (leaf_hash H ?p) 0 1 0 (0, 0) = Inr (hn_leaf H k v, (1, 1))"
    using leaf by (intro walk_eval [OF t]) simp
  then have "pf_root H ?p = Inr (spec_root H [(k, v)])"
    by (simp add: pf_root_def forged_proof_def spec_root_def)
  moreover have "pf_member ?p 0 =
      Inr \<lparr>m_key = k, m_leaf = \<lparr>pl_depth = 1, pl_key_idx = 0, pl_value_hash = EMPTY_HASH\<rparr>, m_absent = False\<rparr>"
    by (simp add: forged_proof_def pf_member_def member_present_def pf_key_def pf_leaf_def leaf_key_def)
  moreover have "proof_checked ?p"
    using assms(1) by (simp add: proof_checked_def check_sorted_queried_keys_def all_members_ok_def
        pf_member_def member_present_def pf_key_def pf_leaf_def leaf_key_def forged_proof_def)
  ultimately show ?thesis by (simp add: member_value_hash_def lookup_hash_def)
qed

theorem forged_absence_witness:
  "pf_root framed_hash (forged_proof framed_hash (replicate 32 0x80) [1])
    = Inr (spec_root framed_hash [(replicate 32 0x80, [1])])"
  using forged_absence [of "replicate 32 0x80" "[1]" framed_hash]
  by (simp add: get_msb_def EMPTY_HASH_def Cons_replicate_eq)

end
