(* ===== verification/SMT_Builder.thy ===== *)
theory SMT_Builder
  imports SMT_Sound "HOL-Library.Sublist"
begin

text \<open>
  The prover of \<open>core/smt/src/proving/proof_builder.rs\<close> and the topology bitfield it fills
  (\<open>topology.rs\<close>).  The read side is a function from positions to versioned nodes, what
  \<open>Tree::node\<close> returns for the captured snapshot and version.  Panics (an index out of
  range, the \<open>u16\<close> level overflowing, the \<open>unreachable!\<close> arm) are faults.

  The lemmas show completeness: on a tree that represents a set of entries, the proof built for
  distinct keys is well shaped in the sense of \<open>SMT_Sound\<close>, has the root of the entries, and
  classifies every key.
\<close>

subsection \<open>Topology bits\<close>

record topology =
  tp_bytes :: bytes
  tp_len :: nat

definition topology_push :: "topology \<Rightarrow> bool \<Rightarrow> topology" where
  "topology_push t b =
    (let bytes = (if tp_len t mod 8 = 0 then tp_bytes t @ [0] else tp_bytes t);
         bytes = (if b then set_lsb bytes (tp_len t) else bytes)
     in \<lparr>tp_bytes = bytes, tp_len = tp_len t + 1\<rparr>)"

subsection \<open>The builder\<close>

record proof_builder =
  b_keys :: "bytes list"
  b_key_to_idx :: "bytes \<rightharpoonup> nat"
  b_leaves :: "proof_leaf list"
  b_siblings :: "hashed_node list"
  b_topology :: topology
  b_sorted_to_leaf :: "nat list"

type_synonym node_reader = "smt_key \<Rightarrow> (nat \<times> node) option"

primrec seed_keys :: "bytes list \<Rightarrow> nat \<Rightarrow> proof_builder \<Rightarrow> proof_builder" where
  "seed_keys [] i b = b"
| "seed_keys (key # keys) i b =
    seed_keys keys (i + 1)
      (b\<lparr>b_keys := b_keys b @ [key], b_key_to_idx := (b_key_to_idx b)(key \<mapsto> i mod 2 ^ 32)\<rparr>)"

definition builder_new :: "bytes list \<Rightarrow> proof_builder" where
  "builder_new keys_input =
    seed_keys keys_input 0
      \<lparr>b_keys = [], b_key_to_idx = Map.empty, b_leaves = [], b_siblings = [],
       b_topology = \<lparr>tp_bytes = [], tp_len = 0\<rparr>, b_sorted_to_leaf = replicate (length keys_input) 0\<rparr>"

definition intern_key :: "proof_builder \<Rightarrow> bytes \<Rightarrow> nat \<times> proof_builder" where
  "intern_key b key =
    (case b_key_to_idx b key of
       Some idx \<Rightarrow> (idx, b)
     | None \<Rightarrow>
        (let idx = length (b_keys b) mod 2 ^ 32 in
         (idx, b\<lparr>b_keys := b_keys b @ [key], b_key_to_idx := (b_key_to_idx b)(key \<mapsto> idx)\<rparr>)))"

definition emit_leaf ::
  "proof_builder \<Rightarrow> bytes \<Rightarrow> hash \<Rightarrow> nat \<Rightarrow> nat \<Rightarrow> nat \<Rightarrow> fault + proof_builder" where
  "emit_leaf b key value_hash depth from to =
    (let (key_idx, b) = intern_key b key;
         leaf_pos = length (b_leaves b) mod 2 ^ 32;
         b = b\<lparr>b_leaves := b_leaves b @
           [\<lparr>pl_depth = depth, pl_key_idx = key_idx, pl_value_hash = value_hash\<rparr>]\<rparr>
     in if length (b_sorted_to_leaf b) < to then Inl (Panic ''range end index out of range'')
        else Inr (b\<lparr>b_sorted_to_leaf :=
          take from (b_sorted_to_leaf b) @ replicate (to - from) leaf_pos @ drop to (b_sorted_to_leaf b)\<rparr>))"

definition push_bit_b :: "bool \<Rightarrow> proof_builder \<Rightarrow> proof_builder" where
  "push_bit_b x b = b\<lparr>b_topology := topology_push (b_topology b) x\<rparr>"

definition push_sibling :: "hashed_node \<Rightarrow> proof_builder \<Rightarrow> proof_builder" where
  "push_sibling s b = b\<lparr>b_siblings := b_siblings b @ [s]\<rparr>"

definition child_summary :: "node_reader \<Rightarrow> smt_key \<Rightarrow> hashed_node" where
  "child_summary f node_key = (case f node_key of Some (_, d) \<Rightarrow> hn_of_node d | None \<Rightarrow> hn_empty)"

function collect_empty ::
  "proof_builder \<Rightarrow> bytes list \<Rightarrow> nat \<Rightarrow> nat \<Rightarrow> fault + proof_builder" where
  "collect_empty b input_keys lvl offset =
    (if length input_keys = 1 then emit_leaf b (input_keys ! 0) EMPTY_HASH lvl offset (offset + 1)
     else if 2 ^ 16 \<le> lvl + 1 then Inl (Panic ''attempt to add with overflow'')
     else
       (let mid = partition_point (\<lambda>k. \<not> get_msb k lvl) input_keys in
        if 0 < mid \<and> mid < length input_keys then
          rbind (collect_empty (push_bit_b True b) (take mid input_keys) (lvl + 1) offset) (\<lambda>b.
          collect_empty b (drop mid input_keys) (lvl + 1) (offset + mid))
        else
          collect_empty (push_sibling hn_empty (push_bit_b False b)) input_keys (lvl + 1) offset))"
  by pat_completeness auto
termination
  by (relation "measure (\<lambda>(_, _, lvl, _). 2 ^ 16 - lvl)") auto

declare collect_empty.simps [simp del]

function (sequential)
  collect :: "node_reader \<Rightarrow> proof_builder \<Rightarrow> smt_key \<Rightarrow> bytes list \<Rightarrow> nat \<Rightarrow> fault + proof_builder"
and collect_internal ::
  "node_reader \<Rightarrow> proof_builder \<Rightarrow> smt_key \<Rightarrow> bytes list \<Rightarrow> nat \<Rightarrow> fault + proof_builder"
where
  "collect f b key input_keys offset =
    (if input_keys = [] then Inr b
     else case f key of
       None \<Rightarrow> collect_empty b input_keys (level key) offset
     | Some (_, NodeEmpty) \<Rightarrow> collect_empty b input_keys (level key) offset
     | Some (_, NodeLeaf lk value_hash _) \<Rightarrow>
         emit_leaf b lk value_hash (level key) offset (offset + length input_keys)
     | Some (_, NodeInternal _) \<Rightarrow> collect_internal f b key input_keys offset)"
| "collect_internal f b key input_keys offset =
    (let mid = partition_point (\<lambda>k. \<not> get_msb k (level key)) input_keys;
         left_keys = take mid input_keys;
         right_keys = drop mid input_keys
     in if 2 ^ 16 \<le> level key + 1 then Inl (Panic ''attempt to add with overflow'')
        else if left_keys \<noteq> [] \<and> right_keys \<noteq> [] then
          rbind (collect f (push_bit_b True b) (left_child key) left_keys offset) (\<lambda>b.
          collect f b (right_child key) right_keys (offset + mid))
        else if left_keys = [] \<and> right_keys \<noteq> [] then
          collect f (push_sibling (child_summary f (left_child key)) (push_bit_b False b))
            (right_child key) right_keys offset
        else if left_keys \<noteq> [] \<and> right_keys = [] then
          collect f (push_sibling (child_summary f (right_child key)) (push_bit_b False b))
            (left_child key) left_keys offset
        else Inl (Panic ''internal error: entered unreachable code''))"
  by pat_completeness auto
termination
  by (relation "measure (\<lambda>x. case x of
      Inl (_, _, k, _) \<Rightarrow> 2 * (2 ^ 16 - level k) + 1
    | Inr (_, _, k, _) \<Rightarrow> 2 * (2 ^ 16 - level k))") (auto simp: left_child_def right_child_def)

declare collect.simps [simp del] collect_internal.simps [simp del]

definition classify_one ::
  "proof_builder \<Rightarrow> nat \<times> nat \<Rightarrow> membership list \<Rightarrow> fault + membership list" where
  "classify_one b =
    (\<lambda>(sorted_pos, idx) ms.
      if length (b_sorted_to_leaf b) \<le> sorted_pos then Inl (Panic ''index out of bounds'')
      else let leaf_pos = b_sorted_to_leaf b ! sorted_pos in
        if length (b_leaves b) \<le> leaf_pos \<or> length ms \<le> idx then Inl (Panic ''index out of bounds'')
        else Inr (ms[idx := if pl_key_idx (b_leaves b ! leaf_pos) = idx then Present leaf_pos
                            else Absent leaf_pos]))"

definition classify_memberships :: "proof_builder \<Rightarrow> nat list \<Rightarrow> fault + membership list" where
  "classify_memberships b order =
    fold_r (classify_one b) (enumerate 0 order) (replicate (length order) (Absent 0))"

definition built_proof :: "proof_builder \<Rightarrow> membership list \<Rightarrow> smt_proof" where
  "built_proof b ms =
    \<lparr>pf_keys = b_keys b, pf_leaves = b_leaves b, pf_siblings = b_siblings b,
     pf_topology = tp_bytes (b_topology b), pf_memberships = ms\<rparr>"

definition build :: "node_reader \<Rightarrow> bytes list \<Rightarrow> fault + bytes" where
  "build f keys_input =
    rbind (lift_err (sort_unique keys_input)) (\<lambda>(sorted_keys, order).
    rbind (collect f (builder_new keys_input) ROOT sorted_keys 0) (\<lambda>b.
    rbind (classify_memberships b order) (\<lambda>ms.
    Inr (proof_encode (built_proof b ms)))))"

subsection \<open>Topology and key table\<close>

definition topo_ok :: "topology \<Rightarrow> bool" where
  "topo_ok t \<longleftrightarrow> length (tp_bytes t) = (tp_len t + 7) div 8 \<and> (\<forall>i \<ge> tp_len t. \<not> get_lsb (tp_bytes t) i)"

lemma get_lsb_snoc0: "get_lsb (bs @ [0]) i = get_lsb bs i"
  by (auto simp: get_lsb_bit nth_append)

lemma topology_push_ok:
  assumes "topo_ok t"
  shows "topo_ok (topology_push t x)" "tp_len (topology_push t x) = tp_len t + 1"
    "get_lsb (tp_bytes (topology_push t x)) i = (if i = tp_len t then x else get_lsb (tp_bytes t) i)"
proof -
  define bs where "bs = (if tp_len t mod 8 = 0 then tp_bytes t @ [0] else tp_bytes t)"
  have len: "length bs = (tp_len t + 8) div 8"
  proof -
    have "(n + 7) div 8 = (if n mod 8 = 0 then n div 8 else Suc (n div 8))" for n :: nat by (simp; arith)
    then show ?thesis using assms by (auto simp: bs_def topo_ok_def)
  qed
  have lsb: "get_lsb bs i = get_lsb (tp_bytes t) i" for i by (simp add: bs_def get_lsb_snoc0)
  have push: "topology_push t x = \<lparr>tp_bytes = if x then set_lsb bs (tp_len t) else bs, tp_len = tp_len t + 1\<rparr>"
    by (simp add: topology_push_def bs_def Let_def)
  have dv: "tp_len t div 8 < length bs" using len by simp
  have off: "\<not> get_lsb (tp_bytes t) i" if "tp_len t \<le> i" for i
    using assms that by (simp add: topo_ok_def)
  show bits: "get_lsb (tp_bytes (topology_push t x)) i = (if i = tp_len t then x else get_lsb (tp_bytes t) i)" for i
    using dv lsb off by (auto simp: push get_lsb_set_lsb)
  show "tp_len (topology_push t x) = tp_len t + 1" by (simp add: push)
  show "topo_ok (topology_push t x)"
    unfolding topo_ok_def using bits off len by (auto simp: push)
qed

definition table_ok :: "proof_builder \<Rightarrow> bool" where
  "table_ok b \<longleftrightarrow> (\<forall>k i. b_key_to_idx b k = Some i \<longleftrightarrow> i < length (b_keys b) \<and> b_keys b ! i = k)"

lemma table_ok_distinct: "table_ok b \<Longrightarrow> distinct (b_keys b)"
  unfolding table_ok_def distinct_conv_nth by (metis option.inject)

lemma table_ok_snoc:
  assumes "table_ok b" "k \<notin> set (b_keys b)"
  shows "table_ok (b\<lparr>b_keys := b_keys b @ [k], b_key_to_idx := (b_key_to_idx b)(k \<mapsto> length (b_keys b))\<rparr>)"
  using assms by (auto simp: table_ok_def nth_append less_Suc_eq in_set_conv_nth)

lemma table_ok_None: "table_ok b \<Longrightarrow> b_key_to_idx b k = None \<longleftrightarrow> k \<notin> set (b_keys b)"
  unfolding table_ok_def in_set_conv_nth by (metis not_None_eq)

definition builder_inv :: "proof_builder \<Rightarrow> bool" where
  "builder_inv b \<longleftrightarrow> topo_ok (b_topology b) \<and> table_ok b"

lemma seed_keys_ok:
  assumes "builder_inv b" "distinct (b_keys b @ keys)" "length (b_keys b) + length keys \<le> 2 ^ 32"
  shows "builder_inv (seed_keys keys (length (b_keys b)) b)
    \<and> b_keys (seed_keys keys (length (b_keys b)) b) = b_keys b @ keys
    \<and> b_leaves (seed_keys keys i b) = b_leaves b \<and> b_siblings (seed_keys keys i b) = b_siblings b
    \<and> b_topology (seed_keys keys i b) = b_topology b
    \<and> b_sorted_to_leaf (seed_keys keys i b) = b_sorted_to_leaf b"
  using assms
proof (induction keys arbitrary: b i)
  case (Cons k keys)
  define b1 where "b1 = b\<lparr>b_keys := b_keys b @ [k], b_key_to_idx := (b_key_to_idx b)(k \<mapsto> length (b_keys b))\<rparr>"
  have inv: "builder_inv b1"
    using Cons.prems table_ok_snoc [of b k] by (simp add: builder_inv_def b1_def)
  have len: "length (b_keys b) mod 2 ^ 32 = length (b_keys b)" using Cons.prems(3) by simp
  have "distinct (b_keys b1 @ keys)" "length (b_keys b1) + length keys \<le> 2 ^ 32"
    using Cons.prems by (auto simp: b1_def)
  note IH = Cons.IH [OF inv this]
  have "seed_keys (k # keys) (length (b_keys b)) b = seed_keys keys (length (b_keys b1)) b1"
    using len by (simp add: b1_def)
  moreover have "b_leaves (seed_keys keys i b2) = b_leaves b2 \<and> b_siblings (seed_keys keys i b2) = b_siblings b2
      \<and> b_topology (seed_keys keys i b2) = b_topology b2 \<and> b_sorted_to_leaf (seed_keys keys i b2) = b_sorted_to_leaf b2"
    for i b2 by (induction keys arbitrary: i b2) simp_all
  ultimately show ?case using IH by (simp add: b1_def)
qed simp

lemma builder_new_ok:
  assumes "distinct keys" "length keys \<le> 2 ^ 32"
  shows "builder_inv (builder_new keys)" "b_keys (builder_new keys) = keys" "b_leaves (builder_new keys) = []"
    "b_siblings (builder_new keys) = []" "tp_len (b_topology (builder_new keys)) = 0"
    "length (b_sorted_to_leaf (builder_new keys)) = length keys"
proof -
  define b where "b = \<lparr>b_keys = [] :: bytes list, b_key_to_idx = Map.empty, b_leaves = [], b_siblings = [],
       b_topology = \<lparr>tp_bytes = [], tp_len = 0\<rparr>, b_sorted_to_leaf = replicate (length keys) (0 :: nat)\<rparr>"
  have "builder_inv b" by (simp add: builder_inv_def topo_ok_def table_ok_def b_def get_lsb_def)
  note s = seed_keys_ok [OF this, of keys 0] and n = builder_new_def [of keys, folded b_def]
  show "builder_inv (builder_new keys)" "b_keys (builder_new keys) = keys" "b_leaves (builder_new keys) = []"
    "b_siblings (builder_new keys) = []" "tp_len (b_topology (builder_new keys)) = 0"
    "length (b_sorted_to_leaf (builder_new keys)) = length keys"
    using s assms by (simp_all add: n b_def)
qed

subsection \<open>Proofs that extend a builder\<close>

definition extends :: "smt_proof \<Rightarrow> proof_builder \<Rightarrow> bool" where
  "extends p b \<longleftrightarrow> prefix (b_keys b) (pf_keys p) \<and> prefix (b_leaves b) (pf_leaves p)
    \<and> prefix (b_siblings b) (pf_siblings p)
    \<and> (\<forall>i < tp_len (b_topology b). get_lsb (pf_topology p) i = get_lsb (tp_bytes (b_topology b)) i)"

definition grows :: "proof_builder \<Rightarrow> proof_builder \<Rightarrow> bool" where
  "grows b b' \<longleftrightarrow> extends (built_proof b' []) b \<and> tp_len (b_topology b) \<le> tp_len (b_topology b')"

lemma grows_refl: "grows b b"
  by (simp add: grows_def extends_def built_proof_def)

lemma extends_grows: "extends p b' \<Longrightarrow> grows b b' \<Longrightarrow> extends p b"
  by (auto simp: extends_def grows_def built_proof_def intro: prefix_order.trans)

lemma grows_trans: "grows a b \<Longrightarrow> grows b c \<Longrightarrow> grows a c"
  using extends_grows [of "built_proof c []" b a] by (auto simp: grows_def)

lemma grows_push:
  assumes "builder_inv b"
  shows "grows b (push_bit_b x b)" "builder_inv (push_bit_b x b)"
    "grows b (push_sibling s (push_bit_b x b))" "builder_inv (push_sibling s (push_bit_b x b))"
  using assms topology_push_ok [of "b_topology b" x]
  by (auto simp: grows_def extends_def built_proof_def push_bit_b_def push_sibling_def builder_inv_def
      table_ok_def)

definition b_cursor :: "proof_builder \<Rightarrow> cursor" where
  "b_cursor b = (length (b_siblings b), tp_len (b_topology b))"

lemma push_sel [simp]:
  "b_leaves (push_bit_b x b) = b_leaves b" "b_leaves (push_sibling s b) = b_leaves b"
  "b_keys (push_bit_b x b) = b_keys b" "b_keys (push_sibling s b) = b_keys b"
  "b_sorted_to_leaf (push_bit_b x b) = b_sorted_to_leaf b"
  "b_sorted_to_leaf (push_sibling s b) = b_sorted_to_leaf b"
  by (simp_all add: push_bit_b_def push_sibling_def)

lemma next_bit_pushed:
  assumes "builder_inv b" "extends p b1" "b1 = push_bit_b x b \<or> b1 = push_sibling s (push_bit_b x b)"
  shows "next_topology_bit p (b_cursor b) = (x, (length (b_siblings b), tp_len (b_topology b) + 1))"
proof -
  have t: "b_topology b1 = topology_push (b_topology b) x"
    using assms(3) by (auto simp: push_bit_b_def push_sibling_def)
  show ?thesis
    using assms(1,2) topology_push_ok [of "b_topology b" x]
    by (simp add: next_topology_bit_def b_cursor_def extends_def t builder_inv_def)
qed

lemma next_sibling_pushed:
  assumes "extends p (push_sibling s (push_bit_b x b))"
  shows "next_sibling p (length (b_siblings b), i) = Inr (s, (length (b_siblings b) + 1, i))"
  using assms by (auto simp: next_sibling_def extends_def push_sibling_def push_bit_b_def prefix_def)

subsection \<open>What collecting a subtree achieves\<close>

definition answered :: "proof_builder \<Rightarrow> bytes \<Rightarrow> nat \<Rightarrow> bool" where
  "answered b k i \<longleftrightarrow> i < length (b_leaves b) \<and> pl_key_idx (b_leaves b ! i) < length (b_keys b)
    \<and> agree (pl_depth (b_leaves b ! i)) (b_keys b ! pl_key_idx (b_leaves b ! i)) k"

lemma prefix_nth: "prefix xs ys \<Longrightarrow> i < length xs \<Longrightarrow> i < length ys \<and> ys ! i = xs ! i"
  by (auto simp: prefix_def nth_append)

lemma grows_sel:
  assumes "grows b b'"
  shows "prefix (b_keys b) (b_keys b')" "prefix (b_leaves b) (b_leaves b')"
  using assms by (auto simp: grows_def extends_def built_proof_def)

lemma answered_grows:
  assumes "answered b k i" "grows b b'"
  shows "answered b' k i"
  using assms(1) prefix_nth [OF grows_sel(1) [OF assms(2)]] prefix_nth [OF grows_sel(2) [OF assms(2)]]
  by (simp add: answered_def)

definition tree_built ::
  "hasher \<Rightarrow> proof_builder \<Rightarrow> proof_builder \<Rightarrow> smt_key \<Rightarrow> hashed_node \<Rightarrow> smt_proof \<Rightarrow> ptree \<Rightarrow> bool" where
  "tree_built H b b' pos s p t \<longleftrightarrow>
    proof_tree p (length (b_leaves b)) (length (b_leaves b')) (level pos) (b_cursor b) t (b_cursor b')
    \<and> shaped H p t pos \<and> tval H (leaf_prev H p) t = s"

definition collected ::
  "hasher \<Rightarrow> proof_builder \<Rightarrow> proof_builder \<Rightarrow> smt_key \<Rightarrow> bytes list \<Rightarrow> nat \<Rightarrow> hashed_node \<Rightarrow> bool" where
  "collected H b b' pos iks offset s \<longleftrightarrow>
    builder_inv b' \<and> grows b b'
    \<and> length (b_leaves b) < length (b_leaves b') \<and> length (b_leaves b') \<le> length (b_leaves b) + length iks
    \<and> length (b_keys b') \<le> length (b_keys b) + length iks
    \<and> length (b_sorted_to_leaf b') = length (b_sorted_to_leaf b)
    \<and> (\<forall>j. j < offset \<or> offset + length iks \<le> j \<longrightarrow> b_sorted_to_leaf b' ! j = b_sorted_to_leaf b ! j)
    \<and> (\<forall>j < length iks. answered b' (iks ! j) (b_sorted_to_leaf b' ! (offset + j)))
    \<and> (\<forall>k \<in> set (b_keys b'). k \<in> set (b_keys b) \<or> on_path pos k)
    \<and> (\<forall>p. extends p b' \<longrightarrow> (\<exists>t. tree_built H b b' pos s p t))"

definition room :: "proof_builder \<Rightarrow> bytes list \<Rightarrow> nat \<Rightarrow> bool" where
  "room b iks offset \<longleftrightarrow> length (b_keys b) + length iks \<le> 2 ^ 32 \<and> length (b_leaves b) + length iks \<le> 2 ^ 32
    \<and> offset + length iks \<le> length (b_sorted_to_leaf b)"

lemma intern_key_ok:
  assumes "builder_inv b" "length (b_keys b) < 2 ^ 32" "intern_key b k = (idx, b')"
  shows "builder_inv b'" "idx < length (b_keys b')" "b_keys b' ! idx = k" "b_leaves b' = b_leaves b"
    "b_siblings b' = b_siblings b" "b_topology b' = b_topology b" "b_sorted_to_leaf b' = b_sorted_to_leaf b"
    "b_keys b' = b_keys b \<or> b_keys b' = b_keys b @ [k]"
  using assms table_ok_snoc [of b k] table_ok_None [of b k]
  by (auto simp: intern_key_def Let_def builder_inv_def table_ok_def split: option.splits)

lemma emit_leaf_collected:
  assumes inv: "builder_inv b" and room: "room b iks offset" and ne: "iks \<noteq> []"
    and pos: "canon_pos pos" and key: "on_path pos k" and iks: "\<forall>x \<in> set iks. on_path pos x"
  shows "\<exists>b'. emit_leaf b k v (level pos) offset (offset + length iks) = Inr b'
    \<and> collected H b b' pos iks offset (hn_leaf H k v)"
proof -
  obtain idx b1 where ik: "intern_key b k = (idx, b1)" by (cases "intern_key b k")
  have "0 < length iks" using ne by simp
  then have lt: "length (b_keys b) < 2 ^ 32" "length (b_leaves b) < 2 ^ 32" using room unfolding room_def by linarith+
  have off: "offset < length (b_sorted_to_leaf b)" using room \<open>0 < length iks\<close> unfolding room_def by linarith
  note i1 = intern_key_ok [OF inv lt(1) ik]
  define lf where "lf = \<lparr>pl_depth = level pos, pl_key_idx = idx, pl_value_hash = v\<rparr>"
  define b' where "b' = b1\<lparr>b_leaves := b_leaves b @ [lf], b_sorted_to_leaf := take offset (b_sorted_to_leaf b)
     @ replicate (length iks) (length (b_leaves b)) @ drop (offset + length iks) (b_sorted_to_leaf b)\<rparr>"
  have e: "emit_leaf b k v (level pos) offset (offset + length iks) = Inr b'"
    using room lt(2) i1 by (simp add: emit_leaf_def ik Let_def b'_def lf_def room_def)
  have sel: "b_keys b' = b_keys b1" "b_leaves b' = b_leaves b @ [lf]" "b_siblings b' = b_siblings b"
    "b_topology b' = b_topology b"
    using i1 by (simp_all add: b'_def)
  have gr: "grows b b'" using i1(8) by (auto simp: grows_def extends_def built_proof_def sel)
  have an: "answered b' x (length (b_leaves b))" if "x \<in> set iks" for x
    using iks that key i1 by (auto simp: answered_def sel lf_def agree_def on_path_def)
  have s2l: "length (b_sorted_to_leaf b') = length (b_sorted_to_leaf b)"
    "\<forall>j. j < offset \<or> offset + length iks \<le> j \<longrightarrow> b_sorted_to_leaf b' ! j = b_sorted_to_leaf b ! j"
    "\<forall>j < length iks. b_sorted_to_leaf b' ! (offset + j) = length (b_leaves b)"
    using room off by (auto simp: b'_def room_def nth_append min_def)
  have tr: "tree_built H b b' pos (hn_leaf H k v) p (PLeaf (length (b_leaves b)))" if ex: "extends p b'" for p
  proof -
    let ?i = "length (b_leaves b)"
    have "prefix (b_leaves b @ [lf]) (pf_leaves p)" "prefix (b_keys b1) (pf_keys p)"
      using ex by (auto simp: extends_def sel)
    then have lf: "pf_leaves p ! ?i = lf" "?i < length (pf_leaves p)" "pf_keys p ! idx = k" "idx < length (pf_keys p)"
      using prefix_nth [of "b_leaves b @ [lf]" "pf_leaves p" ?i] prefix_nth [of "b_keys b1" "pf_keys p" idx] i1(2,3)
      by simp_all
    then have "leaf_key_at p ?i = k" "\<not> dangling p ?i" "stop_kind p ?i (Suc ?i) (level pos) = Inr True"
      by (simp_all add: leaf_key_at_def dangling_def stop_kind_def at_shortcut_depth_def lf_def)
    then show ?thesis
      using lf key by (auto simp: tree_built_def sel b_cursor_def leaf_prev_def lf_def intro!: pt_leaf)
  qed
  have "builder_inv b'" using i1(1) by (simp add: b'_def builder_inv_def table_ok_def)
  moreover have "\<forall>k \<in> set (b_keys b'). k \<in> set (b_keys b) \<or> on_path pos k" using i1(8) key by (auto simp: sel)
  moreover have "length (b_keys b') \<le> length (b_keys b) + 1" using i1(8) by (auto simp: sel)
  then have "length (b_keys b') \<le> length (b_keys b) + length iks" using \<open>0 < length iks\<close> by linarith
  moreover have "length (b_leaves b') \<le> length (b_leaves b) + length iks"
    using ne unfolding sel by (cases iks) simp_all
  moreover have "\<forall>p. extends p b' \<longrightarrow> (\<exists>t. tree_built H b b' pos (hn_leaf H k v) p t)" using tr by blast
  moreover have "\<forall>j < length iks. answered b' (iks ! j) (b_sorted_to_leaf b' ! (offset + j))"
    using an s2l(3) by simp
  ultimately have "collected H b b' pos iks offset (hn_leaf H k v)"
    unfolding collected_def using gr s2l(1,2) by (simp add: sel(2))
  then show ?thesis using e by blast
qed

lemma tree_built_leaf:
  assumes "tree_built H b b' q s p t" "canon_pos q" "length (b_leaves b) \<le> i" "i < length (b_leaves b')"
  shows "on_path q (leaf_key_at p i)" "level q \<le> pl_depth (pf_leaves p ! i)" "\<not> dangling p i"
proof -
  have "proof_tree p (length (b_leaves b)) (length (b_leaves b')) (level q) (b_cursor b) t (b_cursor b')"
    using assms(1) by (simp add: tree_built_def)
  from proof_tree_leaves [OF this] have "tree_leaves t = [length (b_leaves b)..<length (b_leaves b')]"
    using assms(3,4) by simp
  then have "i \<in> set (tree_leaves t)" using assms(3,4) by simp
  then show "on_path q (leaf_key_at p i)" "level q \<le> pl_depth (pf_leaves p ! i)" "\<not> dangling p i"
    using assms(1,2) shaped_leaf by (auto simp: tree_built_def)
qed

lemma split_point_at:
  assumes "start \<le> mid" "mid \<le> stop" "\<And>i. start \<le> i \<Longrightarrow> i < stop \<Longrightarrow> \<not> dangling p i"
    and "\<And>i. start \<le> i \<Longrightarrow> i < mid \<Longrightarrow> \<not> get_msb (leaf_key_at p i) lvl"
    and "\<And>i. mid \<le> i \<Longrightarrow> i < stop \<Longrightarrow> get_msb (leaf_key_at p i) lvl"
  shows "split_point p start stop lvl = Inr mid"
proof -
  let ?P = "\<lambda>i. \<not> get_msb (leaf_key_at p i) lvl"
  have app: "[start..<stop] = [start..<mid] @ [mid..<stop]"
    using assms(1,2) upt_add_eq_append [of start mid "stop - mid"] by simp
  have right: "takeWhile ?P [mid..<stop] = []" using assms(5) by (cases "mid < stop") (simp_all add: upt_rec)
  have "takeWhile ?P [start..<stop] = [start..<mid]"
    unfolding app using assms(4) right by (subst takeWhile_append2) simp_all
  moreover have "\<not> list_ex (dangling p) [start..<stop]" using assms(3) by (simp add: list_ex_iff)
  ultimately show ?thesis using assms(1) by (simp add: split_point_def partition_point_def)
qed

lemma collectedD:
  assumes "collected H b b' pos iks offset s"
  shows "builder_inv b'" "grows b b'" "length (b_leaves b) < length (b_leaves b')"
    "length (b_leaves b') \<le> length (b_leaves b) + length iks"
    "length (b_keys b') \<le> length (b_keys b) + length iks"
    "length (b_sorted_to_leaf b') = length (b_sorted_to_leaf b)"
    "\<forall>j. j < offset \<or> offset + length iks \<le> j \<longrightarrow> b_sorted_to_leaf b' ! j = b_sorted_to_leaf b ! j"
    "\<forall>j < length iks. answered b' (iks ! j) (b_sorted_to_leaf b' ! (offset + j))"
    "\<forall>k \<in> set (b_keys b'). k \<in> set (b_keys b) \<or> on_path pos k"
    "\<forall>p. extends p b' \<longrightarrow> (\<exists>t. tree_built H b b' pos s p t)"
  using assms unfolding collected_def by blast+

lemma collected_split:
  assumes inv: "builder_inv b" and pos: "canon_pos pos" "level pos < DEPTH"
    and L: "collected H (push_bit_b True b) b2 (left_child pos) lks offset s1"
    and R: "collected H b2 b3 (right_child pos) rks (offset + length lks) s2"
    and np: "no_promotion s1 s2"
  shows "collected H b b3 pos (lks @ rks) offset (combine H s1 s2)"
proof -
  let ?b1 = "push_bit_b True b"
  note l = collectedD [OF L, unfolded push_sel] and r = collectedD [OF R]
  have g: "grows b b2" "grows b2 b3" "grows ?b1 b2" using l(2) r(2) grows_push(1) [OF inv] grows_trans by blast+
  have tr: "\<exists>t. tree_built H b b3 pos (combine H s1 s2) p t" if ex: "extends p b3" for p
  proof -
    have ex2: "extends p b2" using extends_grows [OF ex g(2)] .
    obtain t1 t2 where t1: "tree_built H ?b1 b2 (left_child pos) s1 p t1"
        and t2: "tree_built H b2 b3 (right_child pos) s2 p t2" using l(10) r(10) ex ex2 by blast
    note a = tree_built_leaf [OF t1 canon_pos_child(1) [OF pos], unfolded push_sel]
    note c = tree_built_leaf [OF t2 canon_pos_child(2) [OF pos]]
    let ?x = "length (b_leaves b)" and ?y = "length (b_leaves b2)" and ?z = "length (b_leaves b3)"
    have xyz: "?x < ?y" "?y < ?z" using l(3) r(3) by simp_all
    have sp: "split_point p ?x ?z (level pos) = Inr ?y"
    proof (rule split_point_at)
      show "?x \<le> ?y" "?y \<le> ?z" using xyz by simp_all
      show "\<not> dangling p i" if "?x \<le> i" "i < ?z" for i
        using a(3) [of i] c(3) [of i] that by (cases "i < ?y") simp_all
      show "\<not> get_msb (leaf_key_at p i) (level pos)" if "?x \<le> i" "i < ?y" for i
        using a(1) [OF that] on_path_left [OF pos(1)] by simp
      show "get_msb (leaf_key_at p i) (level pos)" if "?y \<le> i" "i < ?z" for i
        using c(1) [OF that] on_path_right [OF pos] by simp
    qed
    have sk: "stop_kind p ?x ?z (level pos) = Inr False"
    proof -
      have "?z - ?x \<noteq> 1" using xyz by linarith
      then show ?thesis using pos(2) by (simp add: stop_kind_def at_shortcut_depth_def)
    qed
    have "next_topology_bit p (b_cursor b) = (True, b_cursor ?b1)"
      using next_bit_pushed [OF inv extends_grows [OF ex2 g(3)], of True] topology_push_ok(2) inv
      by (simp add: b_cursor_def push_bit_b_def builder_inv_def)
    then have "proof_tree p ?x ?z (level pos) (b_cursor b) (PSplit t1 t2) (b_cursor b3)"
      using t1 t2 xyz by (intro pt_split [OF _ sk _ sp]) (auto simp: tree_built_def left_child_def right_child_def)
    then show ?thesis
      using t1 t2 pos np by (intro exI [of _ "PSplit t1 t2"]) (simp add: tree_built_def)
  qed
  have s2l: "\<forall>j. j < offset \<or> offset + length (lks @ rks) \<le> j \<longrightarrow> b_sorted_to_leaf b3 ! j = b_sorted_to_leaf b ! j"
    using l(7) r(7) by simp
  have an: "answered b3 ((lks @ rks) ! j) (b_sorted_to_leaf b3 ! (offset + j))" if j: "j < length (lks @ rks)" for j
  proof (cases "j < length lks")
    case True
    then have "answered b2 (lks ! j) (b_sorted_to_leaf b2 ! (offset + j))" using l(8) by blast
    then show ?thesis using True r(7) answered_grows [OF _ g(2)] by (simp add: nth_append)
  next
    case False
    then show ?thesis using j r(8) [rule_format, of "j - length lks"] by (simp add: nth_append)
  qed
  have keys: "k \<in> set (b_keys b) \<or> on_path pos k" if "k \<in> set (b_keys b3)" for k
    using l(9) r(9) on_path_left [OF pos(1), of k] on_path_right [OF pos, of k] that by auto
  show ?thesis
    unfolding collected_def
    using l(3,4,5,6) r(1,3,4,5,6) tr s2l an keys grows_trans [OF g(1,2)] by (intro conjI) simp_all
qed

lemma collected_side:
  assumes inv: "builder_inv b" and pos: "canon_pos pos" "level pos < DEPTH"
    and C: "collected H (push_sibling sib (push_bit_b False b)) b2 (if goes_left then left_child pos else right_child pos) iks offset s"
    and np: "if goes_left then no_promotion s sib else no_promotion sib s" and emp: "kind sib = EMPTY \<longrightarrow> sib = hn_empty"
  shows "collected H b b2 pos iks offset (combine_with_sibling H s sib goes_left)"
proof -
  let ?b1 = "push_sibling sib (push_bit_b False b)" and ?q = "if goes_left then left_child pos else right_child pos"
  note c = C [unfolded collected_def push_sel]
  have g: "grows b b2" "grows ?b1 b2" using c grows_push(3) [OF inv] grows_trans by blast+
  have q: "canon_pos ?q" "level ?q = level pos + 1" using canon_pos_child [OF pos] by (auto simp: left_child_def right_child_def)
  have qp: "on_path ?q k \<Longrightarrow> on_path pos k \<and> get_msb k (level pos) = (\<not> goes_left)" for k
    using on_path_left [OF pos(1), of k] on_path_right [OF pos, of k] by (cases goes_left) simp_all
  have tr: "\<exists>t. tree_built H b b2 pos (combine_with_sibling H s sib goes_left) p t" if ex: "extends p b2" for p
  proof -
    obtain t where t: "tree_built H ?b1 b2 ?q s p t" using c ex by blast
    let ?x = "length (b_leaves b)" and ?z = "length (b_leaves b2)"
    have xz: "?x < ?z" using c by auto
    note a = tree_built_leaf [OF t q(1), unfolded push_sel, OF order_refl xz]
    have ex1: "extends p ?b1" using extends_grows [OF ex g(2)] .
    have sk: "stop_kind p ?x ?z (level pos) = Inr False"
      using xz pos(2) a(2) q(2) by (auto simp: stop_kind_def at_shortcut_depth_def Let_def)
    have "next_topology_bit p (b_cursor b) = (False, (length (b_siblings b), tp_len (b_topology b) + 1))"
      using next_bit_pushed [OF inv ex1] by blast
    moreover have "leaf_goes_left p ?x (level pos) = Inr goes_left" using a(3) qp [OF a(1)] by (simp add: leaf_goes_left_def)
    moreover have "next_sibling p (length (b_siblings b), tp_len (b_topology b) + 1) = Inr (sib, b_cursor ?b1)"
      using next_sibling_pushed [OF ex1] topology_push_ok(2) inv
      by (simp add: b_cursor_def push_sibling_def push_bit_b_def builder_inv_def)
    ultimately have "proof_tree p ?x ?z (level pos) (b_cursor b) (PSide goes_left sib t) (b_cursor b2)"
      using t xz q(2) by (intro pt_side [OF _ sk]) (auto simp: tree_built_def)
    then show ?thesis
      using t pos np emp by (intro exI [of _ "PSide goes_left sib t"]) (auto simp: tree_built_def split: if_splits)
  qed
  have "\<forall>k \<in> set (b_keys b2). k \<in> set (b_keys b) \<or> on_path pos k" using c qp by blast
  then show ?thesis unfolding collected_def using c tr g(1) by auto
qed

subsection \<open>The sorted keys below a position\<close>

definition keys_at :: "smt_key \<Rightarrow> bytes list \<Rightarrow> bool" where
  "keys_at pos iks \<longleftrightarrow> sorted_wrt (<) iks \<and> (\<forall>k \<in> set iks. on_path pos k)"

lemma keys_at_split:
  assumes "keys_at pos iks" "canon_pos pos" "level pos < DEPTH"
  defines "mid \<equiv> partition_point (\<lambda>k. \<not> get_msb k (level pos)) iks"
  shows "keys_at (left_child pos) (take mid iks)" "keys_at (right_child pos) (drop mid iks)"
proof -
  have "sorted_wrt (\<lambda>x y. \<not> get_msb y (level pos) \<longrightarrow> \<not> get_msb x (level pos)) iks"
  proof (rule sorted_wrt_mono_rel)
    show "sorted_wrt (<) iks" using assms(1) by (simp add: keys_at_def)
    show "\<not> get_msb y (level pos) \<longrightarrow> \<not> get_msb x (level pos)" if "x \<in> set iks" "y \<in> set iks" "x < y" for x y
      using on_path_msb_mono [of pos x y] assms(1,3) that by (auto simp: keys_at_def)
  qed
  note part = partitioned_filter [OF this]
  show "keys_at (left_child pos) (take mid iks)" "keys_at (right_child pos) (drop mid iks)"
    unfolding mid_def take_partition_point drop_partition_point part keys_at_def
    using assms(1-3) by (auto simp: keys_at_def on_path_left on_path_right sorted_wrt_filter)
qed

lemma keys_at_level: "keys_at pos iks \<Longrightarrow> canon_pos pos \<Longrightarrow> 2 \<le> length iks \<Longrightarrow> level pos < DEPTH"
proof -
  assume a: "keys_at pos iks" "canon_pos pos" "2 \<le> length iks"
  then obtain x y zs where "iks = x # y # zs" by (cases iks; cases "tl iks") auto
  then have "x < y" "on_path pos x" "on_path pos y" using a(1) by (auto simp: keys_at_def)
  then show ?thesis using on_path_full [of pos x y] a(2) by (cases "level pos = DEPTH") (auto simp: canon_pos_def)
qed

lemma keys_at_side:
  assumes "keys_at pos iks" "canon_pos pos" "level pos < DEPTH"
    and "mid = partition_point (\<lambda>k. \<not> get_msb k (level pos)) iks" "\<not> (0 < mid \<and> mid < length iks)"
  shows "keys_at (if 0 < mid then left_child pos else right_child pos) iks"
  using keys_at_split [OF assms(1-3), folded assms(4)] assms(5) by (auto simp: not_less)

lemma child_if:
  "canon_pos pos \<Longrightarrow> level pos < DEPTH \<Longrightarrow> canon_pos (if g then left_child pos else right_child pos)"
  "level (if g then left_child pos else right_child pos) = level pos + 1"
  using canon_pos_child by (auto simp: left_child_def right_child_def)

lemma room_push [simp]:
  "room (push_bit_b x b) iks offset = room b iks offset"
  "room (push_sibling s b) iks offset = room b iks offset"
  by (simp_all add: room_def)

lemma room_next:
  assumes "room b (lks @ rks) offset" "collected H b b' pos lks offset s"
  shows "room b lks offset" "room b' rks (offset + length lks)"
  using assms(1) collectedD(4-6) [OF assms(2)] by (auto simp: room_def)

lemma collect_empty_ok:
  "builder_inv b \<Longrightarrow> room b iks offset \<Longrightarrow> iks \<noteq> [] \<Longrightarrow> canon_pos pos \<Longrightarrow> keys_at pos iks \<Longrightarrow> lvl = level pos \<Longrightarrow>
    \<exists>b'. collect_empty b iks lvl offset = Inr b' \<and> collected H b b' pos iks offset hn_empty"
proof (induction b iks lvl offset arbitrary: pos rule: collect_empty.induct)
  case (1 b iks lvl offset)
  note pr = "1.prems"
  show ?case
  proof (cases "length iks = 1")
    case True
    then obtain k where k: "iks = [k]" by (auto simp: length_Suc_conv)
    then show ?thesis
      using emit_leaf_collected [OF pr(1,2,3,4), of k EMPTY_HASH H] pr(5,6)
      by (simp add: collect_empty.simps [of b "[k]"] keys_at_def hn_leaf_def)
  next
    case False
    have two: "2 \<le> length iks" using False pr(3) by (cases iks; cases "tl iks") auto
    have lt: "level pos < DEPTH" by (rule keys_at_level [OF pr(5,4) two])
    then have lv: "\<not> 2 ^ 16 \<le> lvl + 1" using pr(6) by (simp add: DEPTH_def)
    define mid where "mid = partition_point (\<lambda>k. \<not> get_msb k lvl) iks"
    note IH = "1.IH" [OF False lv mid_def]
    have mid: "mid = partition_point (\<lambda>k. \<not> get_msb k (level pos)) iks" by (simp add: mid_def pr(6))
    note cc = canon_pos_child [OF pr(4) lt] and ks = keys_at_split [OF pr(5,4) lt, folded mid]
    have np: "no_promotion hn_empty hn_empty" "combine H hn_empty hn_empty = hn_empty"
      by (simp_all add: no_promotion_def combine_def hn_internal_def)
    show ?thesis
    proof (cases "0 < mid \<and> mid < length iks")
      case True
      have rm: "room (push_bit_b True b) (take mid iks @ drop mid iks) offset" using pr(2) by simp
      then have rm1: "room (push_bit_b True b) (take mid iks) offset" by (auto simp: room_def)
      obtain b1 where b1: "collect_empty (push_bit_b True b) (take mid iks) (lvl + 1) offset = Inr b1"
          "collected H (push_bit_b True b) b1 (left_child pos) (take mid iks) offset hn_empty"
        using IH(1) [OF True _ rm1 _ cc(1) ks(1)] True grows_push(2) [OF pr(1)] pr(3,6) by (auto simp: left_child_def)
      have rm2: "room b1 (drop mid iks) (offset + mid)" using room_next(2) [OF rm b1(2)] True by simp
      obtain b2 where b2: "collect_empty b1 (drop mid iks) (lvl + 1) (offset + mid) = Inr b2"
          "collected H b1 b2 (right_child pos) (drop mid iks) (offset + mid) hn_empty"
        using IH(2) [OF True b1(1) _ rm2 _ cc(2) ks(2)] True collectedD(1) [OF b1(2)] pr(6) by (auto simp: right_child_def)
      have "collected H b b2 pos (take mid iks @ drop mid iks) offset (combine H hn_empty hn_empty)"
        using b2(2) True by (intro collected_split [OF pr(1,4) lt b1(2) _ np(1)]) simp
      then show ?thesis
        using b1(1) b2(1) True False lv np(2)
        by (auto simp: collect_empty.simps [of b iks] mid_def [symmetric] Let_def)
    next
      case side: False
      note ks = keys_at_side [OF pr(5,4) lt mid side]
      let ?b1 = "push_sibling hn_empty (push_bit_b False b)"
      obtain b1 where b1: "collect_empty ?b1 iks (lvl + 1) offset = Inr b1"
          "collected H ?b1 b1 (if 0 < mid then left_child pos else right_child pos) iks offset hn_empty"
        using IH(3) [OF side grows_push(4) [OF pr(1)] _ pr(3) child_if(1) [OF pr(4) lt] ks] pr(2,6)
        by (auto simp: child_if(2))
      have "collected H b b1 pos iks offset (combine_with_sibling H hn_empty hn_empty (0 < mid))"
        using b1(2) np(1) by (intro collected_side [OF pr(1,4) lt]) (auto split: if_splits)
      then show ?thesis
        using b1(1) side False lv np(2)
        by (auto simp: collect_empty.simps [of b iks] mid_def [symmetric] Let_def combine_with_sibling_def)
    qed
  qed
qed

lemma child_summary_rep:
  assumes "rep H (\<lambda>k. norm (map_option snd (f k))) m q ys"
  shows "child_summary f q = spec_summary H m ys"
proof -
  have eq: "spec_node H m ys = norm (map_option snd (f q))" using rep_pos [OF assms] by simp
  show ?thesis
  proof (cases "f q")
    case (Some vn)
    then show ?thesis
      by (cases vn; cases "snd vn") (simp_all add: child_summary_def spec_summary_def summary_def eq)
  qed (simp add: child_summary_def spec_summary_def summary_def eq)
qed

lemma collect_leaf:
  assumes "builder_inv b" "room b iks offset" "iks \<noteq> []" "canon_pos pos" "keys_at pos iks"
    and "fits pos xs" "list_all live xs" "level pos + n = DEPTH"
    and "rep H (\<lambda>k. norm (map_option snd (f k))) n pos xs" "length xs \<le> 1"
  shows "\<exists>b'. collect f b pos iks offset = Inr b' \<and> collected H b b' pos iks offset (spec_summary H n xs)"
proof (cases xs rule: length_cases_012)
  case zero
  then have "collect f b pos iks offset = collect_empty b iks (level pos) offset"
    using rep_pos [OF assms(9)] assms(3)
    by (cases "map_option snd (f pos)" rule: read_cases) (auto simp: collect.simps [of f b pos])
  then show ?thesis using collect_empty_ok [OF assms(1-5) refl, of H] zero by simp
next
  case (one x)
  then have "norm (map_option snd (f pos)) = Some (node_leaf H (fst x) (snd x))" using rep_pos [OF assms(9)] by simp
  then have "collect f b pos iks offset = emit_leaf b (fst x) (snd x) (level pos) offset (offset + length iks)"
    using assms(3) by (cases "map_option snd (f pos)" rule: read_cases)
      (auto simp: collect.simps [of f b pos] node_leaf_def)
  moreover have "on_path pos (fst x)" "\<forall>k \<in> set iks. on_path pos k"
    using assms(5,6) one by (auto simp: fits_def keys_at_def)
  ultimately show ?thesis using emit_leaf_collected [OF assms(1-4), of "fst x" "snd x" H] one assms(7)
    by (simp add: hn_leaf_def live_def)
next
  case more
  then show ?thesis using assms(10) by simp
qed

lemma collect_ok:
  assumes "builder_inv b" "room b iks offset" "iks \<noteq> []" "canon_pos pos" "keys_at pos iks"
    and "fits pos xs" "list_all live xs" "level pos + n = DEPTH"
    and "rep H (\<lambda>k. norm (map_option snd (f k))) n pos xs"
  shows "\<exists>b'. collect f b pos iks offset = Inr b' \<and> collected H b b' pos iks offset (spec_summary H n xs)"
  using assms
proof (induction n arbitrary: b iks offset pos xs)
  case 0
  note pr = "0.prems"
  have "length xs \<le> 1" using fits_full [OF pr(6)] pr(8) by simp
  then show ?case
    using collect_leaf [OF pr(1-5,6,7,8,9)] by simp
next
  case (Suc n)
  note pr = Suc.prems
  show ?case
  proof (cases "length xs \<le> 1")
    case True
    then show ?thesis using collect_leaf [OF pr(1-5,6,7,8,9)] by simp
  next
    case False
    then have two: "2 \<le> length xs" by simp
    have lt: "level pos < DEPTH" using pr(8) by simp
    note cc = canon_pos_child [OF pr(4) lt] and fh = fits_halves [OF pr(6,4) lt]
    have rp: "rep H (\<lambda>k. norm (map_option snd (f k))) n (left_child pos) (left_half pos xs)"
      "rep H (\<lambda>k. norm (map_option snd (f k))) n (right_child pos) (right_half pos xs)" using pr(9) two by simp_all
    have lv: "level (left_child pos) + n = DEPTH" "level (right_child pos) + n = DEPTH"
      using pr(8) by (simp_all add: left_child_def right_child_def)
    have live: "list_all live (left_half pos xs)" "list_all live (right_half pos xs)"
      using pr(7) by (simp_all add: halves_simps)
    have cs: "child_summary f (left_child pos) = spec_summary H n (left_half pos xs)"
      "child_summary f (right_child pos) = spec_summary H n (right_half pos xs)"
      using child_summary_rep rp by blast+
    note np = spec_no_promotion [OF pr(6,4,8) two, of H] and comb = combine_spec [OF pr(6,4,8), of H]
    have emp: "kind (spec_summary H n (left_half pos xs)) = EMPTY \<longrightarrow> spec_summary H n (left_half pos xs) = hn_empty"
      "kind (spec_summary H n (right_half pos xs)) = EMPTY \<longrightarrow> spec_summary H n (right_half pos xs) = hn_empty"
      using halves_kinds(1,3) [OF pr(6,4,8), of H] by auto
    obtain v h where nd: "f pos = Some (v, NodeInternal h)"
      using rep_pos [OF pr(9)] spec_node_kind(3) [OF pr(6,8), of H] two
      by (cases "map_option snd (f pos)" rule: read_cases) (auto dest: sym)
    define mid where "mid = partition_point (\<lambda>k. \<not> get_msb k (level pos)) iks"
    note ks = keys_at_split [OF pr(5,4) lt, folded mid_def]
    have ov: "\<not> 2 ^ 16 \<le> level pos + 1" using lt by (simp add: DEPTH_def)
    have ci: "collect f b pos iks offset = collect_internal f b pos iks offset"
      using pr(3) nd by (simp add: collect.simps [of f b pos])
    note cis = collect_internal.simps [of f b pos iks offset, folded mid_def, unfolded Let_def]
    consider "take mid iks \<noteq> []" "drop mid iks \<noteq> []" | "take mid iks = []" "drop mid iks = iks"
      | "take mid iks = iks" "drop mid iks = []" by (metis append_Nil append_Nil2 append_take_drop_id)
    then show ?thesis
    proof cases
      case 1
      have rm: "room (push_bit_b True b) (take mid iks @ drop mid iks) offset" using pr(2) by simp
      then have rm1: "room (push_bit_b True b) (take mid iks) offset" by (auto simp: room_def)
      obtain b1 where b1: "collect f (push_bit_b True b) (left_child pos) (take mid iks) offset = Inr b1"
          "collected H (push_bit_b True b) b1 (left_child pos) (take mid iks) offset (spec_summary H n (left_half pos xs))"
        using Suc.IH [OF grows_push(2) [OF pr(1)] rm1 1(1) cc(1) ks(1) fh(1) live(1) lv(1) rp(1)] by blast
      have mid: "length (take mid iks) = mid" by (simp add: mid_def)
      have rm2: "room b1 (drop mid iks) (offset + mid)" using room_next(2) [OF rm b1(2)] mid by simp
      obtain b2 where b2: "collect f b1 (right_child pos) (drop mid iks) (offset + mid) = Inr b2"
          "collected H b1 b2 (right_child pos) (drop mid iks) (offset + mid) (spec_summary H n (right_half pos xs))"
        using Suc.IH [OF collectedD(1) [OF b1(2)] rm2 1(2) cc(2) ks(2) fh(2) live(2) lv(2) rp(2)] by blast
      have "collected H b b2 pos (take mid iks @ drop mid iks) offset (spec_summary H (Suc n) xs)"
        using b2(2) mid np by (subst comb [symmetric]) (intro collected_split [OF pr(1,4) lt b1(2)], simp_all)
      then show ?thesis using b1(1) b2(1) 1 ov ci by (auto simp: cis)
    next
      case 2
      let ?b1 = "push_sibling (child_summary f (left_child pos)) (push_bit_b False b)"
      obtain b1 where b1: "collect f ?b1 (right_child pos) iks offset = Inr b1"
          "collected H ?b1 b1 (right_child pos) iks offset (spec_summary H n (right_half pos xs))"
        using Suc.IH [OF grows_push(4) [OF pr(1)] _ pr(3) cc(2) _ fh(2) live(2) lv(2) rp(2)] ks(2) 2 pr(2) by fastforce
      have "collected H b b1 pos iks offset
          (combine_with_sibling H (spec_summary H n (right_half pos xs)) (child_summary f (left_child pos)) False)"
        using b1(2) np emp cs by (intro collected_side [OF pr(1,4) lt]) simp_all
      then show ?thesis using b1(1) 2 ov ci pr(3) comb cs by (auto simp: cis combine_with_sibling_def)
    next
      case 3
      let ?b1 = "push_sibling (child_summary f (right_child pos)) (push_bit_b False b)"
      obtain b1 where b1: "collect f ?b1 (left_child pos) iks offset = Inr b1"
          "collected H ?b1 b1 (left_child pos) iks offset (spec_summary H n (left_half pos xs))"
        using Suc.IH [OF grows_push(4) [OF pr(1)] _ pr(3) cc(1) _ fh(1) live(1) lv(1) rp(1)] ks(1) 3 pr(2) by fastforce
      have "collected H b b1 pos iks offset
          (combine_with_sibling H (spec_summary H n (left_half pos xs)) (child_summary f (right_child pos)) True)"
        using b1(2) np emp cs by (intro collected_side [OF pr(1,4) lt]) simp_all
      then show ?thesis using b1(1) 3 ov ci pr(3) comb cs by (auto simp: cis combine_with_sibling_def)
    qed
  qed
qed

subsection \<open>Memberships\<close>

definition classified_as :: "proof_builder \<Rightarrow> nat \<Rightarrow> nat \<Rightarrow> membership" where
  "classified_as b s idx =
    (let leaf_pos = b_sorted_to_leaf b ! s in
     if pl_key_idx (b_leaves b ! leaf_pos) = idx then Present leaf_pos else Absent leaf_pos)"

lemma classify_fold:
  assumes "\<forall>s < length xs. k + s < length (b_sorted_to_leaf b) \<and> b_sorted_to_leaf b ! (k + s) < length (b_leaves b)
      \<and> xs ! s < length ms" "distinct xs"
  shows "\<exists>ms'. fold_r (classify_one b) (enumerate k xs) ms = Inr ms' \<and> length ms' = length ms
    \<and> (\<forall>s < length xs. ms' ! (xs ! s) = classified_as b (k + s) (xs ! s)) \<and> (\<forall>i. i \<notin> set xs \<longrightarrow> ms' ! i = ms ! i)"
  using assms
proof (induction xs arbitrary: k ms)
  case (Cons x xs)
  define ms1 where "ms1 = ms[x := classified_as b k x]"
  have z: "k < length (b_sorted_to_leaf b)" "b_sorted_to_leaf b ! k < length (b_leaves b)" "x < length ms"
    using Cons.prems(1) [rule_format, of 0] by simp_all
  then have one: "classify_one b (k, x) ms = Inr ms1"
    by (simp add: classify_one_def ms1_def classified_as_def Let_def not_le)
  have "Suc k + s < length (b_sorted_to_leaf b) \<and> b_sorted_to_leaf b ! (Suc k + s) < length (b_leaves b)
      \<and> xs ! s < length ms1" if "s < length xs" for s
    using Cons.prems(1) [rule_format, of "Suc s"] that by (simp add: ms1_def)
  then have "\<forall>s < length xs. Suc k + s < length (b_sorted_to_leaf b) \<and> b_sorted_to_leaf b ! (Suc k + s) < length (b_leaves b)
      \<and> xs ! s < length ms1" by blast
  from Cons.IH [OF this] Cons.prems(2) obtain ms' where ms': "fold_r (classify_one b) (enumerate (Suc k) xs) ms1 = Inr ms'"
      "length ms' = length ms1" "\<forall>s < length xs. ms' ! (xs ! s) = classified_as b (Suc k + s) (xs ! s)"
      "\<forall>i. i \<notin> set xs \<longrightarrow> ms' ! i = ms1 ! i" by auto
  have "ms' ! x = classified_as b k x" using ms'(4) Cons.prems(2) z by (simp add: ms1_def)
  moreover have "\<forall>i. i \<notin> set (x # xs) \<longrightarrow> ms' ! i = ms ! i" using ms'(4) by (simp add: ms1_def)
  moreover have "length ms' = length ms" using ms'(2) by (simp add: ms1_def)
  ultimately show ?case using one ms'(1,3) by (auto simp: nth_Cons split: nat.splits)
qed simp

lemma classify_memberships_ok:
  assumes "\<forall>s < n. b_sorted_to_leaf b ! s < length (b_leaves b)" "length (b_sorted_to_leaf b) = n"
    and "mset order = mset [0..<n]"
  shows "\<exists>ms. classify_memberships b order = Inr ms \<and> length ms = n
    \<and> (\<forall>s < n. ms ! (order ! s) = classified_as b s (order ! s))"
proof -
  have o: "length order = n" "distinct order" "set order = {..<n}"
    using assms(3) mset_eq_length [OF assms(3)] mset_eq_imp_distinct_iff [OF assms(3)] mset_eq_setD [OF assms(3)] by auto
  have "order ! s < n" if "s < n" for s using o that nth_mem [of s order] by auto
  then have "\<forall>s < length order. 0 + s < length (b_sorted_to_leaf b) \<and> b_sorted_to_leaf b ! (0 + s) < length (b_leaves b)
      \<and> order ! s < length (replicate n (Absent 0))"
    using assms(1,2) o(1) by simp
  from classify_fold [OF this o(2)] show ?thesis using o(1) by (auto simp: classify_memberships_def)
qed

lemma member_built:
  assumes "answered b k i" "k = b_keys b ! j" "j < length (b_keys b)" "distinct (b_keys b)"
    and "ms ! j = (if pl_key_idx (b_leaves b ! i) = j then Present i else Absent i)" "j < length ms"
    and "\<forall>k \<in> set (b_keys b). length k = 32" "pl_depth (b_leaves b ! i) \<le> DEPTH"
  shows "is_ok (pf_member (built_proof b ms) j)"
proof -
  let ?d = "pl_depth (b_leaves b ! i)" and ?x = "pl_key_idx (b_leaves b ! i)"
  have a: "i < length (b_leaves b)" "?x < length (b_keys b)" "agree ?d (b_keys b ! ?x) (b_keys b ! j)"
    using assms(1,2) by (simp_all add: answered_def)
  have "length (b_keys b ! j) = 32" "length (b_keys b ! ?x) = 32" using assms(3,7) a(2) by simp_all
  then have "shares_prefix (b_keys b ! j) (b_keys b ! ?x) ?d"
    using a(3) assms(8) by (auto simp: shares_prefix_iff agree_def DEPTH_def)
  moreover have "b_keys b ! ?x = b_keys b ! j \<longleftrightarrow> ?x = j" using assms(3,4) a(2) by (simp add: nth_eq_iff_index_eq)
  ultimately show ?thesis
    using assms(3,5,6) a by (simp add: pf_member_def member_present_def member_absent_def pf_key_def pf_leaf_def
        leaf_key_def built_proof_def)
qed

lemma sorted_positions:
  assumes "length keys < 2 ^ 32" "distinct keys"
  shows "sort_unique keys = Inr (sort keys, sort_order keys)" "mset (sort_order keys) = mset [0..<length keys]"
    "map (\<lambda>i. keys ! i) (sort_order keys) = sort keys" "sorted_wrt (<) (sort keys)"
proof -
  show st: "sorted_wrt (<) (sort keys)" using assms(2) by (simp add: strict_sorted_iff)
  show m: "map (\<lambda>i. keys ! i) (sort_order keys) = sort keys" using assms(1) by (rule map_sort_order)
  show "mset (sort_order keys) = mset [0..<length keys]" using assms(1) by (simp add: sort_order_def)
  show "sort_unique keys = Inr (sort keys, sort_order keys)"
    using reject_duplicates_Inr [of "sort keys" None "sort keys"] st by (simp add: sort_unique_def Let_def m)
qed

definition built_for :: "bytes list \<Rightarrow> smt_proof \<Rightarrow> bool" where
  "built_for keys p \<longleftrightarrow> take (length keys) (pf_keys p) = keys \<and> length (pf_memberships p) = length keys
    \<and> (\<forall>k \<in> set (pf_keys p). length k = 32) \<and> all_members_ok p"

lemma build_ok:
  assumes keys: "distinct keys" "keys \<noteq> []" "length keys \<le> 2 ^ 31" "\<forall>k \<in> set keys. length k = 32"
    and xs: "fits ROOT xs" "list_all live xs" "rep H (\<lambda>k. norm (map_option snd (f k))) DEPTH ROOT xs"
  shows "\<exists>p. build f keys = Inr (proof_encode p) \<and> built_for keys p \<and> well_shaped H p
    \<and> pf_root H p = Inr (spec_root H xs)"
proof -
  let ?b0 = "builder_new keys" and ?n = "length keys"
  have small: "?n < 2 ^ 32" using keys(3) by simp
  note so = sorted_positions [OF small keys(1)]
  note new = builder_new_ok [OF keys(1)]
  have lr: "level ROOT = 0" by (simp add: ROOT_def)
  have ne: "sort keys \<noteq> []" using keys(2) by (metis length_0_conv length_sort)
  have "keys_at ROOT (sort keys)" using so(4) keys(4) by (simp add: keys_at_def)
  moreover have "room ?b0 (sort keys) 0" using new keys(3) small by (simp add: room_def)
  ultimately obtain b where b: "collect f ?b0 ROOT (sort keys) 0 = Inr b"
      and c: "collected H ?b0 b ROOT (sort keys) 0 (spec_summary H DEPTH xs)"
    using collect_ok [of ?b0 "sort keys" 0 ROOT xs DEPTH H f] new(1) small xs ne lr
    by auto
  note cd = collectedD [OF c]
  have s2l: "length (b_sorted_to_leaf b) = ?n" "\<forall>s < ?n. answered b (sort keys ! s) (b_sorted_to_leaf b ! s)"
    using cd(6,8) new(6) small by simp_all
  have "\<forall>s < ?n. b_sorted_to_leaf b ! s < length (b_leaves b)" using s2l(2) by (simp add: answered_def)
  from classify_memberships_ok [OF this s2l(1) so(2)] obtain ms where ms: "classify_memberships b (sort_order keys) = Inr ms"
      "length ms = ?n" "\<forall>s < ?n. ms ! (sort_order keys ! s) = classified_as b s (sort_order keys ! s)" by blast
  define p where "p = built_proof b ms"
  have ext: "extends p b" by (simp add: extends_def p_def built_proof_def)
  then obtain t where t: "tree_built H ?b0 b ROOT (spec_summary H DEPTH xs) p t" using cd(10) by blast
  have pt: "proof_tree p 0 (length (pf_leaves p)) 0 (0, 0) t (b_cursor b)" "shaped H p t ROOT"
      "tval H (leaf_prev H p) t = spec_summary H DEPTH xs"
    using t new small lr by (simp_all add: tree_built_def p_def built_proof_def b_cursor_def)
  then have "well_shaped H p" unfolding well_shaped_def by blast
  moreover have lv: "tree_leaves t = [0..<length (pf_leaves p)]" using proof_tree_leaves [OF pt(1)] by simp
  have leaf: "\<not> dangling p i \<and> pl_depth (pf_leaves p ! i) \<le> DEPTH" if "i < length (pf_leaves p)" for i
    using shaped_leaf [OF pt(2), of i] that lv by simp
  then have "eval_tree H (leaf_hash H p) t = Inr (spec_summary H DEPTH xs)"
    using lv pt(3) eval_tree_tval [of t "leaf_hash H p" "leaf_prev H p" H]
    by (simp add: leaf_hash_def pf_leaf_def leaf_key_def pf_key_def dangling_def leaf_prev_def leaf_key_at_def not_le)
  then have "pf_root H p = Inr (spec_root H xs)" using walk_eval [OF pt(1)] by (simp add: pf_root_def spec_root_def)
  moreover have k32: "\<forall>k \<in> set (b_keys b). length k = 32" using cd(9) new(2) keys(4) small by auto
  have pre: "prefix keys (b_keys b)" using grows_sel(1) [OF cd(2)] new(2) small by simp
  have "is_ok (pf_member p j)" if j: "j < ?n" for j
  proof -
    have "j \<in> set (sort_order keys)" using mset_eq_setD [OF so(2)] j by simp
    then obtain s where s: "s < ?n" "sort_order keys ! s = j"
      using mset_eq_length [OF so(2)] by (auto simp: in_set_conv_nth)
    have "sort keys ! s = keys ! j" using so(3) s mset_eq_length [OF so(2)] by (metis length_map length_upt minus_nat.diff_0 nth_map)
    then have an: "answered b (keys ! j) (b_sorted_to_leaf b ! s)" using s2l(2) s(1) by auto
    then have "pl_depth (b_leaves b ! (b_sorted_to_leaf b ! s)) \<le> DEPTH"
      using leaf by (simp add: p_def built_proof_def answered_def)
    then show ?thesis
      unfolding p_def using an pre j ms s k32 table_ok_distinct cd(1) prefix_nth [OF pre j]
      by (intro member_built [OF an]) (auto simp: classified_as_def Let_def builder_inv_def)
  qed
  then have "built_for keys p"
    using ms(2) k32 pre by (auto simp: built_for_def p_def built_proof_def all_members_ok_def prefix_def)
  ultimately show ?thesis
    using b ms(1) so(1) by (intro exI [of _ p]) (simp add: build_def p_def del: rbind_eq_Inr)
qed

subsection \<open>Properties\<close>



text \<open>C25: asked for no keys at all, the prover emits a proof whose root is the empty hash, whatever
  the tree holds.\<close>

theorem empty_query_root:
  "\<exists>p. build f [] = Inr (proof_encode p) \<and> pf_root H p = Inr EMPTY_HASH \<and> new_root H p nv = Inr EMPTY_HASH"
proof -
  let ?p = "\<lparr>pf_keys = [], pf_leaves = [], pf_siblings = [], pf_topology = [], pf_memberships = []\<rparr>"
  have "build f [] = Inr (proof_encode ?p)"
    by (simp add: build_def sort_unique_def sort_order_def Let_def builder_new_def classify_memberships_def built_proof_def
        collect.simps)
  moreover have "pf_root H ?p = Inr EMPTY_HASH" by (simp add: pf_root_def walk.simps terminal_value_def)
  moreover have "new_root H ?p nv = Inr EMPTY_HASH"
    by (simp add: new_root_def compute_roots_def walk_pair.simps terminal_value_def Let_def)
  ultimately show ?thesis by blast
qed

end
