(* ===== verification/Atomic_Ring.thy ===== *)
theory Atomic_Ring
  imports Prelude
begin

text \<open>
  The rolling buffer of \<open>core/atomics/src/atomic_ring.rs\<close>: an array of slots addressed by
  \<open>index % len\<close>, each holding the index it was last written for.  The ring is a value; the
  operations marked single-writer return the updated ring, and a reader sees one of these values.
  A panic (a capacity of zero) is \<open>None\<close>.

  The lemmas show that a well-formed ring is a map from its live range \<open>base..<tip\<close> to values,
  that every operation acts on this map as documented, and that pushing ends: growth doubles the
  capacity until the new entry fits.
\<close>

subsection \<open>The ring\<close>

record 'v ring =
  r_base :: nat
  r_tip :: nat
  r_slots :: "(nat \<times> 'v) option list"

definition empty_slots :: "nat \<Rightarrow> (nat \<times> 'v) option list option" where
  "empty_slots capacity = (if 0 < capacity then Some (replicate capacity None) else None)"

definition slot_of :: "'s list \<Rightarrow> nat \<Rightarrow> nat" where
  "slot_of slots index = index mod length slots"

definition ring_with_capacity :: "nat \<Rightarrow> nat \<Rightarrow> 'v ring option" where
  "ring_with_capacity base capacity =
    map_option (\<lambda>slots. \<lparr>r_base = base, r_tip = base, r_slots = slots\<rparr>) (empty_slots capacity)"

definition DEFAULT_CAPACITY :: nat where "DEFAULT_CAPACITY = 64"

definition ring_new :: "nat \<Rightarrow> 'v ring option" where
  "ring_new base = ring_with_capacity base DEFAULT_CAPACITY"

definition next_index :: "'v ring \<Rightarrow> nat" where
  "next_index r = r_tip r"

definition ring_with :: "'v ring \<Rightarrow> nat \<Rightarrow> ('v \<Rightarrow> 'r) \<Rightarrow> 'r option" where
  "ring_with r index read =
    (if index < r_base r \<or> next_index r \<le> index then None
     else case r_slots r ! slot_of (r_slots r) index of
       Some (i, v) \<Rightarrow> if i = index then Some (read v) else None
     | None \<Rightarrow> None)"

definition ring_get :: "'v ring \<Rightarrow> nat \<Rightarrow> 'v option" where
  "ring_get r index = ring_with r index id"

text \<open>The loop that re-places the live entries of one slot array into another.\<close>

fun copy_live :: "(nat \<times> 'v) option list \<Rightarrow> nat list \<Rightarrow> (nat \<times> 'v) option list \<Rightarrow> (nat \<times> 'v) option list" where
  "copy_live old [] new = new"
| "copy_live old (index # rest) new =
    copy_live old rest
      (case old ! slot_of old index of
         Some (i, v) \<Rightarrow> if i = index then new[slot_of new index := Some (i, v)] else new
       | None \<Rightarrow> new)"

definition grow :: "'v ring \<Rightarrow> 'v ring option" where
  "grow r =
    map_option (\<lambda>new. r\<lparr>r_slots := copy_live (r_slots r) [r_base r..<next_index r] new\<rparr>)
      (empty_slots (length (r_slots r) * 2))"

lemma length_copy_live [simp]: "length (copy_live old is new) = length new"
  by (induction old "is" new rule: copy_live.induct) (auto split: option.splits)

lemma grow_sel:
  "grow r = Some r' \<Longrightarrow> length (r_slots r) < length (r_slots r')
    \<and> r_base r' = r_base r \<and> r_tip r' = r_tip r"
  by (auto simp: grow_def empty_slots_def split: if_splits)

function ring_push :: "'v ring \<Rightarrow> 'v \<Rightarrow> (nat \<times> 'v ring) option" where
  "ring_push r value =
    (let index = next_index r in
     if length (r_slots r) \<le> index - r_base r then
       (case grow r of None \<Rightarrow> None | Some r' \<Rightarrow> ring_push r' value)
     else
       Some (index, r\<lparr>r_slots := (r_slots r)[slot_of (r_slots r) index := Some (index, value)],
                      r_tip := index + 1\<rparr>))"
  by pat_completeness auto
termination
  by (relation "measure (\<lambda>(r, _). Suc (r_tip r - r_base r) - length (r_slots r))")
    (auto simp: next_index_def dest!: grow_sel)

declare ring_push.simps [simp del]

definition ring_replace :: "'v ring \<Rightarrow> nat \<Rightarrow> 'v \<Rightarrow> 'v ring" where
  "ring_replace r index value =
    (if index < r_base r \<or> next_index r \<le> index then r
     else r\<lparr>r_slots := (r_slots r)[slot_of (r_slots r) index := Some (index, value)]\<rparr>)"

definition ring_fork :: "'v ring \<Rightarrow> 'v ring option" where
  "ring_fork r =
    map_option (\<lambda>copy. \<lparr>r_base = r_base r, r_tip = next_index r,
        r_slots = copy_live (r_slots r) [r_base r..<next_index r] copy\<rparr>)
      (empty_slots (length (r_slots r)))"

definition truncate_from :: "'v ring \<Rightarrow> nat \<Rightarrow> 'v ring" where
  "truncate_from r from = r\<lparr>r_tip := min (max from (r_base r)) (next_index r)\<rparr>"

definition prune_below :: "'v ring \<Rightarrow> nat \<Rightarrow> 'v ring" where
  "prune_below r below = r\<lparr>r_base := min (max below (r_base r)) (next_index r)\<rparr>"

subsection \<open>Well-formed rings are maps\<close>

definition ring_ok :: "'v ring \<Rightarrow> bool" where
  "ring_ok r \<longleftrightarrow> r_slots r \<noteq> [] \<and> r_base r \<le> r_tip r \<and> r_tip r - r_base r \<le> length (r_slots r)
    \<and> (\<forall>i. r_base r \<le> i \<and> i < r_tip r \<longrightarrow> (\<exists>v. r_slots r ! slot_of (r_slots r) i = Some (i, v)))"

lemma slot_of_less: "slots \<noteq> [] \<Longrightarrow> slot_of slots i < length slots"
  by (simp add: slot_of_def)

lemma slot_of_inj:
  assumes "slot_of slots i = slot_of slots j" "lo \<le> i" "lo \<le> j" "i < lo + length slots" "j < lo + length slots"
  shows "i = j"
proof (rule ccontr)
  have *: False if "a < b" "lo \<le> a" "b < lo + length slots" "a mod length slots = b mod length slots" for a b
  proof -
    have "length slots dvd b - a" using that mod_eq_dvd_iff_nat [of a b "length slots"] by simp
    then have "length slots \<le> b - a" using that(1) by (intro dvd_imp_le) simp_all
    then show False using that by linarith
  qed
  assume "i \<noteq> j"
  then show False using assms * [of i j] * [of j i] by (auto simp: slot_of_def not_less nat_neq_iff)
qed

lemma ring_get_alt:
  "ring_get r i = (if r_base r \<le> i \<and> i < r_tip r then
     (case r_slots r ! slot_of (r_slots r) i of Some (j, v) \<Rightarrow> if j = i then Some v else None | None \<Rightarrow> None)
   else None)"
  by (auto simp: ring_get_def ring_with_def next_index_def split: option.splits)

lemma ring_with_get: "ring_with r i read = map_option read (ring_get r i)"
  by (auto simp: ring_get_def ring_with_def split: option.splits)

lemma ring_get_live: "ring_ok r \<Longrightarrow> (\<exists>v. ring_get r i = Some v) \<longleftrightarrow> r_base r \<le> i \<and> i < r_tip r"
  by (auto simp: ring_get_alt ring_ok_def split: option.splits)

lemma copy_live_other:
  "s < length new \<Longrightarrow> (\<And>i. i \<in> set is \<Longrightarrow> slot_of new i \<noteq> s) \<Longrightarrow> copy_live old is new ! s = new ! s"
proof (induction old "is" new rule: copy_live.induct)
  case (2 old index rest new)
  then show ?case by (auto simp: slot_of_def split: option.splits)
qed simp

lemma copy_live_slot:
  assumes "distinct is" "new \<noteq> []" "\<And>i j. i \<in> set is \<Longrightarrow> j \<in> set is \<Longrightarrow> slot_of new i = slot_of new j \<Longrightarrow> i = j"
    and "\<And>i. i \<in> set is \<Longrightarrow> \<exists>v. old ! slot_of old i = Some (i, v)" "i \<in> set is"
  shows "copy_live old is new ! slot_of new i = old ! slot_of old i"
  using assms
proof (induction "is" arbitrary: new)
  case (Cons a "is")
  obtain v where v: "old ! slot_of old a = Some (a, v)" using Cons.prems(4) [of a] by auto
  define new1 where "new1 = new[slot_of new a := Some (a, v)]"
  have st: "copy_live old (a # is) new = copy_live old is new1" by (simp add: v new1_def)
  have so: "slot_of new1 j = slot_of new j" "new1 \<noteq> []" for j
    using Cons.prems(2) by (simp_all add: new1_def slot_of_def)
  show ?case
  proof (cases "i \<in> set is")
    case True
    have "copy_live old is new1 ! slot_of new1 i = old ! slot_of old i"
      using Cons.prems so True by (intro Cons.IH) auto
    then show ?thesis using st so by simp
  next
    case False
    then have ia: "i = a" using Cons.prems(5) by simp
    have "slot_of new1 j \<noteq> slot_of new a" if "j \<in> set is" for j
      using Cons.prems(1) Cons.prems(3) [of j a] that so(1) by auto
    moreover have sl: "slot_of new a < length new1" using slot_of_less Cons.prems(2) by (simp add: new1_def slot_of_less)
    ultimately have "copy_live old is new1 ! slot_of new a = new1 ! slot_of new a" by (intro copy_live_other) auto
    then show ?thesis using v st sl ia by (simp add: new1_def)
  qed
qed simp

lemma copied_ring:
  assumes r: "ring_ok r" and len: "length (r_slots r) \<le> length new"
    and r': "r' = \<lparr>r_base = r_base r, r_tip = r_tip r, r_slots = copy_live (r_slots r) [r_base r..<r_tip r] new\<rparr>"
  shows "ring_ok r' \<and> (\<forall>i. ring_get r' i = ring_get r i)"
proof -
  have ne: "new \<noteq> []" using r len by (auto simp: ring_ok_def)
  have "copy_live (r_slots r) [r_base r..<r_tip r] new ! slot_of new i = r_slots r ! slot_of (r_slots r) i"
    if "r_base r \<le> i" "i < r_tip r" for i
  proof (rule copy_live_slot [OF _ ne])
    show "j = k" if "j \<in> set [r_base r..<r_tip r]" "k \<in> set [r_base r..<r_tip r]" "slot_of new j = slot_of new k" for j k
      using that r len by (intro slot_of_inj [of new j k "r_base r"]) (auto simp: ring_ok_def)
  qed (use r that in \<open>auto simp: ring_ok_def\<close>)
  moreover have "copy_live (r_slots r) [r_base r..<r_tip r] new \<noteq> []"
    using ne length_copy_live [of "r_slots r" "[r_base r..<r_tip r]" new] by (metis length_0_conv)
  ultimately show ?thesis using r r' len by (auto simp: ring_ok_def ring_get_alt slot_of_def)
qed

lemma ring_fork_ok:
  assumes "ring_ok r"
  shows "\<exists>r'. ring_fork r = Some r' \<and> ring_ok r' \<and> r_base r' = r_base r \<and> r_tip r' = r_tip r
    \<and> (\<forall>i. ring_get r' i = ring_get r i)"
  using assms copied_ring [OF assms, of "replicate (length (r_slots r)) None"]
  by (auto simp: ring_fork_def empty_slots_def next_index_def ring_ok_def)

lemma grow_ok:
  assumes "ring_ok r"
  shows "\<exists>r'. grow r = Some r' \<and> ring_ok r' \<and> r_base r' = r_base r \<and> r_tip r' = r_tip r
    \<and> length (r_slots r') = length (r_slots r) * 2 \<and> (\<forall>i. ring_get r' i = ring_get r i)"
proof -
  let ?new = "replicate (length (r_slots r) * 2) None" 
  have "r\<lparr>r_slots := copy_live (r_slots r) [r_base r..<r_tip r] ?new\<rparr> =
      \<lparr>r_base = r_base r, r_tip = r_tip r, r_slots = copy_live (r_slots r) [r_base r..<r_tip r] ?new\<rparr>"
    by (cases r) simp
  from copied_ring [OF assms _ this] show ?thesis
    using assms by (auto simp: grow_def empty_slots_def next_index_def ring_ok_def)
qed

lemma put_slot:
  assumes "ring_ok r" "r_base r \<le> index" "index \<le> r_tip r" "index - r_base r < length (r_slots r)"
    and "r' = r\<lparr>r_slots := (r_slots r)[slot_of (r_slots r) index := Some (index, v)], r_tip := max (r_tip r) (index + 1)\<rparr>"
    and "r_tip r' - r_base r \<le> length (r_slots r)"
  shows "ring_ok r' \<and> (\<forall>i. ring_get r' i = (if i = index then Some v else ring_get r i))"
proof -
  let ?s = "r_slots r"
  have ne: "?s \<noteq> []" using assms(1) by (simp add: ring_ok_def)
  have other: "slot_of ?s i \<noteq> slot_of ?s index" if "r_base r \<le> i" "i < r_tip r'" "i \<noteq> index" for i
  proof -
    have "i < r_base r + length ?s" "index < r_base r + length ?s" using that(1,2) assms(2,4,6) by linarith+
    then show ?thesis using slot_of_inj [of ?s i index "r_base r"] that(1,3) assms(2) by auto
  qed
  have so: "slot_of (r_slots r') i = slot_of ?s i" for i by (simp add: slot_of_def assms(5))
  have sl: "r_slots r' ! slot_of ?s i = (if i = index then Some (index, v) else ?s ! slot_of ?s i)"
    if "r_base r \<le> i" "i < r_tip r'" for i
    using other [OF that] slot_of_less [OF ne, of index] by (auto simp: assms(5))
  have "ring_ok r'"
    unfolding ring_ok_def so
  proof (intro conjI allI impI)
    show "r_slots r' \<noteq> []" "r_base r' \<le> r_tip r'" using ne assms(2,3) by (simp_all add: assms(5))
    show "r_tip r' - r_base r' \<le> length (r_slots r')" using assms(6) by (simp add: assms(5))
    show "\<exists>v. r_slots r' ! slot_of ?s i = Some (i, v)" if "r_base r' \<le> i \<and> i < r_tip r'" for i
      using that sl [of i] assms(1,3) by (auto simp: assms(5) ring_ok_def)
  qed
  moreover have "ring_get r' i = (if i = index then Some v else ring_get r i)" for i
    using sl [of i] so assms(2,3) by (auto simp: ring_get_alt assms(5) split: if_splits)
  ultimately show ?thesis by blast
qed

lemma ring_push_ok:
  "ring_ok r \<Longrightarrow> \<exists>r'. ring_push r v = Some (r_tip r, r') \<and> ring_ok r' \<and> r_base r' = r_base r
    \<and> r_tip r' = r_tip r + 1 \<and> (\<forall>i. ring_get r' i = (if i = r_tip r then Some v else ring_get r i))"
proof (induction r v rule: ring_push.induct)
  case (1 r v)
  show ?case
  proof (cases "length (r_slots r) \<le> r_tip r - r_base r")
    case True
    obtain r' where g: "grow r = Some r'" "ring_ok r'" "r_base r' = r_base r" "r_tip r' = r_tip r"
        "\<forall>i. ring_get r' i = ring_get r i" using grow_ok [OF "1.prems"] by auto
    from "1.IH" [OF refl _ g(1,2)] True obtain r2 where r2: "ring_push r' v = Some (r_tip r, r2)" "ring_ok r2"
        "r_base r2 = r_base r" "r_tip r2 = r_tip r + 1"
        "\<forall>i. ring_get r2 i = (if i = r_tip r then Some v else ring_get r' i)"
      using g(3,4) by (auto simp: next_index_def)
    have "ring_push r v = ring_push r' v" using True g(1) by (simp add: ring_push.simps [of r] next_index_def)
    then show ?thesis using r2 g(5) by auto
  next
    case False
    have "r_base r \<le> r_tip r" using "1.prems" by (simp add: ring_ok_def)
    with False put_slot [OF "1.prems" this _ _ refl, of v] show ?thesis
      by (auto simp: ring_push.simps [of r] next_index_def Let_def)
  qed
qed

lemma ring_replace_ok:
  assumes "ring_ok r"
  shows "ring_ok (ring_replace r index v)" "r_base (ring_replace r index v) = r_base r"
    "r_tip (ring_replace r index v) = r_tip r"
    "ring_get (ring_replace r index v) i =
      (if i = index \<and> r_base r \<le> i \<and> i < r_tip r then Some v else ring_get r i)"
proof -
  have "ring_ok (ring_replace r index v) \<and> r_base (ring_replace r index v) = r_base r
    \<and> r_tip (ring_replace r index v) = r_tip r \<and> (\<forall>i. ring_get (ring_replace r index v) i =
      (if i = index \<and> r_base r \<le> i \<and> i < r_tip r then Some v else ring_get r i))"
  proof (cases "r_base r \<le> index \<and> index < r_tip r")
    case True
    let ?r' = "r\<lparr>r_slots := (r_slots r)[slot_of (r_slots r) index := Some (index, v)], r_tip := max (r_tip r) (index + 1)\<rparr>"
    have "ring_replace r index v = ?r'" using True by (cases r) (simp add: ring_replace_def next_index_def)
    then show ?thesis using put_slot [OF assms, of index ?r' v] True assms by (auto simp: ring_ok_def)
  next
    case False
    then show ?thesis using assms by (auto simp: ring_replace_def next_index_def)
  qed
  then show "ring_ok (ring_replace r index v)" "r_base (ring_replace r index v) = r_base r"
    "r_tip (ring_replace r index v) = r_tip r"
    "ring_get (ring_replace r index v) i =
      (if i = index \<and> r_base r \<le> i \<and> i < r_tip r then Some v else ring_get r i)" by blast+
qed

lemma prune_below_ok:
  assumes "ring_ok r"
  shows "ring_ok (prune_below r below)" "r_tip (prune_below r below) = r_tip r"
    "r_base (prune_below r below) = min (max below (r_base r)) (r_tip r)"
    "ring_get (prune_below r below) i = (if i < below then None else ring_get r i)"
  using assms by (auto simp: ring_ok_def prune_below_def next_index_def ring_get_alt)

lemma truncate_from_ok:
  assumes "ring_ok r"
  shows "ring_ok (truncate_from r from)" "r_base (truncate_from r from) = r_base r"
    "r_tip (truncate_from r from) = min (max from (r_base r)) (r_tip r)"
    "ring_get (truncate_from r from) i = (if from \<le> i then None else ring_get r i)"
  using assms by (auto simp: ring_ok_def truncate_from_def next_index_def ring_get_alt)

lemma ring_with_capacity_ok:
  assumes "0 < capacity"
  shows "\<exists>r. ring_with_capacity base capacity = Some r \<and> ring_ok r \<and> r_base r = base \<and> r_tip r = base"
  using assms by (auto simp: ring_with_capacity_def empty_slots_def ring_ok_def)

lemma ring_new_ok: "\<exists>r. ring_new base = Some r \<and> ring_ok r \<and> r_base r = base \<and> r_tip r = base"
  unfolding ring_new_def by (rule ring_with_capacity_ok) (simp add: DEFAULT_CAPACITY_def)

subsection \<open>Index-addressed logs\<close>

text \<open>
  What the clients of the ring rely on: entries are appended at consecutive indices and stay
  readable, appending always succeeds and disturbs no other entry, and the prefix can be pruned.
\<close>

fun push_all :: "('r \<Rightarrow> 'v \<Rightarrow> (nat \<times> 'r) option) \<Rightarrow> 'r \<Rightarrow> 'v list \<Rightarrow> 'r option" where
  "push_all push r [] = Some r"
| "push_all push r (v # vs) = (case push r v of None \<Rightarrow> None | Some (_, r') \<Rightarrow> push_all push r' vs)"

locale index_log =
  fixes inv :: "'r \<Rightarrow> bool" and lo :: "'r \<Rightarrow> nat" and hi :: "'r \<Rightarrow> nat" and get :: "'r \<Rightarrow> nat \<Rightarrow> 'v option"
    and push :: "'r \<Rightarrow> 'v \<Rightarrow> (nat \<times> 'r) option" and prune :: "'r \<Rightarrow> nat \<Rightarrow> 'r"
  assumes get_live: "inv r \<Longrightarrow> (\<exists>v. get r i = Some v) \<longleftrightarrow> lo r \<le> i \<and> i < hi r"
    and bounds: "inv r \<Longrightarrow> lo r \<le> hi r"
    and push_ok: "inv r \<Longrightarrow> \<exists>r'. push r v = Some (hi r, r') \<and> inv r' \<and> lo r' = lo r \<and> hi r' = hi r + 1
      \<and> (\<forall>i. get r' i = (if i = hi r then Some v else get r i))"
    and prune_ok: "inv r \<Longrightarrow> inv (prune r b) \<and> hi (prune r b) = hi r
      \<and> lo (prune r b) = min (max b (lo r)) (hi r) \<and> get (prune r b) i = (if i < b then None else get r i)"
begin

lemma push_all_ok:
  "inv r \<Longrightarrow> \<exists>r'. push_all push r vs = Some r' \<and> inv r' \<and> lo r' = lo r \<and> hi r' = hi r + length vs
    \<and> (\<forall>i. get r' i = (if hi r \<le> i \<and> i < hi r + length vs then Some (vs ! (i - hi r)) else get r i))"
proof (induction vs arbitrary: r)
  case (Cons v vs)
  obtain r1 where r1: "push r v = Some (hi r, r1)" "inv r1" "lo r1 = lo r" "hi r1 = hi r + 1"
      "\<forall>i. get r1 i = (if i = hi r then Some v else get r i)" using push_ok [OF Cons.prems] by blast
  obtain r2 where r2: "push_all push r1 vs = Some r2" "inv r2" "lo r2 = lo r1" "hi r2 = hi r1 + length vs"
      "\<forall>i. get r2 i = (if hi r1 \<le> i \<and> i < hi r1 + length vs then Some (vs ! (i - hi r1)) else get r1 i)"
    using Cons.IH [OF r1(2)] by blast
  have "get r2 i = (if hi r \<le> i \<and> i < hi r + length (v # vs) then Some ((v # vs) ! (i - hi r)) else get r i)" for i
  proof (cases "i = hi r \<or> i < hi r")
    case False
    then have "hi r < i" by simp
    then have "i - hi r = Suc (i - hi r1)" using r1(4) by (simp add: Suc_diff_Suc)
    then show ?thesis using False r1 r2 by auto
  qed (use r1 r2 in auto)
  then show ?case using r1 r2 by (intro exI [of _ r2]) simp
qed auto

text \<open>A log filled from empty and pruned keeps exactly the entries at or above the pruning point.\<close>

lemma pruned_log:
  assumes "inv r" "lo r = base" "hi r = base" "push_all push r vs = Some r'" "base \<le> b" "b \<le> base + length vs"
  shows "get (prune r' b) i = (if b \<le> i \<and> i < base + length vs then Some (vs ! (i - base)) else None)"
proof -
  obtain r2 where r2: "push_all push r vs = Some r2" "inv r2" "lo r2 = lo r" "hi r2 = hi r + length vs"
      "\<forall>i. get r2 i = (if hi r \<le> i \<and> i < hi r + length vs then Some (vs ! (i - hi r)) else get r i)"
    using push_all_ok [OF assms(1)] by blast
  have "get r i = None" for i using get_live [OF assms(1), of i] assms(2,3) by (cases "get r i") auto
  then show ?thesis using r2 assms prune_ok [OF r2(2), of b i] by auto
qed

end

interpretation ring_log: index_log ring_ok r_base r_tip ring_get ring_push prune_below
proof unfold_locales
  show "ring_ok r \<Longrightarrow> r_base r \<le> r_tip r" for r :: "'a ring" by (simp add: ring_ok_def)
  show "ring_ok r \<Longrightarrow> ring_ok (prune_below r b) \<and> r_tip (prune_below r b) = r_tip r
      \<and> r_base (prune_below r b) = min (max b (r_base r)) (r_tip r)
      \<and> ring_get (prune_below r b) i = (if i < b then None else ring_get r i)" for r :: "'a ring" and b i
    by (simp add: prune_below_ok)
  show "ring_ok r \<Longrightarrow> (\<exists>v. ring_get r i = Some v) = (r_base r \<le> i \<and> i < r_tip r)" for r :: "'a ring" and i
    by (rule ring_get_live)
  show "ring_ok r \<Longrightarrow> \<exists>r'. ring_push r v = Some (r_tip r, r') \<and> ring_ok r' \<and> r_base r' = r_base r
      \<and> r_tip r' = r_tip r + 1 \<and> (\<forall>i. ring_get r' i = (if i = r_tip r then Some v else ring_get r i))"
    for r :: "'a ring" and v by (rule ring_push_ok)
qed

subsection \<open>Properties\<close>





end
