(* ===== verification/Canonical_Chain.thy ===== *)
theory Canonical_Chain
  imports Atomic_Ring
begin

text \<open>
  The canonical chain of \<open>storage/canonical-chain/src\<close>: one bit per batch id, in buckets of
  128 ids (\<open>bucket.rs\<close>), the two hot buckets (\<open>hot_zone.rs\<close>), the sealed buckets in
  a ring, immutable snapshots for readers (\<open>snapshot.rs\<close>) and the writer's operations
  (\<open>chain.rs\<close>).

  Buckets and rings are shared between snapshots by reference and some operations write to them
  in place, so they live in an explicit heap and snapshots hold addresses.  \<open>debug\<close> says
  whether debug assertions are compiled in; a panic is \<open>None\<close>.

  The lemmas show that the writer implements a set of canonical ids (\<open>chain_spec\<close>) and that
  a snapshot keeps its answers for all ids that are not finalized, whatever the writer does later.
\<close>

subsection \<open>Buckets\<close>

definition CAPACITY :: nat where "CAPACITY = 128"

type_synonym bucket = "u64 list"

definition bucket_new :: bucket where
  "bucket_new = replicate (CAPACITY div 64) 0"

definition bucket_get :: "bucket \<Rightarrow> nat \<Rightarrow> bool" where
  "bucket_get ws i = (drop_bit (i mod 64) (ws ! (i div 64)) AND 1 = 1)"

definition bucket_set :: "bucket \<Rightarrow> nat \<Rightarrow> bucket" where
  "bucket_set ws i = ws[i div 64 := (ws ! (i div 64)) OR push_bit (i mod 64) 1]"

fun bucket_edited :: "bucket \<Rightarrow> (nat \<times> bool) list \<Rightarrow> bucket" where
  "bucket_edited ws [] = ws"
| "bucket_edited ws ((i, value) # ops) =
    (let mask = push_bit (i mod 64) 1;
         w = ws ! (i div 64)
     in bucket_edited (ws[i div 64 := if value then w OR mask else w AND NOT mask]) ops)"

definition locate :: "nat \<Rightarrow> nat \<times> nat" where
  "locate i = ((i - 1) div CAPACITY, (i - 1) mod CAPACITY)"

subsection \<open>Heap, hot zone and snapshots\<close>

type_synonym addr = nat

record chain_heap =
  h_buckets :: "addr \<Rightarrow> bucket"
  h_rings :: "addr \<Rightarrow> addr ring"
  h_next :: addr
  h_next_ring :: addr

record hot_zone =
  tail_bucket :: nat
  tail :: addr
  last_sealed :: addr

record snapshot =
  sn_tip :: nat
  sn_hot :: hot_zone
  sn_body :: addr

definition alloc_bucket :: "bucket \<Rightarrow> chain_heap \<Rightarrow> addr \<times> chain_heap" where
  "alloc_bucket ws h =
    (h_next h, h\<lparr>h_buckets := (h_buckets h)(h_next h := ws), h_next := h_next h + 1\<rparr>)"

definition alloc_ring :: "addr ring \<Rightarrow> chain_heap \<Rightarrow> addr \<times> chain_heap" where
  "alloc_ring r h = 
    (h_next_ring h, h\<lparr>h_rings := (h_rings h)(h_next_ring h := r), h_next_ring := h_next_ring h + 1\<rparr>)"

definition put_ring :: "addr \<Rightarrow> addr ring \<Rightarrow> chain_heap \<Rightarrow> chain_heap" where
  "put_ring a r h = h\<lparr>h_rings := (h_rings h)(a := r)\<rparr>"

definition bucket_at :: "hot_zone \<Rightarrow> nat \<Rightarrow> chain_heap \<Rightarrow> addr \<times> chain_heap" where
  "bucket_at hz i h =
    (if i = tail_bucket hz then (tail hz, h)
     else if 1 \<le> tail_bucket hz \<and> i = tail_bucket hz - 1 then (last_sealed hz, h)
     else alloc_bucket bucket_new h)"

lemma bucket_at_rings: "bucket_at hz i h = (a, h') \<Longrightarrow> h_rings h' = h_rings h"
  by (auto simp: bucket_at_def alloc_bucket_def split: if_splits)

lemma ring_push_tip: "ring_push r v = Some (i, r') \<Longrightarrow> r_tip r' = r_tip r + 1"
proof (induction r v rule: ring_push.induct)
  case (1 r v)
  then show ?case
    by (auto simp: ring_push.simps [of r] Let_def next_index_def split: if_splits option.splits dest!: grow_sel)
qed

function seal_loop :: "hot_zone \<Rightarrow> nat \<Rightarrow> addr \<Rightarrow> chain_heap \<Rightarrow> chain_heap option" where
  "seal_loop hz target body h =
    (if next_index (h_rings h body) + 1 < target then
       (let i = next_index (h_rings h body);
            (a, h) = bucket_at hz i h
        in case ring_push (h_rings h body) a of
             None \<Rightarrow> None
           | Some (_, r) \<Rightarrow> seal_loop hz target body (put_ring body r h))
     else Some h)"
  by pat_completeness auto
termination
  by (relation "measure (\<lambda>(_, target, body, h). target - r_tip (h_rings h body))")
    (auto simp: next_index_def put_ring_def dest!: ring_push_tip dest!: sym [of _ "bucket_at _ _ _"] bucket_at_rings)

declare seal_loop.simps [simp del]

definition roll_forward ::
  "bool \<Rightarrow> hot_zone \<Rightarrow> nat \<Rightarrow> addr \<Rightarrow> chain_heap \<Rightarrow> (hot_zone \<times> chain_heap) option" where
  "roll_forward debug hz target body h =
    (if debug \<and> target < tail_bucket hz then None
     else if target = tail_bucket hz then Some (hz, h)
     else case seal_loop hz target body h of
       None \<Rightarrow> None
     | Some h \<Rightarrow>
        (let (t, h) = alloc_bucket bucket_new h;
             (l, h) = bucket_at hz (if target = 0 then 2 ^ 64 - 1 else target - 1) h
         in Some (\<lparr>tail_bucket = target, tail = t, last_sealed = l\<rparr>, h)))"

definition is_canonical :: "chain_heap \<Rightarrow> snapshot \<Rightarrow> nat \<Rightarrow> bool" where
  "is_canonical h s i =
    (if i = 0 \<or> sn_tip s < i then False
     else
       (let (b, bit) = locate i;
            hot = sn_hot s
        in if b = tail_bucket hot then bucket_get (h_buckets h (tail hot)) bit
           else if 1 \<le> tail_bucket hot \<and> b = tail_bucket hot - 1
           then bucket_get (h_buckets h (last_sealed hot)) bit
           else case ring_with (h_rings h (sn_body s)) b (\<lambda>sealed. bucket_get (h_buckets h sealed) bit) of
             Some v \<Rightarrow> v
           | None \<Rightarrow> True))"

subsection \<open>The writer\<close>

record chain =
  c_heap :: chain_heap
  c_current :: snapshot

definition hz_empty :: "chain_heap \<Rightarrow> hot_zone \<times> chain_heap" where
  "hz_empty h =
    (let (t, h) = alloc_bucket bucket_new h;
         (l, h) = alloc_bucket bucket_new h
     in (\<lparr>tail_bucket = 0, tail = t, last_sealed = l\<rparr>, h))"

definition chain_default :: "chain option" where
  "chain_default =
    map_option (\<lambda>r.
      (let h = \<lparr>h_buckets = \<lambda>_. bucket_new, h_rings = \<lambda>_. r, h_next = 0, h_next_ring = 0\<rparr>;
           (hz, h) = hz_empty h;
           (b, h) = alloc_ring r h
       in \<lparr>c_heap = h, c_current = \<lparr>sn_tip = 0, sn_hot = hz, sn_body = b\<rparr>\<rparr>)) (ring_new 0)"

definition chain_append :: "bool \<Rightarrow> chain \<Rightarrow> nat \<Rightarrow> chain option" where
  "chain_append debug c i =
    (let cur = c_current c in
     if debug \<and> \<not> sn_tip cur < i then None
     else
       (let (b, bit) = locate i in
        case roll_forward debug (sn_hot cur) b (sn_body cur) (c_heap c) of
          None \<Rightarrow> None
        | Some (hz, h) \<Rightarrow>
           (let h = h\<lparr>h_buckets := (h_buckets h)(tail hz := bucket_set (h_buckets h (tail hz)) bit)\<rparr>
            in Some \<lparr>c_heap = h, c_current = \<lparr>sn_tip = i, sn_hot = hz, sn_body = sn_body cur\<rparr>\<rparr>)))"

text \<open>The edits grouped by bucket, in ascending bucket order.\<close>

definition rollback_edits :: "nat \<Rightarrow> nat \<Rightarrow> (nat \<times> (nat \<times> bool) list) list" where
  "rollback_edits new_tip old_tip =
    (let ids = [new_tip + 1..<old_tip + 1] in
     map (\<lambda>b. (b, map (\<lambda>i. (snd (locate i), False)) (filter (\<lambda>i. fst (locate i) = b) ids)))
       (remdups_adj (map (\<lambda>i. fst (locate i)) ids)))"

definition apply_edit ::
  "addr \<Rightarrow> nat \<times> (nat \<times> bool) list \<Rightarrow> hot_zone \<times> chain_heap \<Rightarrow> hot_zone \<times> chain_heap" where
  "apply_edit body =
    (\<lambda>(b, ops) (hz, h).
      if b = tail_bucket hz then
        (let (a, h) = alloc_bucket (bucket_edited (h_buckets h (tail hz)) ops) h in (hz\<lparr>tail := a\<rparr>, h))
      else if 1 \<le> tail_bucket hz \<and> b = tail_bucket hz - 1 then
        (let (a, h) = alloc_bucket (bucket_edited (h_buckets h (last_sealed hz)) ops) h in (hz\<lparr>last_sealed := a\<rparr>, h))
      else case ring_get (h_rings h body) b of
        Some sealed \<Rightarrow>
          (let (a, h) = alloc_bucket (bucket_edited (h_buckets h sealed) ops) h
           in (hz, put_ring body (ring_replace (h_rings h body) b a) h))
      | None \<Rightarrow> (hz, h))"

definition chain_rollback :: "bool \<Rightarrow> chain \<Rightarrow> nat \<Rightarrow> chain option" where
  "chain_rollback debug c new_tip =
    (let cur = c_current c; h = c_heap c in
     if debug \<and> \<not> new_tip \<le> sn_tip cur then None
     else
       (let deep = (fst (locate (new_tip + 1)) + 2 \<le> tail_bucket (sn_hot cur)) in
        case (if deep then map_option (\<lambda>r. alloc_ring r h) (ring_fork (h_rings h (sn_body cur)))
              else Some (sn_body cur, h)) of
          None \<Rightarrow> None
        | Some (body, h) \<Rightarrow>
           (case roll_forward debug (sn_hot cur) (tail_bucket (sn_hot cur)) body h of
              None \<Rightarrow> None
            | Some (hz, h) \<Rightarrow>
               (let (hz, h) = fold (apply_edit body) (rollback_edits new_tip (sn_tip cur)) (hz, h)
                in Some \<lparr>c_heap = h, c_current = \<lparr>sn_tip = new_tip, sn_hot = hz, sn_body = body\<rparr>\<rparr>))))"

definition chain_finalize :: "chain \<Rightarrow> nat \<Rightarrow> chain" where
  "chain_finalize c below =
    (if 1 < below then
       (let b = sn_body (c_current c)
        in c\<lparr>c_heap := put_ring b (prune_below (h_rings (c_heap c) b) (fst (locate below))) (c_heap c)\<rparr>)
     else c)"

text \<open>Rebuilding the chain at startup; an index outside the live range is a panic.\<close>

fun set_bits :: "nat \<Rightarrow> bucket list \<Rightarrow> nat list \<Rightarrow> bucket list option" where
  "set_bits base_bucket buckets [] = Some buckets"
| "set_bits base_bucket buckets (i # ids) =
    (let (b, bit) = locate i in
     if b < base_bucket \<or> length buckets \<le> b - base_bucket then None
     else set_bits base_bucket
       (buckets[b - base_bucket := bucket_set (buckets ! (b - base_bucket)) bit]) ids)"

fun alloc_all :: "bucket list \<Rightarrow> chain_heap \<Rightarrow> addr list \<times> chain_heap" where
  "alloc_all [] h = ([], h)"
| "alloc_all (ws # bs) h = (let (a, h) = alloc_bucket ws h; (as, h) = alloc_all bs h in (a # as, h))"

definition chain_restore :: "chain \<Rightarrow> nat \<Rightarrow> nat \<Rightarrow> nat list \<Rightarrow> chain option" where
  "chain_restore c base tip canonical =
    (if tip = 0 then Some c
     else
       (let base_bucket = fst (locate base); tb = fst (locate tip) in
        if tb < base_bucket then None
        else case set_bits base_bucket (replicate (tb - base_bucket + 1) bucket_new) canonical of
          None \<Rightarrow> None
        | Some buckets \<Rightarrow>
           (let (t, h) = alloc_bucket (last buckets) (c_heap c);
                rest = butlast buckets;
                (l, h) = alloc_bucket (if rest = [] then bucket_new else last rest) h;
                (as, h) = alloc_all (butlast rest) h
            in case Option.bind (ring_new base_bucket) (\<lambda>r. push_all ring_push r as) of
                 None \<Rightarrow> None
               | Some r \<Rightarrow>
                  (let (body, h) = alloc_ring r h
                   in Some \<lparr>c_heap = h, c_current = \<lparr>sn_tip = tip,
                        sn_hot = \<lparr>tail_bucket = tb, tail = t, last_sealed = l\<rparr>, sn_body = body\<rparr>\<rparr>))))"

subsection \<open>Bits of a bucket\<close>

lemma bucket_get_bit: "bucket_get ws i = bit (ws ! (i div 64)) (i mod 64)"
  by (simp add: bucket_get_def and_one_eq bit_iff_odd_drop_bit odd_iff_mod_2_eq_one)

lemma bit_mask: "bit (2 ^ n :: u64) m \<longleftrightarrow> m = n \<and> n < 64"
  by (auto simp: bit_simps)

lemma word_index_eq: "i div 64 = j div 64 \<Longrightarrow> i mod 64 = j mod 64 \<Longrightarrow> i = (j :: nat)"
  by (metis div_mult_mod_eq)

definition bucket_ok :: "bucket \<Rightarrow> bool" where
  "bucket_ok ws \<longleftrightarrow> length ws = CAPACITY div 64"

lemma bucket_index: "bucket_ok ws \<Longrightarrow> i < CAPACITY \<Longrightarrow> i div 64 < length ws"
  by (simp add: bucket_ok_def CAPACITY_def)

lemma bucket_new_ok [simp]: "bucket_ok bucket_new" "i < CAPACITY \<Longrightarrow> \<not> bucket_get bucket_new i"
  by (simp_all add: bucket_ok_def bucket_new_def CAPACITY_def bucket_get_bit)

lemma bucket_set_ok [simp]: "bucket_ok (bucket_set ws i) = bucket_ok ws"
  by (simp add: bucket_ok_def bucket_set_def)

lemma bucket_get_set:
  assumes "bucket_ok ws" "i < CAPACITY" "j < CAPACITY"
  shows "bucket_get (bucket_set ws i) j \<longleftrightarrow> i = j \<or> bucket_get ws j"
proof (cases "i div 64 = j div 64")
  case True
  then have "j mod 64 = i mod 64 \<longleftrightarrow> i = j" using word_index_eq [of i j] by metis
  then show ?thesis
    using True bucket_index [OF assms(1,2)] by (simp add: bucket_get_bit bucket_set_def bit_or_iff bit_mask) blast
next
  case False
  then show ?thesis by (auto simp: bucket_get_bit bucket_set_def)
qed

lemma bucket_edited_ok [simp]: "bucket_ok (bucket_edited ws ops) = bucket_ok ws"
  by (induction ws ops rule: bucket_edited.induct) (simp_all add: bucket_ok_def Let_def)

lemma bucket_get_cleared:
  assumes "bucket_ok ws" "j < CAPACITY" "\<forall>(i, v) \<in> set ops. i < CAPACITY \<and> \<not> v"
  shows "bucket_get (bucket_edited ws ops) j \<longleftrightarrow> bucket_get ws j \<and> j \<notin> fst ` set ops"
  using assms
proof (induction ws ops rule: bucket_edited.induct)
  case (2 ws i v ops)
  let ?w = "ws[i div 64 := (ws ! (i div 64)) AND NOT (push_bit (i mod 64) 1)]"
  have i: "i < CAPACITY" "\<not> v" using "2.prems"(3) by auto
  have ok: "bucket_ok ?w" using "2.prems"(1) by (simp add: bucket_ok_def)
  have "bucket_get ?w j \<longleftrightarrow> bucket_get ws j \<and> j \<noteq> i"
  proof (cases "i div 64 = j div 64")
    case True
    then have "j mod 64 = i mod 64 \<longleftrightarrow> i = j" using word_index_eq [of i j] by metis
    then show ?thesis
      using True bucket_index [OF "2.prems"(1) i(1)] by (simp add: bucket_get_bit bit_and_iff bit_not_iff bit_mask) blast
  next
    case False
    then show ?thesis by (auto simp: bucket_get_bit)
  qed
  then show ?case using "2.IH" [OF refl refl] ok "2.prems" i(2) by (auto simp: Let_def)
qed simp

lemma locate_bit: "snd (locate i) < CAPACITY"
  by (simp add: locate_def CAPACITY_def)

lemma locate_inj: "0 < i \<Longrightarrow> 0 < j \<Longrightarrow> locate i = locate j \<Longrightarrow> i = j"
  unfolding locate_def by (metis Suc_pred' diff_Suc_1 div_mult_mod_eq prod.inject)

lemma locate_mono: "i \<le> j \<Longrightarrow> fst (locate i) \<le> fst (locate j)"
  by (simp add: locate_def CAPACITY_def div_le_mono diff_le_mono)

subsection \<open>What a snapshot shows\<close>

definition view :: "chain_heap \<Rightarrow> snapshot \<Rightarrow> nat \<Rightarrow> bucket option" where
  "view h s b =
    (if b = tail_bucket (sn_hot s) then Some (h_buckets h (tail (sn_hot s)))
     else if 1 \<le> tail_bucket (sn_hot s) \<and> b = tail_bucket (sn_hot s) - 1
     then Some (h_buckets h (last_sealed (sn_hot s)))
     else map_option (h_buckets h) (ring_get (h_rings h (sn_body s)) b))"

definition bit_in :: "chain_heap \<Rightarrow> snapshot \<Rightarrow> nat \<Rightarrow> bool" where
  "bit_in h s i = (case view h s (fst (locate i)) of Some ws \<Rightarrow> bucket_get ws (snd (locate i)) | None \<Rightarrow> True)"

lemma is_canonical_view: "is_canonical h s i \<longleftrightarrow> 0 < i \<and> i \<le> sn_tip s \<and> bit_in h s i"
  by (auto simp: is_canonical_def bit_in_def view_def ring_with_get split: prod.splits option.splits)

definition hot_addrs :: "snapshot \<Rightarrow> addr set" where
  "hot_addrs s = {tail (sn_hot s), last_sealed (sn_hot s)}"

definition body_addrs :: "chain_heap \<Rightarrow> snapshot \<Rightarrow> addr set" where
  "body_addrs h s = {a. \<exists>b. ring_get (h_rings h (sn_body s)) b = Some a}"

definition snap_ok :: "chain_heap \<Rightarrow> snapshot \<Rightarrow> bool" where
  "snap_ok h s \<longleftrightarrow> (\<forall>a < h_next h. bucket_ok (h_buckets h a))
    \<and> hot_addrs s \<union> body_addrs h s \<subseteq> {..<h_next h} \<and> sn_body s < h_next_ring h
    \<and> ring_ok (h_rings h (sn_body s)) \<and> tail_bucket (sn_hot s) - 1 \<le> r_tip (h_rings h (sn_body s))
    \<and> (0 < sn_tip s \<longrightarrow> fst (locate (sn_tip s)) \<le> tail_bucket (sn_hot s))"

text \<open>
  The writer's own snapshot: nothing is set above its tip, the ring ends right below the hot zone
  and is pruned only below the tip, and the tail, which is written in place, is referenced nowhere
  else.
\<close>

definition cur_ok :: "chain_heap \<Rightarrow> snapshot \<Rightarrow> bool" where
  "cur_ok h s \<longleftrightarrow> snap_ok h s
    \<and> (\<forall>i > sn_tip s. \<forall>ws. view h s (fst (locate i)) = Some ws \<longrightarrow> \<not> bucket_get ws (snd (locate i)))
    \<and> r_tip (h_rings h (sn_body s)) \<le> tail_bucket (sn_hot s)
    \<and> (r_tip (h_rings h (sn_body s)) \<le> tail_bucket (sn_hot s) - 1
        \<or> r_base (h_rings h (sn_body s)) = tail_bucket (sn_hot s))
    \<and> r_base (h_rings h (sn_body s)) \<le> fst (locate (sn_tip s + 1))
    \<and> tail (sn_hot s) \<noteq> last_sealed (sn_hot s) \<and> tail (sn_hot s) \<notin> body_addrs h s"

text \<open>A snapshot held by a reader beside the writer's.\<close>

definition held_ok :: "chain_heap \<Rightarrow> snapshot \<Rightarrow> snapshot \<Rightarrow> bool" where
  "held_ok h cur s \<longleftrightarrow> snap_ok h s \<and> last_sealed (sn_hot s) \<noteq> tail (sn_hot cur)
    \<and> (\<forall>b < tail_bucket (sn_hot s) - 1. ring_get (h_rings h (sn_body s)) b \<noteq> Some (tail (sn_hot cur)))
    \<and> (tail (sn_hot s) = tail (sn_hot cur) \<longrightarrow> tail_bucket (sn_hot s) = tail_bucket (sn_hot cur)
        \<and> (sn_tip s \<le> sn_tip cur \<or> fst (locate (sn_tip s)) < tail_bucket (sn_hot s)))"

subsection \<open>Sealing buckets\<close>

definition grew :: "chain_heap \<Rightarrow> chain_heap \<Rightarrow> bool" where
  "grew h h' \<longleftrightarrow> h_next h \<le> h_next h' \<and> h_next_ring h \<le> h_next_ring h' \<and> (\<forall>a < h_next h. h_buckets h' a = h_buckets h a)
    \<and> (\<forall>a. h_next h \<le> a \<and> a < h_next h' \<longrightarrow> bucket_ok (h_buckets h' a))"

lemma grew_refl [simp]: "grew h h"
  by (auto simp: grew_def)

lemma grew_trans: "grew h1 h2 \<Longrightarrow> grew h2 h3 \<Longrightarrow> grew h1 h3"
  unfolding grew_def by (metis le_trans less_le_trans not_le)

lemma grew_alloc: "bucket_ok ws \<Longrightarrow> alloc_bucket ws h = (a, h') \<Longrightarrow> grew h h' \<and> a = h_next h
    \<and> h_next h' = h_next h + 1 \<and> h_buckets h' a = ws \<and> h_rings h' = h_rings h"
  by (auto simp: alloc_bucket_def grew_def)

lemma grew_put_ring [simp]: "grew h (put_ring b r h') = grew h h'"
  by (simp add: grew_def put_ring_def)

lemma put_ring_sel [simp]:
  "h_next (put_ring b r h) = h_next h" "h_next_ring (put_ring b r h) = h_next_ring h" "h_buckets (put_ring b r h) = h_buckets h"
  "h_rings (put_ring b r h) = (h_rings h)(b := r)"
  by (simp_all add: put_ring_def)

definition bucket_kept :: "chain_heap \<Rightarrow> hot_zone \<Rightarrow> chain_heap \<Rightarrow> nat \<Rightarrow> addr \<Rightarrow> bool" where
  "bucket_kept h hz h' b a \<longleftrightarrow> a < h_next h' \<and>
    (if b = tail_bucket hz then a = tail hz
     else if 1 \<le> tail_bucket hz \<and> b = tail_bucket hz - 1 then a = last_sealed hz
     else h_next h \<le> a \<and> h_buckets h' a = bucket_new)"

lemma bucket_at_ok:
  assumes "tail hz < h_next h" "last_sealed hz < h_next h" "grew h0 h" "h_next h0 \<le> h_next h"
    and "bucket_at hz i h = (a, h')"
  shows "bucket_kept h0 hz h' i a" "grew h h'" "h_rings h' = h_rings h"
proof -
  have "bucket_kept h0 hz h' i a \<and> grew h h' \<and> h_rings h' = h_rings h"
  proof (cases "i = tail_bucket hz \<or> (1 \<le> tail_bucket hz \<and> i = tail_bucket hz - 1)")
    case True
    then show ?thesis using assms by (auto simp: bucket_at_def bucket_kept_def)
  next
    case False
    then have "alloc_bucket bucket_new h = (a, h')" using assms(5) by (auto simp: bucket_at_def split: if_splits)
    then show ?thesis using grew_alloc [of bucket_new h a h'] False assms(4) by (auto simp: bucket_kept_def)
  qed
  then show "bucket_kept h0 hz h' i a" "grew h h'" "h_rings h' = h_rings h" by blast+
qed

lemma bucket_kept_mono: "bucket_kept h0 hz h b a \<Longrightarrow> grew h h' \<Longrightarrow> bucket_kept h0 hz h' b a"
  by (auto simp: bucket_kept_def grew_def split: if_splits)

definition sealed_to :: "chain_heap \<Rightarrow> hot_zone \<Rightarrow> addr \<Rightarrow> chain_heap \<Rightarrow> bool" where
  "sealed_to h hz body h' \<longleftrightarrow> grew h h' \<and> (\<forall>b. b \<noteq> body \<longrightarrow> h_rings h' b = h_rings h b)
    \<and> ring_ok (h_rings h' body) \<and> r_tip (h_rings h body) \<le> r_tip (h_rings h' body)
    \<and> r_base (h_rings h' body) = r_base (h_rings h body)
    \<and> (\<forall>b < r_tip (h_rings h body). ring_get (h_rings h' body) b = ring_get (h_rings h body) b)
    \<and> (\<forall>b a. r_tip (h_rings h body) \<le> b \<and> ring_get (h_rings h' body) b = Some a \<longrightarrow> bucket_kept h hz h' b a)"

lemma sealed_toD:
  assumes "sealed_to h hz body h'"
  shows "grew h h'" "b \<noteq> body \<Longrightarrow> h_rings h' b = h_rings h b" "ring_ok (h_rings h' body)"
    "r_tip (h_rings h body) \<le> r_tip (h_rings h' body)"
    "b < r_tip (h_rings h body) \<Longrightarrow> ring_get (h_rings h' body) b = ring_get (h_rings h body) b"
    "r_tip (h_rings h body) \<le> b \<Longrightarrow> ring_get (h_rings h' body) b = Some a \<Longrightarrow> bucket_kept h hz h' b a"
    "r_base (h_rings h' body) = r_base (h_rings h body)"
  using assms unfolding sealed_to_def by blast+

lemma ring_get_above: "ring_ok r \<Longrightarrow> r_tip r \<le> b \<Longrightarrow> ring_get r b = None"
  using ring_get_live [of r b] by (cases "ring_get r b") auto

lemma seal_loop_ok:
  "tail hz < h_next h \<Longrightarrow> last_sealed hz < h_next h \<Longrightarrow> sealed_to h hz body h2 \<Longrightarrow>
    r_tip (h_rings h2 body) < target \<Longrightarrow> \<exists>h3. seal_loop hz target body h2 = Some h3
    \<and> sealed_to h hz body h3 \<and> r_tip (h_rings h3 body) = target - 1"
proof (induction hz target body h2 rule: seal_loop.induct)
  case (1 hz target body h2)
  let ?r = "h_rings h2 body"
  show ?case
  proof (cases "r_tip ?r + 1 < target")
    case False
    then show ?thesis using "1.prems" by (simp add: seal_loop.simps [of hz target body h2] next_index_def)
  next
    case True
    obtain a h3 where at: "bucket_at hz (r_tip ?r) h2 = (a, h3)" by (cases "bucket_at hz (r_tip ?r) h2")
    note s = sealed_toD [OF "1.prems"(3)]
    have gr: "grew h h2" and nx: "h_next h \<le> h_next h2" using s(1) by (auto simp: grew_def)
    have ba: "bucket_kept h hz h3 (r_tip ?r) a" "grew h2 h3" "h_rings h3 = h_rings h2"
      using bucket_at_ok [OF _ _ gr nx at] "1.prems"(1,2) nx by auto
    obtain r' where r': "ring_push ?r a = Some (r_tip ?r, r')" "ring_ok r'" "r_tip r' = r_tip ?r + 1"
        "r_base r' = r_base ?r" "\<forall>i. ring_get r' i = (if i = r_tip ?r then Some a else ring_get ?r i)"
      using ring_push_ok [OF s(3)] by blast
    have kept: "bucket_kept h hz h3 b c" if "r_tip (h_rings h body) \<le> b" "ring_get r' b = Some c" for b c
      using that s(6) [of b c] r'(5) ba(1) bucket_kept_mono [OF _ ba(2)] by (cases "b = r_tip ?r") auto
    have "sealed_to h hz body (put_ring body r' h3)"
      unfolding sealed_to_def
    proof (intro conjI allI impI)
      show "grew h (put_ring body r' h3)" using grew_trans [OF gr ba(2)] by simp
      show "h_rings (put_ring body r' h3) b = h_rings h b" if "b \<noteq> body" for b using s(2) that ba(3) by simp
      show "ring_ok (h_rings (put_ring body r' h3) body)" using r'(2) by simp
      show "r_tip (h_rings h body) \<le> r_tip (h_rings (put_ring body r' h3) body)" using s(4) r'(3) by simp
      show "ring_get (h_rings (put_ring body r' h3) body) b = ring_get (h_rings h body) b"
        if "b < r_tip (h_rings h body)" for b using r'(5) s(4,5) that by simp
      show "r_base (h_rings (put_ring body r' h3) body) = r_base (h_rings h body)" using r'(4) s(7) by simp
      show "bucket_kept h hz (put_ring body r' h3) b c"
        if "r_tip (h_rings h body) \<le> b \<and> ring_get (h_rings (put_ring body r' h3) body) b = Some c" for b c
        using kept [of b c] that by (simp add: bucket_kept_def)
    qed
    moreover have "next_index ?r + 1 < target" "bucket_at hz (next_index ?r) h2 = (a, h3)"
        "ring_push (h_rings h3 body) a = Some (r_tip ?r, r')"
      using True at r'(1) ba(3) by (simp_all add: next_index_def)
    note IH = "1.IH" [OF this(1) refl refl this(2) [symmetric] this(3) refl "1.prems"(1,2)]
    ultimately obtain h4 where "seal_loop hz target body (put_ring body r' h3) = Some h4" "sealed_to h hz body h4"
        "r_tip (h_rings h4 body) = target - 1"
      using IH True r'(3) by auto
    then show ?thesis
      using True at r'(1) ba(3) by (simp add: seal_loop.simps [of hz target body h2] next_index_def Let_def)
  qed
qed

lemma snap_okD:
  assumes "snap_ok h s"
  shows "a < h_next h \<Longrightarrow> bucket_ok (h_buckets h a)" "tail (sn_hot s) < h_next h" "last_sealed (sn_hot s) < h_next h"
    "ring_get (h_rings h (sn_body s)) b = Some a \<Longrightarrow> a < h_next h" "sn_body s < h_next_ring h"
    "ring_ok (h_rings h (sn_body s))" "tail_bucket (sn_hot s) - 1 \<le> r_tip (h_rings h (sn_body s))"
    "0 < sn_tip s \<Longrightarrow> fst (locate (sn_tip s)) \<le> tail_bucket (sn_hot s)"
  using assms by (auto simp: snap_ok_def hot_addrs_def body_addrs_def)

lemma snap_okI:
  assumes "\<And>a. a < h_next h \<Longrightarrow> bucket_ok (h_buckets h a)" "tail (sn_hot s) < h_next h" "last_sealed (sn_hot s) < h_next h"
    "\<And>b a. ring_get (h_rings h (sn_body s)) b = Some a \<Longrightarrow> a < h_next h" "sn_body s < h_next_ring h"
    "ring_ok (h_rings h (sn_body s))" "tail_bucket (sn_hot s) - 1 \<le> r_tip (h_rings h (sn_body s))"
    "0 < sn_tip s \<Longrightarrow> fst (locate (sn_tip s)) \<le> tail_bucket (sn_hot s)"
  shows "snap_ok h s"
  using assms unfolding snap_ok_def hot_addrs_def body_addrs_def by auto

lemma cur_okD:
  assumes "cur_ok h s"
  shows "snap_ok h s" "sn_tip s < i \<Longrightarrow> view h s (fst (locate i)) = Some ws \<Longrightarrow> \<not> bucket_get ws (snd (locate i))"
    "r_tip (h_rings h (sn_body s)) \<le> tail_bucket (sn_hot s)"
    "r_base (h_rings h (sn_body s)) \<le> fst (locate (sn_tip s + 1))"
    "tail (sn_hot s) \<noteq> last_sealed (sn_hot s)" "ring_get (h_rings h (sn_body s)) b \<noteq> Some (tail (sn_hot s))"
    "r_tip (h_rings h (sn_body s)) \<le> tail_bucket (sn_hot s) - 1 \<or> r_base (h_rings h (sn_body s)) = tail_bucket (sn_hot s)"
  using assms by (auto simp: cur_ok_def body_addrs_def)

lemma view_above:
  assumes "cur_ok h s" "tail_bucket (sn_hot s) < b"
  shows "view h s b = None"
  using assms(2) cur_okD(3) [OF assms(1)] ring_get_above [OF snap_okD(6) [OF cur_okD(1) [OF assms(1)]], of b]
  by (auto simp: view_def)

text \<open>Every bucket from the pruning point to the tail is present.\<close>

lemma view_Some:
  assumes "snap_ok h s" "r_base (h_rings h (sn_body s)) \<le> b" "b \<le> tail_bucket (sn_hot s)"
  shows "\<exists>ws. view h s b = Some ws \<and> bucket_ok ws"
proof -
  note s = snap_okD [OF assms(1)]
  show ?thesis
  proof (cases "b = tail_bucket (sn_hot s) \<or> (1 \<le> tail_bucket (sn_hot s) \<and> b = tail_bucket (sn_hot s) - 1)")
    case True
    then show ?thesis using s(1,2,3) by (auto simp: view_def)
  next
    case False
    then have "b < r_tip (h_rings h (sn_body s))" using assms(3) s(7) by linarith
    then obtain a where "ring_get (h_rings h (sn_body s)) b = Some a"
      using ring_get_live [OF s(6), of b] assms(2) by blast
    then show ?thesis using False s(1,4) by (auto simp: view_def)
  qed
qed

definition rolled :: "chain_heap \<Rightarrow> snapshot \<Rightarrow> nat \<Rightarrow> hot_zone \<Rightarrow> chain_heap \<Rightarrow> bool" where
  "rolled h s target hz h' \<longleftrightarrow> grew h h' \<and> tail_bucket hz = target
    \<and> (\<forall>b. b \<noteq> sn_body s \<longrightarrow> h_rings h' b = h_rings h b)
    \<and> (\<forall>b < r_tip (h_rings h (sn_body s)). ring_get (h_rings h' (sn_body s)) b = ring_get (h_rings h (sn_body s)) b)
    \<and> r_base (h_rings h' (sn_body s)) = r_base (h_rings h (sn_body s))
    \<and> r_tip (h_rings h (sn_body s)) \<le> r_tip (h_rings h' (sn_body s))
    \<and> (target = tail_bucket (sn_hot s) \<longrightarrow> hz = sn_hot s \<and> h' = h)
    \<and> (target \<noteq> tail_bucket (sn_hot s) \<longrightarrow> h_next h \<le> tail hz)
    \<and> (\<forall>b \<ge> r_base (h_rings h (sn_body s)). view h' (s\<lparr>sn_hot := hz\<rparr>) b =
        (if b \<le> tail_bucket (sn_hot s) then view h s b else if b \<le> target then Some bucket_new else None))
    \<and> snap_ok h' (s\<lparr>sn_hot := hz\<rparr>) \<and> r_tip (h_rings h' (sn_body s)) \<le> target
    \<and> (r_tip (h_rings h' (sn_body s)) \<le> target - 1 \<or> r_base (h_rings h' (sn_body s)) = target)
    \<and> tail hz \<noteq> last_sealed hz \<and> tail hz \<notin> body_addrs h' s"

lemma roll_forward_ok:
  assumes cur: "cur_ok h s" and le: "tail_bucket (sn_hot s) \<le> target"
  shows "\<exists>hz h'. roll_forward debug (sn_hot s) target (sn_body s) h = Some (hz, h') \<and> rolled h s target hz h'"
proof (cases "target = tail_bucket (sn_hot s)")
  case True
  have id: "s\<lparr>sn_hot := sn_hot s\<rparr> = s" by simp
  have "rolled h s target (sn_hot s) h"
    unfolding rolled_def id using True cur view_above [OF cur] by (auto simp: cur_ok_def)
  then show ?thesis using True by (simp add: roll_forward_def)
next
  case False
  let ?hz = "sn_hot s" and ?body = "sn_body s" and ?T = "tail_bucket (sn_hot s)"
  have lt: "?T < target" using False le by simp
  note sn = snap_okD [OF cur_okD(1) [OF cur]] and c = cur_okD [OF cur]
  have above: "ring_get (h_rings h ?body) b = None" if "r_tip (h_rings h ?body) \<le> b" for b
    using ring_get_above [OF sn(6) that] .
  have "sealed_to h ?hz ?body h" by (auto simp: sealed_to_def sn(6) above)
  moreover have "r_tip (h_rings h ?body) < target" using c(3) lt by simp
  ultimately obtain h1 where h1: "seal_loop ?hz target ?body h = Some h1" "sealed_to h ?hz ?body h1"
      "r_tip (h_rings h1 ?body) = target - 1"
    using seal_loop_ok [OF sn(2,3)] by blast
  obtain t h2 where h2: "alloc_bucket bucket_new h1 = (t, h2)" by (cases "alloc_bucket bucket_new h1")
  obtain l h3 where h3: "bucket_at ?hz (target - 1) h2 = (l, h3)" by (cases "bucket_at ?hz (target - 1) h2")
  define hz where "hz = \<lparr>tail_bucket = target, tail = t, last_sealed = l\<rparr>"
  have rf: "roll_forward debug ?hz target ?body h = Some (hz, h3)"
    using False lt h1(1) h2 h3 by (simp add: roll_forward_def hz_def)
  note s1 = sealed_toD [OF h1(2)]
  have g2: "grew h1 h2" "t = h_next h1" "h_next h2 = h_next h1 + 1" "h_buckets h2 t = bucket_new" "h_rings h2 = h_rings h1"
    using grew_alloc [OF bucket_new_ok(1) h2] by auto
  have nx: "h_next h \<le> h_next h1" using s1(1) by (simp add: grew_def)
  have g02: "grew h h2" using grew_trans [OF s1(1) g2(1)] .
  have g3: "bucket_kept h ?hz h3 (target - 1) l" "grew h2 h3" "h_rings h3 = h_rings h2"
    using bucket_at_ok [OF _ _ g02 _ h3] sn(2,3) nx g2(3) by auto
  have b3: "h_buckets h3 a = h_buckets h2 a" if "a < h_next h2" for a using g3(2) that by (simp add: grew_def)
  have b2: "h_buckets h2 a = h_buckets h1 a" if "a < h_next h1" for a using g2(1) that by (simp add: grew_def)
  have b1: "h_buckets h1 a = h_buckets h a" if "a < h_next h" for a using s1(1) that by (simp add: grew_def)
  have g03: "grew h h3" using grew_trans [OF g02 g3(2)] .
  have nx3: "h_next h2 \<le> h_next h3" using g3(2) by (simp add: grew_def)
  have old: "h_buckets h3 a = h_buckets h a" if "a < h_next h" for a using g03 that by (simp add: grew_def)
  have ring: "h_rings h3 ?body = h_rings h1 ?body" using g3(3) g2(5) by simp
  have kept: "h_buckets h3 a = h_buckets h1 a" if "a < h_next h1" for a using b3 b2 that g2(3) by simp
  have vw: "view h3 (s\<lparr>sn_hot := hz\<rparr>) b = (if b \<le> ?T then view h s b else if b \<le> target then Some bucket_new else None)"
    if lo: "r_base (h_rings h ?body) \<le> b" for b
  proof -
    consider "b = target" | "b = target - 1" | "b < target - 1" | "target < b" by linarith
    then show ?thesis
    proof cases
      case 1
      then show ?thesis using lt b3 [of t] g2(2,3,4) by (simp add: view_def hz_def)
    next
      case 2
      then show ?thesis using lt g3(1) old [OF sn(2)] by (auto simp: view_def hz_def bucket_kept_def split: if_splits)
    next
      case 3
      then obtain a where a: "ring_get (h_rings h1 ?body) b = Some a"
        using ring_get_live [OF s1(3), of b] h1(3) lo s1(7) by auto
      show ?thesis
      proof (cases "b < r_tip (h_rings h ?body)")
        case True
        then have "b < ?T - 1" using c(3,7) lo by auto
        then show ?thesis using 3 True a s1(5) [OF True] old [OF sn(4) [of b a]] by (auto simp: view_def hz_def ring)
      next
        case False
        then have k: "bucket_kept h ?hz h1 b a" using s1(6) a by simp
        then have a1: "h_buckets h3 a = h_buckets h1 a" using kept by (simp add: bucket_kept_def)
        have "\<not> b < ?T - 1" using False sn(7) by simp
        then show ?thesis
          using 3 k a a1 b1 [OF sn(2)] b1 [OF sn(3)] by (auto simp: view_def hz_def ring bucket_kept_def split: if_splits)
      qed
    next
      case 4
      then have "ring_get (h_rings h1 ?body) b = None" using ring_get_above [OF s1(3)] h1(3) by simp
      then show ?thesis using 4 lt by (auto simp: view_def hz_def ring)
    qed
  qed
  have adr: "a < h_next h1 \<and> a \<noteq> t" if "ring_get (h_rings h3 ?body) b = Some a" for a b
  proof (cases "b < r_tip (h_rings h ?body)")
    case True
    then show ?thesis using that s1(5) sn(4) [of b a] nx g2(2) by (simp add: ring)
  next
    case False
    then show ?thesis using that s1(6) [of b a] g2(2) by (auto simp: ring bucket_kept_def)
  qed
  have l: "l < h_next h3" "t \<noteq> l"
    using g3(1) lt sn(2) nx g2(2) b3 [of t] h3 g2(3) by (auto simp: bucket_kept_def bucket_at_def alloc_bucket_def split: if_splits)
  have "snap_ok h3 (s\<lparr>sn_hot := hz\<rparr>)"
  proof (rule snap_okI)
    show "bucket_ok (h_buckets h3 a)" if "a < h_next h3" for a
      using that g03 sn(1) [of a] by (cases "a < h_next h") (auto simp: grew_def)
    show "ring_get (h_rings h3 (sn_body (s\<lparr>sn_hot := hz\<rparr>))) b = Some a \<Longrightarrow> a < h_next h3" for a b
      using adr [of b a] g2(3) nx3 by simp
    show "sn_body (s\<lparr>sn_hot := hz\<rparr>) < h_next_ring h3" using sn(5) g03 by (simp add: grew_def)
  qed (use sn(8) nx nx3 g2(2,3) l(1) s1(3) h1(3) lt in \<open>auto simp: hz_def ring\<close>)
  moreover have "tail hz \<notin> body_addrs h3 s" using adr by (auto simp: body_addrs_def hz_def)
  moreover have "r_tip (h_rings h3 ?body) = target - 1" "r_base (h_rings h3 ?body) = r_base (h_rings h ?body)"
    "r_tip (h_rings h ?body) \<le> target - 1"
    using h1(3) s1(4,7) by (simp_all add: ring)
  moreover have "\<forall>b < r_tip (h_rings h ?body). ring_get (h_rings h3 ?body) b = ring_get (h_rings h ?body) b"
    using s1(5) by (simp add: ring)
  moreover have "\<forall>b. b \<noteq> ?body \<longrightarrow> h_rings h3 b = h_rings h b" using s1(2) g3(3) g2(5) by simp
  moreover have "tail hz \<noteq> last_sealed hz" "tail_bucket hz = target" "h_next h \<le> tail hz"
    using l(2) nx g2(2) by (simp_all add: hz_def)
  ultimately have "rolled h s target hz h3" unfolding rolled_def using g03 vw False by simp
  then show ?thesis using rf by blast
qed

subsection \<open>Appending\<close>

definition keeps_held :: "chain_heap \<Rightarrow> snapshot \<Rightarrow> chain_heap \<Rightarrow> snapshot \<Rightarrow> bool" where
  "keeps_held h s h' s' \<longleftrightarrow>
    (\<forall>v. held_ok h s v \<longrightarrow> held_ok h' s' v \<and> (\<forall>j. is_canonical h' v j = is_canonical h v j))"

lemma held_okD:
  assumes "held_ok h cur s"
  shows "snap_ok h s" "last_sealed (sn_hot s) \<noteq> tail (sn_hot cur)"
    "b < tail_bucket (sn_hot s) - 1 \<Longrightarrow> ring_get (h_rings h (sn_body s)) b \<noteq> Some (tail (sn_hot cur))"
    "tail (sn_hot s) = tail (sn_hot cur) \<Longrightarrow> tail_bucket (sn_hot s) = tail_bucket (sn_hot cur)
      \<and> (sn_tip s \<le> sn_tip cur \<or> fst (locate (sn_tip s)) < tail_bucket (sn_hot s))"
  using assms unfolding held_ok_def by blast+

lemma cur_held: "cur_ok h s \<Longrightarrow> held_ok h s s"
  using cur_okD [of h s] by (auto simp: held_ok_def)

lemma is_canonical_cong:
  assumes "\<And>b. b \<le> tail_bucket (sn_hot s) \<Longrightarrow> view h' s b = view h s b" "snap_ok h s"
  shows "is_canonical h' s j = is_canonical h s j"
proof (cases "0 < j \<and> j \<le> sn_tip s")
  case True
  then have "fst (locate j) \<le> tail_bucket (sn_hot s)"
    using locate_mono [of j "sn_tip s"] snap_okD(8) [OF assms(2)] by linarith
  then show ?thesis using assms(1) by (simp add: is_canonical_view bit_in_def)
next
  case False
  then show ?thesis by (auto simp: is_canonical_view)
qed

lemma view_tail_set:
  assumes "tail (sn_hot s) \<noteq> last_sealed (sn_hot s)" "tail (sn_hot s) \<notin> body_addrs h s"
    and "h' = h\<lparr>h_buckets := (h_buckets h)(tail (sn_hot s) := ws)\<rparr>"
  shows "view h' s b = (if b = tail_bucket (sn_hot s) then Some ws else view h s b)"
proof -
  have "map_option (h_buckets h') (ring_get (h_rings h (sn_body s)) b) =
      map_option (h_buckets h) (ring_get (h_rings h (sn_body s)) b)"
    using assms(2) by (cases "ring_get (h_rings h (sn_body s)) b") (auto simp: assms(3) body_addrs_def)
  then show ?thesis using assms(1) by (simp add: view_def assms(3))
qed

lemma snap_ok_set:
  assumes "snap_ok h s" "bucket_ok ws"
  shows "snap_ok (h\<lparr>h_buckets := (h_buckets h)(a := ws)\<rparr>) s"
  using snap_okD [OF assms(1)] assms(2) by (intro snap_okI) auto

lemma rolledD:
  assumes "rolled h s target hz h'"
  shows "grew h h'" "tail_bucket hz = target" "b \<noteq> sn_body s \<Longrightarrow> h_rings h' b = h_rings h b"
    "b < r_tip (h_rings h (sn_body s)) \<Longrightarrow> ring_get (h_rings h' (sn_body s)) b = ring_get (h_rings h (sn_body s)) b"
    "r_base (h_rings h' (sn_body s)) = r_base (h_rings h (sn_body s))"
    "target = tail_bucket (sn_hot s) \<Longrightarrow> hz = sn_hot s \<and> h' = h"
    "target \<noteq> tail_bucket (sn_hot s) \<Longrightarrow> h_next h \<le> tail hz"
    "r_base (h_rings h (sn_body s)) \<le> b \<Longrightarrow> view h' (s\<lparr>sn_hot := hz\<rparr>) b =
        (if b \<le> tail_bucket (sn_hot s) then view h s b else if b \<le> target then Some bucket_new else None)"
    "snap_ok h' (s\<lparr>sn_hot := hz\<rparr>)" "r_tip (h_rings h' (sn_body s)) \<le> target"
    "r_tip (h_rings h' (sn_body s)) \<le> target - 1 \<or> r_base (h_rings h' (sn_body s)) = target"
    "tail hz \<noteq> last_sealed hz" "tail hz \<notin> body_addrs h' s"
    "r_tip (h_rings h (sn_body s)) \<le> r_tip (h_rings h' (sn_body s))"
  using assms unfolding rolled_def by blast+

lemma rolled_held:
  assumes r: "rolled h s target hz h'" and held: "held_ok h s v"
  shows "snap_ok h' v" "b \<le> tail_bucket (sn_hot v) \<Longrightarrow> view h' v b = view h v b"
    "b < tail_bucket (sn_hot v) - 1 \<Longrightarrow>
      ring_get (h_rings h' (sn_body v)) b = ring_get (h_rings h (sn_body v)) b"
proof -
  note rd = rolledD [OF r] and v = snap_okD [OF held_okD(1) [OF held]] and s' = snap_okD [OF rolledD(9) [OF r]]
  have nx: "h_next h \<le> h_next h'" using rd(1) by (simp add: grew_def)
  have old: "h_buckets h' a = h_buckets h a" if "a < h_next h" for a using rd(1) that by (simp add: grew_def)
  show ring: "ring_get (h_rings h' (sn_body v)) b = ring_get (h_rings h (sn_body v)) b"
    if "b < tail_bucket (sn_hot v) - 1" for b
    using rd(3) [of "sn_body v"] rd(4) [of b] that v(7) by (cases "sn_body v = sn_body s") auto
  show "snap_ok h' v"
  proof (rule snap_okI)
    show "a < h_next h'" if "ring_get (h_rings h' (sn_body v)) b = Some a" for a b
      using that rd(3) [of "sn_body v"] v(4) [of b a] s'(4) [of b a] nx by (cases "sn_body v = sn_body s") auto
    show "ring_ok (h_rings h' (sn_body v))"
      using rd(3) [of "sn_body v"] v(6) s'(6) by (cases "sn_body v = sn_body s") auto
    show "tail_bucket (sn_hot v) - 1 \<le> r_tip (h_rings h' (sn_body v))"
      using v(7) rd(3) [of "sn_body v"] rd(14) by (cases "sn_body v = sn_body s") auto
    show "sn_body v < h_next_ring h'" using v(5) rd(1) by (simp add: grew_def)
  qed (use s'(1) v(2,3,8) nx in auto)
  show "view h' v b = view h v b" if "b \<le> tail_bucket (sn_hot v)"
    using that ring [of b] v(2,3) v(4) [of b] old by (cases "ring_get (h_rings h (sn_body v)) b") (auto simp: view_def)
qed

lemma append_held:
  assumes held: "held_ok h s v" and r: "rolled h s (fst (locate i)) hz h1" and tip: "sn_tip s < i"
    and ws: "ws = bucket_set (h_buckets h1 (tail hz)) (snd (locate i))"
    and h': "h' = h1\<lparr>h_buckets := (h_buckets h1)(tail hz := ws)\<rparr>"
    and s': "s' = \<lparr>sn_tip = i, sn_hot = hz, sn_body = sn_body s\<rparr>"
  shows "held_ok h' s' v \<and> is_canonical h' v j = is_canonical h v j"
proof -
  note rd = rolledD [OF r] and rh = rolled_held [OF r held] and v = snap_okD [OF held_okD(1) [OF held]] and hd = held_okD [OF held]
  have bok: "bucket_ok (h_buckets h1 (tail hz))" using snap_okD(1,2) [OF rd(9)] by simp
  have sn: "snap_ok h' v" unfolding h' using bok by (intro snap_ok_set [OF rh(1)]) (simp add: ws)
  have ring: "ring_get (h_rings h' (sn_body v)) b \<noteq> Some (tail hz)" if "b < tail_bucket (sn_hot v) - 1" for b
    using hd(3) [OF that] rh(3) [OF that] v(4) [of b "tail hz"] rd(6,7)
    by (cases "fst (locate i) = tail_bucket (sn_hot s)") (auto simp: h')
  have last: "last_sealed (sn_hot v) \<noteq> tail hz"
    using hd(2) v(3) rd(6,7) by (cases "fst (locate i) = tail_bucket (sn_hot s)") auto
  have same: "tail_bucket (sn_hot v) = fst (locate i) \<and> (sn_tip v \<le> sn_tip s \<or> fst (locate (sn_tip v)) < tail_bucket (sn_hot v))"
    if "tail (sn_hot v) = tail hz"
    using hd(4) v(2) rd(6,7) that by (cases "fst (locate i) = tail_bucket (sn_hot s)") auto
  have "held_ok h' s' v"
    unfolding held_ok_def using sn last ring same rd(2) tip by (auto simp: s')
  moreover have "is_canonical h' v j = is_canonical h v j"
  proof (cases "0 < j \<and> j \<le> sn_tip v")
    case True
    let ?b = "fst (locate j)"
    have b: "?b \<le> tail_bucket (sn_hot v)" using locate_mono [of j "sn_tip v"] v(8) True by linarith
    have "bit_in h' v j = bit_in h1 v j"
    proof (cases "?b = tail_bucket (sn_hot v) \<and> tail (sn_hot v) = tail hz")
      case eq: True
      then have "sn_tip v \<le> sn_tip s" using same locate_mono [of j "sn_tip v"] True by auto
      then have "snd (locate j) \<noteq> snd (locate i)"
        using locate_inj [of j i] True tip eq same by (metis not_less prod.collapse le_trans less_trans)
      then show ?thesis
        using eq bucket_get_set [OF bok locate_bit locate_bit] by (simp add: bit_in_def view_def h' ws)
    next
      case False
      have "view h' v ?b = view h1 v ?b"
      proof (cases "?b < tail_bucket (sn_hot v) - 1")
        case True
        then show ?thesis using ring [OF True] by (cases "ring_get (h_rings h1 (sn_body v)) ?b") (auto simp: view_def h')
      next
        case nl: False
        then have "?b = tail_bucket (sn_hot v) \<or> ?b = tail_bucket (sn_hot v) - 1 \<and> 1 \<le> tail_bucket (sn_hot v)" using b by linarith
        then show ?thesis using False last by (auto simp: view_def h')
      qed
      then show ?thesis by (simp add: bit_in_def)
    qed
    also have "\<dots> = bit_in h v j" using rh(2) [OF b] by (simp add: bit_in_def)
    finally show ?thesis by (simp add: is_canonical_view)
  next
    case False
    then show ?thesis by (auto simp: is_canonical_view)
  qed
  ultimately show ?thesis by blast
qed

lemma append_ok:
  assumes cur: "cur_ok (c_heap c) (c_current c)" and tip: "sn_tip (c_current c) < i"
    and fwd: "tail_bucket (sn_hot (c_current c)) \<le> fst (locate i)"
  shows "\<exists>c'. chain_append debug c i = Some c' \<and> cur_ok (c_heap c') (c_current c') \<and> sn_tip (c_current c') = i
    \<and> r_base (h_rings (c_heap c') (sn_body (c_current c'))) = r_base (h_rings (c_heap c) (sn_body (c_current c)))
    \<and> (\<forall>j. r_base (h_rings (c_heap c) (sn_body (c_current c))) \<le> fst (locate j) \<longrightarrow>
        is_canonical (c_heap c') (c_current c') j = (j = i \<or> is_canonical (c_heap c) (c_current c) j))
    \<and> keeps_held (c_heap c) (c_current c) (c_heap c') (c_current c')"
proof -
  define h s where hs: "h = c_heap c" "s = c_current c"
  let ?b = "fst (locate i)" and ?k = "snd (locate i)" and ?lo = "r_base (h_rings h (sn_body s))"
  note cur = cur [folded hs] and tip = tip [folded hs] and fwd = fwd [folded hs]
  obtain hz h1 where rf: "roll_forward debug (sn_hot s) ?b (sn_body s) h = Some (hz, h1)" and r: "rolled h s ?b hz h1"
    using roll_forward_ok [OF cur fwd] by blast
  note rd = rolledD [OF r]
  define s1 where "s1 = s\<lparr>sn_hot := hz\<rparr>"
  define ws where "ws = bucket_set (h_buckets h1 (tail hz)) ?k"
  define h' where "h' = h1\<lparr>h_buckets := (h_buckets h1)(tail hz := ws)\<rparr>"
  define s' where "s' = \<lparr>sn_tip = i, sn_hot = hz, sn_body = sn_body s\<rparr>"
  have app: "chain_append debug c i = Some \<lparr>c_heap = h', c_current = s'\<rparr>"
    using tip rf by (simp add: chain_append_def hs [symmetric] Let_def split_beta h'_def s'_def ws_def)
  have sn1: "snap_ok h1 s1" using rd(9) by (simp add: s1_def)
  have bok: "bucket_ok (h_buckets h1 (tail hz))" using snap_okD(1,2) [OF sn1] by (simp add: s1_def)
  have v1: "view h' s1 b = (if b = ?b then Some ws else view h1 s1 b)" for b
    using view_tail_set [of s1 h1 h' ws b] rd(2,12,13) by (simp add: s1_def h'_def body_addrs_def)
  have vs: "view h' s' b = view h' s1 b" for b by (simp add: view_def s'_def s1_def)
  have lo: "?lo \<le> fst (locate j)" if "sn_tip s < j" for j
    using cur_okD(4) [OF cur] locate_mono [of "sn_tip s + 1" j] that by simp
  have view': "view h' s' b = (if b = ?b then Some ws else if b \<le> tail_bucket (sn_hot s) then view h s b
      else if b \<le> ?b then Some bucket_new else None)" if "?lo \<le> b" for b
    using vs v1 rd(8) [OF that] by (simp add: s1_def)
  have tailv: "Some (h_buckets h1 (tail hz)) = (if ?b \<le> tail_bucket (sn_hot s) then view h s ?b else Some bucket_new)"
    using rd(8) [OF lo [OF tip]] rd(2) by (simp add: view_def)
  have get_ws: "bucket_get ws k = (k = ?k \<or> bucket_get (h_buckets h1 (tail hz)) k)" if "k < CAPACITY" for k
    using bucket_get_set [OF bok locate_bit that] by (auto simp: ws_def)
  have clean: "\<not> bucket_get w (snd (locate j))"
    if j: "sn_tip s < j" "j \<noteq> i" and w: "view h' s' (fst (locate j)) = Some w" for j w
  proof (cases "fst (locate j) = ?b")
    case True
    then have "snd (locate j) \<noteq> ?k" using locate_inj [of j i] j tip by (metis prod.collapse gr0I not_less_zero)
    then show ?thesis
      using True w view' [OF lo [OF j(1)]] tailv get_ws [OF locate_bit] cur_okD(2) [OF cur j(1)] locate_bit
      by (auto split: if_splits)
  next
    case False
    then show ?thesis
      using w view' [OF lo [OF j(1)]] cur_okD(2) [OF cur j(1)] locate_bit by (auto split: if_splits)
  qed
  have can: "is_canonical h' s' j = (j = i \<or> is_canonical h s j)" if lj: "?lo \<le> fst (locate j)" for j
  proof -
    consider "j = 0" | "0 < j" "j \<le> sn_tip s" | "j = i" | "sn_tip s < j" "j < i" | "i < j" by linarith
    then show ?thesis
    proof cases
      case 1
      then show ?thesis using tip by (simp add: is_canonical_view)
    next
      case 2
      then have bj: "fst (locate j) \<le> tail_bucket (sn_hot s)"
        using locate_mono [of j "sn_tip s"] snap_okD(8) [OF cur_okD(1) [OF cur]] by linarith
      have ne: "fst (locate j) = ?b \<Longrightarrow> snd (locate j) \<noteq> ?k" using locate_inj [of j i] 2 tip by (metis not_less prod.collapse gr_zeroI not_less_zero)
      have "bit_in h' s' j = bit_in h s j"
      proof (cases "fst (locate j) = ?b")
        case True
        have "view h s ?b = Some (h_buckets h1 (tail hz))" using tailv bj True by simp
        moreover have "view h' s' ?b = Some ws" using view' [OF lj] True by simp
        ultimately show ?thesis using True ne get_ws [OF locate_bit, of j] by (simp add: bit_in_def)
      next
        case False
        then show ?thesis using bj view' [OF lj] by (simp add: bit_in_def)
      qed
      then show ?thesis using 2 tip by (auto simp: is_canonical_view s'_def)
    next
      case 3
      then show ?thesis using tip view' [OF lj] get_ws [OF locate_bit] by (simp add: is_canonical_view s'_def bit_in_def)
    next
      case 4
      have bj: "fst (locate j) \<le> ?b" using 4 locate_mono [of j i] by simp
      have "\<exists>w. view h' s' (fst (locate j)) = Some w"
        using view' [OF lj] bj view_Some [OF cur_okD(1) [OF cur] lj] by (auto split: if_splits)
      then have "\<not> bit_in h' s' j" using clean 4 by (auto simp: bit_in_def)
      then show ?thesis using 4 by (simp add: is_canonical_view)
    next
      case 5
      then show ?thesis using tip by (simp add: is_canonical_view s'_def)
    qed
  qed
  have sn': "snap_ok h' s'"
  proof -
    have "snap_ok h' s1" unfolding h'_def using bok by (intro snap_ok_set [OF sn1]) (simp add: ws_def)
    from snap_okD [OF this] show ?thesis using rd(2) by (intro snap_okI) (auto simp: s'_def s1_def)
  qed
  have cur': "cur_ok h' s'"
    unfolding cur_ok_def
  proof (intro conjI allI impI)
    show "\<not> bucket_get w (snd (locate j))" if "sn_tip s' < j" "view h' s' (fst (locate j)) = Some w" for j w
      using clean [of j w] that tip by (simp add: s'_def)
    show "r_base (h_rings h' (sn_body s')) \<le> fst (locate (sn_tip s' + 1))"
      using rd(5) lo [of "i + 1"] tip by (simp add: s'_def h'_def)
  qed (use sn' rd(2,10,11,12,13) in \<open>auto simp: s'_def h'_def body_addrs_def\<close>)
  have held: "held_ok h' s' v \<and> is_canonical h' v j = is_canonical h v j" if hv: "held_ok h s v" for v j
    by (rule append_held [OF hv r tip ws_def h'_def s'_def])
  then have "keeps_held h s h' s'" by (simp add: keeps_held_def)
  moreover have "r_base (h_rings h' (sn_body s')) = ?lo" using rd(5) by (simp add: s'_def h'_def)
  ultimately show ?thesis
    unfolding hs [symmetric] using app cur' can by (intro exI [of _ "\<lparr>c_heap = h', c_current = s'\<rparr>"]) (simp add: s'_def)
qed

subsection \<open>Rolling back\<close>

definition edit_ok :: "addr \<Rightarrow> hot_zone \<Rightarrow> chain_heap \<Rightarrow> bool" where
  "edit_ok body hz h \<longleftrightarrow> (\<forall>a < h_next h. bucket_ok (h_buckets h a)) \<and> tail hz < h_next h \<and> last_sealed hz < h_next h
    \<and> (\<forall>b a. ring_get (h_rings h body) b = Some a \<longrightarrow> a < h_next h \<and> a \<noteq> tail hz) \<and> ring_ok (h_rings h body)
    \<and> tail hz \<noteq> last_sealed hz"

definition zone_view :: "addr \<Rightarrow> hot_zone \<Rightarrow> chain_heap \<Rightarrow> nat \<Rightarrow> bucket option" where
  "zone_view body hz h b = view h \<lparr>sn_tip = 0, sn_hot = hz, sn_body = body\<rparr> b"

definition edited_to :: "addr \<Rightarrow> hot_zone \<Rightarrow> chain_heap \<Rightarrow> hot_zone \<Rightarrow> chain_heap \<Rightarrow> bool" where
  "edited_to body hz h hz' h' \<longleftrightarrow> edit_ok body hz' h' \<and> grew h h' \<and> tail_bucket hz' = tail_bucket hz
    \<and> (\<forall>x. x \<noteq> body \<longrightarrow> h_rings h' x = h_rings h x) \<and> r_base (h_rings h' body) = r_base (h_rings h body)
    \<and> r_tip (h_rings h' body) = r_tip (h_rings h body)"

lemma edited_to_trans: "edited_to body hz h hz1 h1 \<Longrightarrow> edited_to body hz1 h1 hz2 h2 \<Longrightarrow> edited_to body hz h hz2 h2"
  using grew_trans by (auto simp: edited_to_def)

definition edit_done ::
  "addr \<Rightarrow> nat \<Rightarrow> (nat \<times> bool) list \<Rightarrow> hot_zone \<Rightarrow> chain_heap \<Rightarrow> hot_zone \<Rightarrow> chain_heap \<Rightarrow> bool" where
  "edit_done body b ops hz h hz' h' \<longleftrightarrow> edited_to body hz h hz' h'
    \<and> (\<forall>x. zone_view body hz' h' x =
        (if x = b then map_option (\<lambda>ws. bucket_edited ws ops) (zone_view body hz h x) else zone_view body hz h x))
    \<and> (if b = tail_bucket hz then h_next h \<le> tail hz' else tail hz' = tail hz)
    \<and> (ring_get (h_rings h body) b = None \<or> (tail_bucket hz \<le> b + 1 \<and> b \<le> tail_bucket hz) \<longrightarrow> h_rings h' = h_rings h)"

lemma zone_view_alt:
  "zone_view body hz h x =
    (if x = tail_bucket hz then Some (h_buckets h (tail hz))
     else if 1 \<le> tail_bucket hz \<and> x = tail_bucket hz - 1 then Some (h_buckets h (last_sealed hz))
     else map_option (h_buckets h) (ring_get (h_rings h body) x))"
  by (simp add: zone_view_def view_def)

lemma apply_edit_ok:
  assumes e: "edit_ok body hz h" and a: "apply_edit body (b, ops) (hz, h) = (hz', h')"
  shows "edit_done body b ops hz h hz' h'"
proof -
  define al where "al = (\<lambda>ws. h\<lparr>h_buckets := (h_buckets h)(h_next h := ws), h_next := h_next h + 1\<rparr>)"
  have al: "alloc_bucket ws h = (h_next h, al ws)" for ws by (simp add: alloc_bucket_def al_def)
  have sel: "h_rings (al ws) = h_rings h" "h_next (al ws) = h_next h + 1" "h_buckets (al ws) = (h_buckets h)(h_next h := ws)" for ws
    by (simp_all add: al_def)
  have ok: "bucket_ok (h_buckets h x)" if "x < h_next h" for x using e that by (simp add: edit_ok_def)
  have lt: "tail hz < h_next h" "last_sealed hz < h_next h" "tail hz \<noteq> last_sealed hz" "ring_ok (h_rings h body)"
    using e by (simp_all add: edit_ok_def)
  have rg: "x < h_next h \<and> x \<noteq> tail hz" if "ring_get (h_rings h body) y = Some x" for x y
    using e that by (simp add: edit_ok_def)
  have gr: "grew h (al ws)" if "bucket_ok ws" for ws using that by (auto simp: grew_def al_def less_Suc_eq)
  have bk: "\<forall>x < h_next (al ws). bucket_ok (h_buckets (al ws) x)" if "bucket_ok ws" for ws
    using that ok by (auto simp: sel less_Suc_eq)
  have mp: "map_option (h_buckets (al ws)) (ring_get (h_rings h body) x) = map_option (h_buckets h) (ring_get (h_rings h body) x)" for ws x
    using rg [of x] by (cases "ring_get (h_rings h body) x") (auto simp: sel)
  consider (t) "b = tail_bucket hz" | (l) "1 \<le> tail_bucket hz" "b = tail_bucket hz - 1"
    | (r) sealed where "b \<noteq> tail_bucket hz" "\<not> (1 \<le> tail_bucket hz \<and> b = tail_bucket hz - 1)" "ring_get (h_rings h body) b = Some sealed"
    | (n) "b \<noteq> tail_bucket hz" "\<not> (1 \<le> tail_bucket hz \<and> b = tail_bucket hz - 1)" "ring_get (h_rings h body) b = None"
    by (cases "ring_get (h_rings h body) b") auto
  then show ?thesis
  proof cases
    case t
    let ?ws = "bucket_edited (h_buckets h (tail hz)) ops"
    have w: "bucket_ok ?ws" using ok lt(1) by simp
    have "hz' = hz\<lparr>tail := h_next h\<rparr>" "h' = al ?ws" using a t by (auto simp: apply_edit_def al)
    moreover have "edit_ok body (hz\<lparr>tail := h_next h\<rparr>) (al ?ws)"
      using bk [OF w] lt rg by (auto simp: edit_ok_def sel less_Suc_eq)
    ultimately show ?thesis
      using t lt mp gr [OF w] by (auto simp: edit_done_def edited_to_def zone_view_alt sel)
  next
    case l
    let ?ws = "bucket_edited (h_buckets h (last_sealed hz)) ops"
    have w: "bucket_ok ?ws" using ok lt(2) by simp
    have ne: "b \<noteq> tail_bucket hz" using l by linarith
    have "hz' = hz\<lparr>last_sealed := h_next h\<rparr>" "h' = al ?ws" using a l(1) ne by (auto simp: apply_edit_def al l(2))
    moreover have "edit_ok body (hz\<lparr>last_sealed := h_next h\<rparr>) (al ?ws)"
      using bk [OF w] lt rg by (auto simp: edit_ok_def sel less_Suc_eq)
    ultimately show ?thesis
      using l(1) ne lt mp gr [OF w] unfolding l(2) by (auto simp: edit_done_def edited_to_def zone_view_alt sel)
  next
    case r
    let ?ws = "bucket_edited (h_buckets h sealed) ops"
    let ?r = "ring_replace (h_rings h body) b (h_next h)"
    have w: "bucket_ok ?ws" using ok rg [OF r(3)] by simp
    have eq: "hz' = hz" "h' = put_ring body ?r (al ?ws)" using a r by (auto simp: apply_edit_def al sel)
    note rr = ring_replace_ok [OF lt(4), of b "h_next h"]
    have get: "ring_get ?r x = (if x = b then Some (h_next h) else ring_get (h_rings h body) x)" for x
      using rr(4) [of x] ring_get_live [OF lt(4), of b] r(3) by auto
    have "edit_ok body hz h'"
      using bk [OF w] lt rg rr(1) by (auto simp: eq edit_ok_def get sel less_Suc_eq split: if_splits)
    moreover have "zone_view body hz h' x = (if x = b then map_option (\<lambda>ws. bucket_edited ws ops) (zone_view body hz h x) else zone_view body hz h x)" for x
      using r lt mp [of ?ws x] by (auto simp: zone_view_alt eq get sel)
    moreover have "\<not> (tail_bucket hz \<le> b + 1 \<and> b \<le> tail_bucket hz)" using r(1,2) by linarith
    ultimately show ?thesis
      using r gr [OF w] rr(2,3) by (auto simp: edit_done_def edited_to_def eq sel)
  next
    case n
    then have "hz' = hz" "h' = h" using a by (auto simp: apply_edit_def)
    then show ?thesis using n e by (auto simp: edit_done_def edited_to_def zone_view_alt)
  qed
qed

lemma apply_edits_ok:
  assumes "edit_ok body hz h" "distinct (map fst es)" "fold (apply_edit body) es (hz, h) = (hz', h')"
  shows "edited_to body hz h hz' h'"
    and "zone_view body hz' h' x = (case map_of es x of
        Some ops \<Rightarrow> map_option (\<lambda>ws. bucket_edited ws ops) (zone_view body hz h x) | None \<Rightarrow> zone_view body hz h x)"
    and "if tail_bucket hz \<in> fst ` set es then h_next h \<le> tail hz' else tail hz' = tail hz"
    and "\<forall>b \<in> fst ` set es. tail_bucket hz \<le> b + 1 \<and> b \<le> tail_bucket hz \<Longrightarrow> h_rings h' = h_rings h"
proof -
  have "edited_to body hz h hz' h' \<and> (\<forall>x. zone_view body hz' h' x = (case map_of es x of
        Some ops \<Rightarrow> map_option (\<lambda>ws. bucket_edited ws ops) (zone_view body hz h x) | None \<Rightarrow> zone_view body hz h x))
    \<and> (if tail_bucket hz \<in> fst ` set es then h_next h \<le> tail hz' else tail hz' = tail hz)
    \<and> ((\<forall>b \<in> fst ` set es. tail_bucket hz \<le> b + 1 \<and> b \<le> tail_bucket hz) \<longrightarrow> h_rings h' = h_rings h)"
    using assms
  proof (induction es arbitrary: hz h)
    case Nil
    then show ?case by (simp add: edited_to_def)
  next
    case (Cons e es)
    obtain b ops where e: "e = (b, ops)" by (cases e)
    obtain hz1 h1 where st: "apply_edit body (b, ops) (hz, h) = (hz1, h1)" by (cases "apply_edit body (b, ops) (hz, h)")
    note d = apply_edit_ok [OF Cons.prems(1) st]
    have ed: "edited_to body hz h hz1 h1" using d by (simp add: edit_done_def)
    then have ok1: "edit_ok body hz1 h1" and tb: "tail_bucket hz1 = tail_bucket hz" and nx: "h_next h \<le> h_next h1"
      by (simp_all add: edited_to_def grew_def)
    have "distinct (map fst es)" "fold (apply_edit body) es (hz1, h1) = (hz', h')" using Cons.prems(2,3) e st by simp_all
    note IH = Cons.IH [OF ok1 this]
    have b: "map_of es b = None" using Cons.prems(2) e by (simp add: map_of_eq_None_iff)
    have "zone_view body hz' h' x = (case map_of (e # es) x of
        Some ops \<Rightarrow> map_option (\<lambda>ws. bucket_edited ws ops) (zone_view body hz h x) | None \<Rightarrow> zone_view body hz h x)" for x
    proof -
      have "zone_view body hz1 h1 x = (if x = b then map_option (\<lambda>ws. bucket_edited ws ops) (zone_view body hz h x) else zone_view body hz h x)"
        using d unfolding edit_done_def by blast
      moreover have "zone_view body hz' h' x = (case map_of es x of
          Some ops \<Rightarrow> map_option (\<lambda>ws. bucket_edited ws ops) (zone_view body hz1 h1 x) | None \<Rightarrow> zone_view body hz1 h1 x)"
        using IH by blast
      ultimately show ?thesis using b by (cases "x = b"; cases "map_of es x") (simp_all add: e)
    qed
    moreover have "if tail_bucket hz \<in> fst ` set (e # es) then h_next h \<le> tail hz' else tail hz' = tail hz"
      using IH d nx tb Cons.prems(2) by (auto simp: edit_done_def e split: if_splits)
    moreover have "h_rings h' = h_rings h" if "\<forall>b \<in> fst ` set (e # es). tail_bucket hz \<le> b + 1 \<and> b \<le> tail_bucket hz"
      using IH d tb that by (simp add: edit_done_def e)
    ultimately show ?case using edited_to_trans [OF ed] IH by blast
  qed
  then show "edited_to body hz h hz' h'"
    "zone_view body hz' h' x = (case map_of es x of
        Some ops \<Rightarrow> map_option (\<lambda>ws. bucket_edited ws ops) (zone_view body hz h x) | None \<Rightarrow> zone_view body hz h x)"
    "if tail_bucket hz \<in> fst ` set es then h_next h \<le> tail hz' else tail hz' = tail hz"
    "\<forall>b \<in> fst ` set es. tail_bucket hz \<le> b + 1 \<and> b \<le> tail_bucket hz \<Longrightarrow> h_rings h' = h_rings h" by blast+
qed

lemma distinct_remdups_adj_sorted: "sorted xs \<Longrightarrow> distinct (remdups_adj xs)" for xs :: "nat list"
  by (induction xs rule: remdups_adj.induct) (auto simp: order_antisym)

lemma rollback_edits_ok:
  shows "distinct (map fst (rollback_edits new_tip old_tip))"
    "fst ` set (rollback_edits new_tip old_tip) = (\<lambda>i. fst (locate i)) ` {new_tip<..old_tip}"
    "map_of (rollback_edits new_tip old_tip) b = Some ops \<Longrightarrow>
      ops = map (\<lambda>i. (snd (locate i), False)) (filter (\<lambda>i. fst (locate i) = b) [new_tip + 1..<old_tip + 1])"
proof -
  let ?ids = "[new_tip + 1..<old_tip + 1]"
  have "sorted (map (\<lambda>i. fst (locate i)) ?ids)"
    by (rule sorted_map [THEN iffD2]) (rule sorted_wrt_mono_rel [OF _ sorted_wrt_upt], simp add: locate_mono)
  then have "distinct (remdups_adj (map (\<lambda>i. fst (locate i)) ?ids))" by (rule distinct_remdups_adj_sorted)
  then show "distinct (map fst (rollback_edits new_tip old_tip))" by (simp add: rollback_edits_def Let_def comp_def)
  show "fst ` set (rollback_edits new_tip old_tip) = (\<lambda>i. fst (locate i)) ` {new_tip<..old_tip}"
    by (auto simp: rollback_edits_def Let_def image_comp comp_def image_iff Bex_def less_Suc_eq_le Suc_le_eq)
  show "map_of (rollback_edits new_tip old_tip) b = Some ops \<Longrightarrow>
      ops = map (\<lambda>i. (snd (locate i), False)) (filter (\<lambda>i. fst (locate i) = b) ?ids)"
    unfolding rollback_edits_def Let_def by (drule map_of_SomeD) auto
qed

lemma rollback_held:
  assumes held: "held_ok h s v" and gr: "grew h h'" and rings: "\<And>x. x < h_next_ring h \<Longrightarrow> h_rings h' x = h_rings h x"
    and s': "sn_tip s' = new_tip" "tail_bucket (sn_hot s') = tail_bucket (sn_hot s)"
    and tail: "if tail_bucket (sn_hot s) \<in> (\<lambda>i. fst (locate i)) ` {new_tip<..sn_tip s} then h_next h \<le> tail (sn_hot s')
      else tail (sn_hot s') = tail (sn_hot s)"
  shows "held_ok h' s' v \<and> is_canonical h' v j = is_canonical h v j"
proof -
  note v = snap_okD [OF held_okD(1) [OF held]] and hd = held_okD [OF held]
  have ring: "h_rings h' (sn_body v) = h_rings h (sn_body v)" using rings v(5) by simp
  have nx: "h_next h \<le> h_next h'" "h_next_ring h \<le> h_next_ring h'" using gr by (simp_all add: grew_def)
  have old: "h_buckets h' a = h_buckets h a" if "a < h_next h" for a using gr that by (simp add: grew_def)
  have sn: "snap_ok h' v"
  proof (rule snap_okI)
    show "bucket_ok (h_buckets h' a)" if "a < h_next h'" for a
      using that gr v(1) [of a] by (cases "a < h_next h") (auto simp: grew_def)
    show "a < h_next h'" if "ring_get (h_rings h' (sn_body v)) b = Some a" for a b
      using that v(4) [of b a] nx(1) by (simp add: ring)
  qed (use v nx in \<open>auto simp: ring\<close>)
  have "view h' v b = view h v b" for b
    using v(2,3) v(4) [of b] old by (cases "ring_get (h_rings h (sn_body v)) b") (auto simp: view_def ring)
  then have "is_canonical h' v j = is_canonical h v j" by (simp add: is_canonical_view bit_in_def)
  moreover have "held_ok h' s' v"
    unfolding held_ok_def ring
  proof (intro conjI allI impI)
    show "snap_ok h' v" by (rule sn)
    show "last_sealed (sn_hot v) \<noteq> tail (sn_hot s')" using tail hd(2) v(3) by (auto split: if_splits)
    show "ring_get (h_rings h (sn_body v)) b \<noteq> Some (tail (sn_hot s'))" if "b < tail_bucket (sn_hot v) - 1" for b
      using tail hd(3) [OF that] v(4) [of b "tail (sn_hot s')"] by (auto split: if_splits)
    assume eq: "tail (sn_hot v) = tail (sn_hot s')"
    then have t: "tail_bucket (sn_hot s) \<notin> (\<lambda>i. fst (locate i)) ` {new_tip<..sn_tip s}" "tail (sn_hot v) = tail (sn_hot s)"
      using tail v(2) by (auto split: if_splits)
    note tv = hd(4) [OF t(2)]
    then show "tail_bucket (sn_hot v) = tail_bucket (sn_hot s')" by (simp add: s')
    show "sn_tip v \<le> sn_tip s' \<or> fst (locate (sn_tip v)) < tail_bucket (sn_hot v)"
    proof (cases "new_tip < sn_tip v \<and> sn_tip v \<le> sn_tip s")
      case True
      then have "fst (locate (sn_tip v)) \<noteq> tail_bucket (sn_hot v)"
        using t(1) tv by (metis greaterThanAtMost_iff imageI)
      then show ?thesis using v(8) True by simp
    qed (use tv s' in auto)
  qed
  ultimately show ?thesis by blast
qed

lemma rollback_body:
  assumes cur: "cur_ok h s"
    and deep: "deep \<longleftrightarrow> fst (locate (new_tip + 1)) + 2 \<le> tail_bucket (sn_hot s)"
  shows "\<exists>body h1. (if deep then map_option (\<lambda>r. alloc_ring r h) (ring_fork (h_rings h (sn_body s))) else Some (sn_body s, h)) = Some (body, h1)
    \<and> grew h h1 \<and> h_next h1 = h_next h \<and> body < h_next_ring h1 \<and> (\<forall>x < h_next_ring h. h_rings h1 x = h_rings h x)
    \<and> (deep \<longrightarrow> body = h_next_ring h) \<and> (\<not> deep \<longrightarrow> body = sn_body s)
    \<and> edit_ok body (sn_hot s) h1 \<and> (\<forall>b. zone_view body (sn_hot s) h1 b = view h s b)
    \<and> r_base (h_rings h1 body) = r_base (h_rings h (sn_body s)) \<and> r_tip (h_rings h1 body) = r_tip (h_rings h (sn_body s))"
proof -
  note sn = snap_okD [OF cur_okD(1) [OF cur]] and c = cur_okD [OF cur]
  have e: "edit_ok (sn_body s) (sn_hot s) h" using sn c(5,6) by (auto simp: edit_ok_def)
  have zv: "zone_view (sn_body s) (sn_hot s) h b = view h s b" for b by (simp add: zone_view_def view_def)
  show ?thesis
  proof (cases deep)
    case False
    then show ?thesis using e zv sn(5) by simp
  next
    case True
    obtain r where r: "ring_fork (h_rings h (sn_body s)) = Some r" "ring_ok r" "r_base r = r_base (h_rings h (sn_body s))"
        "r_tip r = r_tip (h_rings h (sn_body s))" "\<forall>i. ring_get r i = ring_get (h_rings h (sn_body s)) i"
      using ring_fork_ok [OF sn(6)] by blast
    obtain body h1 where al: "alloc_ring r h = (body, h1)" by (cases "alloc_ring r h")
    then have h1: "body = h_next_ring h" "h_rings h1 = (h_rings h)(body := r)" "h_next h1 = h_next h" "h_buckets h1 = h_buckets h"
        "h_next_ring h1 = h_next_ring h + 1" by (auto simp: alloc_ring_def)
    have "edit_ok body (sn_hot s) h1" using e r(2,5) by (simp add: edit_ok_def h1)
    moreover have "zone_view body (sn_hot s) h1 b = view h s b" for b
      using r(5) by (simp add: zone_view_alt view_def h1)
    ultimately show ?thesis using True r al h1 by (auto simp: grew_def)
  qed
qed

lemma view_ok: "snap_ok h s \<Longrightarrow> view h s b = Some ws \<Longrightarrow> bucket_ok ws"
  using snap_okD [of h s] by (auto simp: view_def split: if_splits)

lemma rolled_back_bits:
  assumes cur: "cur_ok h s"
    and view': "\<And>b. view h' s' b = (case map_of (rollback_edits new_tip (sn_tip s)) b of
      Some ops \<Rightarrow> map_option (\<lambda>ws. bucket_edited ws ops) (view h s b) | None \<Rightarrow> view h s b)"
  shows "0 < j \<Longrightarrow> j \<le> new_tip \<Longrightarrow> bit_in h' s' j = bit_in h s j"
    and "new_tip < j \<Longrightarrow> view h' s' (fst (locate j)) = Some w \<Longrightarrow> \<not> bucket_get w (snd (locate j))"
proof -
  note eo = rollback_edits_ok [where new_tip = new_tip and old_tip = "sn_tip s"]
  let ?in = "\<lambda>j. j \<in> {new_tip<..sn_tip s}"
  have get: "bucket_get w' (snd (locate j)) = (bucket_get w (snd (locate j)) \<and> \<not> ?in j)"
    if j: "0 < j" and w: "view h s (fst (locate j)) = Some w" and w': "view h' s' (fst (locate j)) = Some w'" for j w w'
  proof (cases "map_of (rollback_edits new_tip (sn_tip s)) (fst (locate j))")
    case None
    then have "fst (locate j) \<notin> (\<lambda>i. fst (locate i)) ` {new_tip<..sn_tip s}" using eo(2) by (metis map_of_eq_None_iff)
    then have "\<not> ?in j" by blast
    then show ?thesis using None w w' view' by simp
  next
    case (Some ops)
    let ?ids = "filter (\<lambda>i. fst (locate i) = fst (locate j)) [new_tip + 1..<sn_tip s + 1]"
    have ops: "ops = map (\<lambda>i. (snd (locate i), False)) ?ids" by (rule eo(3) [OF Some])
    have img: "fst ` set ops = (\<lambda>i. snd (locate i)) ` set ?ids" and clr: "\<forall>(i, v) \<in> set ops. i < CAPACITY \<and> \<not> v"
      using locate_bit by (auto simp: ops image_image simp del: upt_Suc)
    have mem: "i \<in> set ?ids \<longleftrightarrow> ?in i \<and> fst (locate i) = fst (locate j)" for i by (auto simp del: upt_Suc)
    have "snd (locate j) \<in> fst ` set ops \<longleftrightarrow> ?in j"
    proof
      assume "snd (locate j) \<in> fst ` set ops"
      then obtain i where "?in i" "fst (locate i) = fst (locate j)" "snd (locate j) = snd (locate i)"
        unfolding img using mem by blast
      then show "?in j" using locate_inj [of i j] j by (simp add: prod_eq_iff)
    next
      assume "?in j"
      then have "j \<in> set ?ids" using mem by blast
      then show "snd (locate j) \<in> fst ` set ops" unfolding img by (rule imageI)
    qed
    moreover have "w' = bucket_edited w ops" using Some w w' view' by simp
    ultimately show ?thesis
      using bucket_get_cleared [OF view_ok [OF cur_okD(1) [OF cur] w] locate_bit clr, of j] by blast
  qed
  have none: "view h' s' b = None \<longleftrightarrow> view h s b = None" for b by (simp add: view' split: option.splits)
  show "bit_in h' s' j = bit_in h s j" if "0 < j" "j \<le> new_tip"
    using get [OF that(1)] none [of "fst (locate j)"] that by (fastforce simp: bit_in_def split: option.splits)
  show "\<not> bucket_get w (snd (locate j))" if j: "new_tip < j" and w: "view h' s' (fst (locate j)) = Some w"
  proof -
    obtain w0 where w0: "view h s (fst (locate j)) = Some w0" using none [of "fst (locate j)"] w by (cases "view h s (fst (locate j))") auto
    show ?thesis using get [OF _ w0 w] cur_okD(2) [OF cur _ w0] j by (cases "j \<le> sn_tip s") auto
  qed
qed

lemma rollback_cur:
  assumes cur: "cur_ok h s" and le: "new_tip \<le> sn_tip s"
    and floor: "r_base (h_rings h (sn_body s)) \<le> fst (locate (new_tip + 1))"
    and s': "sn_tip s' = new_tip" "tail_bucket (sn_hot s') = tail_bucket (sn_hot s)" "sn_body s' < h_next_ring h'"
    and ed: "edit_ok (sn_body s') (sn_hot s') h'"
    and r: "r_base (h_rings h' (sn_body s')) = r_base (h_rings h (sn_body s))" "r_tip (h_rings h' (sn_body s')) = r_tip (h_rings h (sn_body s))"
    and clear: "\<And>j w. new_tip < j \<Longrightarrow> view h' s' (fst (locate j)) = Some w \<Longrightarrow> \<not> bucket_get w (snd (locate j))"
  shows "cur_ok h' s'"
proof -
  note c = cur_okD [OF cur] and sn = snap_okD [OF cur_okD(1) [OF cur]]
  have "snap_ok h' s'"
  proof (rule snap_okI)
    show "fst (locate (sn_tip s')) \<le> tail_bucket (sn_hot s')" if "0 < sn_tip s'"
      using that s' le sn(8) locate_mono [of new_tip "sn_tip s"] by simp
  qed (use ed s' r sn(7) in \<open>auto simp: edit_ok_def\<close>)
  then show ?thesis
    unfolding cur_ok_def using c(3,7) floor s' r clear ed by (auto simp: edit_ok_def body_addrs_def)
qed

lemma rollback_ok:
  assumes cur: "cur_ok (c_heap c) (c_current c)" and le: "new_tip \<le> sn_tip (c_current c)"
    and floor: "r_base (h_rings (c_heap c) (sn_body (c_current c))) \<le> fst (locate (new_tip + 1))"
  shows "\<exists>c'. chain_rollback debug c new_tip = Some c' \<and> cur_ok (c_heap c') (c_current c') \<and> sn_tip (c_current c') = new_tip
    \<and> r_base (h_rings (c_heap c') (sn_body (c_current c'))) = r_base (h_rings (c_heap c) (sn_body (c_current c)))
    \<and> (\<forall>j. is_canonical (c_heap c') (c_current c') j = (j \<le> new_tip \<and> is_canonical (c_heap c) (c_current c) j))
    \<and> keeps_held (c_heap c) (c_current c) (c_heap c') (c_current c')"
proof -
  define h s where hs: "h = c_heap c" "s = c_current c"
  note cur = cur [folded hs] and le = le [folded hs] and floor = floor [folded hs]
  let ?T = "tail_bucket (sn_hot s)"
  define deep where "deep \<longleftrightarrow> fst (locate (new_tip + 1)) + 2 \<le> ?T"
  obtain body h1 where b: "(if deep then map_option (\<lambda>r. alloc_ring r h) (ring_fork (h_rings h (sn_body s))) else Some (sn_body s, h)) = Some (body, h1)"
      and g1: "grew h h1" "h_next h1 = h_next h" "body < h_next_ring h1" "\<forall>x < h_next_ring h. h_rings h1 x = h_rings h x"
      and bd: "deep \<Longrightarrow> body = h_next_ring h" "\<not> deep \<Longrightarrow> body = sn_body s"
      and e1: "edit_ok body (sn_hot s) h1" and z1: "\<And>b. zone_view body (sn_hot s) h1 b = view h s b"
      and r1: "r_base (h_rings h1 body) = r_base (h_rings h (sn_body s))" "r_tip (h_rings h1 body) = r_tip (h_rings h (sn_body s))"
    using rollback_body [OF cur deep_def] by blast
  define es where "es = rollback_edits new_tip (sn_tip s)"
  obtain hz h' where fd: "fold (apply_edit body) es (sn_hot s, h1) = (hz, h')" by (cases "fold (apply_edit body) es (sn_hot s, h1)")
  note ed = apply_edits_ok [OF e1 _ fd] and eo = rollback_edits_ok [where new_tip = new_tip and old_tip = "sn_tip s", folded es_def]
  define s' where "s' = \<lparr>sn_tip = new_tip, sn_hot = hz, sn_body = body\<rparr>"
  have rb: "chain_rollback debug c new_tip = Some \<lparr>c_heap = h', c_current = s'\<rparr>"
    unfolding chain_rollback_def hs [symmetric] Let_def deep_def [symmetric] b
    using le fd by (simp add: roll_forward_def es_def [symmetric] s'_def)
  note edt = ed(1) [OF eo(1)]
  have e': "edit_ok body hz h'" "grew h1 h'" "tail_bucket hz = ?T" "\<And>x. x \<noteq> body \<Longrightarrow> h_rings h' x = h_rings h1 x"
      "r_base (h_rings h' body) = r_base (h_rings h (sn_body s))" "r_tip (h_rings h' body) = r_tip (h_rings h (sn_body s))"
    using edt r1 by (simp_all add: edited_to_def)
  have view': "view h' s' b = (case map_of es b of Some ops \<Rightarrow> map_option (\<lambda>ws. bucket_edited ws ops) (view h s b)
      | None \<Rightarrow> view h s b)" for b
  proof -
    have "view h' s' b = zone_view body hz h' b" by (simp add: zone_view_def view_def s'_def)
    then show ?thesis using ed(2) [OF eo(1), of b] z1 [of b] by (simp split: option.splits)
  qed
  note cleared = rolled_back_bits [OF cur view' [unfolded es_def]]
  have gr: "grew h h'" using grew_trans [OF g1(1) e'(2)] .
  have near: "?T \<le> b + 1 \<and> b \<le> ?T" if nd: "\<not> deep" and b: "b \<in> fst ` set es" for b
  proof -
    obtain i where i: "new_tip < i" "i \<le> sn_tip s" "b = fst (locate i)" using b unfolding eo(2) by auto
    then show ?thesis
      using nd locate_mono [of "new_tip + 1" i] locate_mono [of i "sn_tip s"] snap_okD(8) [OF cur_okD(1) [OF cur]]
      by (simp add: deep_def)
  qed
  have rings: "h_rings h' x = h_rings h x" if "x < h_next_ring h" for x
  proof (cases deep)
    case True
    then show ?thesis using bd(1) e'(4) g1(4) that by simp
  next
    case False
    then have "h_rings h' = h_rings h1" using ed(4) [OF eo(1)] near by blast
    then show ?thesis using g1(4) that by simp
  qed
  have "body < h_next_ring h'" using g1(3) e'(2) by (simp add: grew_def)
  then have "cur_ok h' s'"
  proof (intro rollback_cur [OF cur le floor])
  qed (use e' g1 gr cleared in \<open>auto simp: s'_def edit_ok_def\<close>)
  moreover have "if ?T \<in> (\<lambda>i. fst (locate i)) ` {new_tip<..sn_tip s} then h_next h \<le> tail (sn_hot s')
      else tail (sn_hot s') = tail (sn_hot s)"
    using ed(3) [OF eo(1)] unfolding eo(2) g1(2) by (simp add: s'_def split: if_splits)
  then have "keeps_held h s h' s'"
    unfolding keeps_held_def using rollback_held [OF _ gr rings, of s _ s' new_tip] e'(3) by (simp add: s'_def)
  moreover have "is_canonical h' s' j = (j \<le> new_tip \<and> is_canonical h s j)" for j
    using cleared le by (auto simp: is_canonical_view s'_def)
  ultimately show ?thesis using rb e'(5) by (simp add: hs s'_def)
qed

text \<open>Finalizing only shortens rings from below.\<close>

lemma pruned_snap:
  assumes "snap_ok h s" "ring_ok (h_rings h b)" and h': "h' = put_ring b (prune_below (h_rings h b) n) h"
  shows "snap_ok h' s" "\<And>x a. ring_get (h_rings h' x) k = Some a \<Longrightarrow> ring_get (h_rings h x) k = Some a"
    "n \<le> fst (locate j) \<Longrightarrow> is_canonical h' s j = is_canonical h s j"
proof -
  note p = prune_below_ok [OF assms(2)] and sn = snap_okD [OF assms(1)]
  show get: "\<And>x a k. ring_get (h_rings h' x) k = Some a \<Longrightarrow> ring_get (h_rings h x) k = Some a"
    by (auto simp: h' put_ring_def p(4) split: if_splits)
  show "snap_ok h' s"
  proof (rule snap_okI)
    show "a < h_next h'" if "ring_get (h_rings h' (sn_body s)) k = Some a" for k a
      using sn(4) [OF get [OF that]] by (simp add: h' put_ring_def)
    show "ring_ok (h_rings h' (sn_body s))" using p(1) sn(6) by (simp add: h' put_ring_def)
    show "tail_bucket (sn_hot s) - 1 \<le> r_tip (h_rings h' (sn_body s))" using p(2) sn(7) by (auto simp: h' put_ring_def)
  qed (use sn in \<open>simp_all add: h' put_ring_def\<close>)
  show "is_canonical h' s j = is_canonical h s j" if "n \<le> fst (locate j)"
    using that p(4) by (simp add: is_canonical_view bit_in_def view_def h' put_ring_def)
qed

lemma finalize_ok:
  assumes cur: "cur_ok (c_heap c) (c_current c)" and le: "below \<le> sn_tip (c_current c) + 1"
  defines "h' \<equiv> c_heap (chain_finalize c below)"
  shows "c_current (chain_finalize c below) = c_current c" "cur_ok h' (c_current c)"
    "r_base (h_rings h' (sn_body (c_current c))) \<le> max (fst (locate below)) (r_base (h_rings (c_heap c) (sn_body (c_current c))))"
    "held_ok (c_heap c) (c_current c) v \<Longrightarrow> held_ok h' (c_current c) v"
    "snap_ok (c_heap c) v \<Longrightarrow> fst (locate below) \<le> fst (locate j) \<Longrightarrow> is_canonical h' v j = is_canonical (c_heap c) v j"
proof -
  define h s where hs: "h = c_heap c" "s = c_current c"
  note cur = cur [folded hs] and le = le [folded hs] and c = cur_okD [OF cur [folded hs]]
  note sn = snap_okD [OF c(1)] and p = prune_below_ok [OF snap_okD(6) [OF c(1)]]
  let ?b = "fst (locate below)"
  show "c_current (chain_finalize c below) = c_current c" by (simp add: chain_finalize_def Let_def)
  have h': "h' = (if 1 < below then put_ring (sn_body s) (prune_below (h_rings h (sn_body s)) ?b) h else h)"
    by (simp add: h'_def chain_finalize_def Let_def hs)
  note ps = pruned_snap [OF _ sn(6), of _ h' ?b]
  have view: "view h' s k = Some w \<Longrightarrow> view h s k = Some w" for k w
    by (auto simp: view_def h' put_ring_def p(4) split: if_splits)
  show "r_base (h_rings h' (sn_body (c_current c))) \<le> max ?b (r_base (h_rings (c_heap c) (sn_body (c_current c))))"
    by (simp add: h' hs [symmetric] put_ring_def p(3))
  show "held_ok h' (c_current c) v" if "held_ok (c_heap c) (c_current c) v"
  proof (cases "1 < below")
    case True
    then have h': "h' = put_ring (sn_body s) (prune_below (h_rings h (sn_body s)) ?b) h" by (simp add: h')
    note hd = held_okD [OF that [folded hs]]
    show ?thesis
      unfolding hs [symmetric] held_ok_def
      by (intro conjI allI impI ps(1) [OF hd(1) h'] hd(2) hd(4) [THEN conjunct1] hd(4) [THEN conjunct2] notI)
        (use ps(2) [OF hd(1) h'] hd(3) in blast)
  qed (use that in \<open>simp add: h' hs\<close>)
  show "is_canonical h' v j = is_canonical (c_heap c) v j" if "snap_ok (c_heap c) v" "?b \<le> fst (locate j)"
    using ps(3) [of v j] that by (simp add: h' hs)
  show "cur_ok h' (c_current c)"
  proof (cases "1 < below")
    case True
    then have h': "h' = put_ring (sn_body s) (prune_below (h_rings h (sn_body s)) ?b) h" by (simp add: h')
    have r: "h_rings h' (sn_body s) = prune_below (h_rings h (sn_body s)) ?b" by (simp add: h' put_ring_def)
    have lo: "?b \<le> fst (locate (sn_tip s + 1))" using locate_mono [OF le] .
    have bt: "r_base (h_rings h (sn_body s)) \<le> r_tip (h_rings h (sn_body s))" using sn(6) by (simp add: ring_ok_def)
    show ?thesis
      unfolding hs [symmetric] cur_ok_def body_addrs_def r
      using ps(1) [OF c(1) h'] c(2,3,4,5,6,7) lo bt p view by auto
  qed (use cur in \<open>simp add: h' hs\<close>)
qed

subsection \<open>The abstract chain and its runs\<close>

text \<open>
  What the component promises: a set of canonical ids with a tip, the highest id ever appended and
  the floor below which ids are finalized.
\<close>

record chain_spec =
  a_tip :: nat
  a_live :: "nat set"
  a_high :: nat
  a_floor :: nat

definition spec_start :: chain_spec where
  "spec_start = \<lparr>a_tip = 0, a_live = {}, a_high = 0, a_floor = 1\<rparr>"

definition spec_append :: "nat \<Rightarrow> chain_spec \<Rightarrow> chain_spec" where
  "spec_append i a = a\<lparr>a_tip := i, a_live := insert i (a_live a), a_high := max i (a_high a)\<rparr>"

definition spec_rollback :: "nat \<Rightarrow> chain_spec \<Rightarrow> chain_spec" where
  "spec_rollback n a = a\<lparr>a_tip := n, a_live := {j \<in> a_live a. j \<le> n}\<rparr>"

definition spec_finalize :: "nat \<Rightarrow> chain_spec \<Rightarrow> chain_spec" where
  "spec_finalize below a = a\<lparr>a_floor := max below (a_floor a)\<rparr>"

definition spec_restart :: "nat \<Rightarrow> nat \<Rightarrow> nat list \<Rightarrow> chain_spec" where
  "spec_restart base tip ids = \<lparr>a_tip = tip, a_live = set ids, a_high = tip, a_floor = base\<rparr>"

text \<open>
  Runs of the writer beside the abstract chain, with the snapshots that readers took, each paired
  with the abstract chain at that time.
\<close>

inductive chain_run :: "bool \<Rightarrow> chain \<Rightarrow> chain_spec \<Rightarrow> (snapshot \<times> chain_spec) list \<Rightarrow> bool" for debug where
  start: "chain_default = Some c \<Longrightarrow> chain_run debug c spec_start []"
| restart: "chain_default = Some c \<Longrightarrow> 0 < base \<Longrightarrow> base \<le> tip \<Longrightarrow> set ids \<subseteq> {base..tip} \<Longrightarrow>
    chain_restore c base tip ids = Some c' \<Longrightarrow> chain_run debug c' (spec_restart base tip ids) []"
| append: "chain_run debug c a vs \<Longrightarrow> a_tip a < i \<Longrightarrow> fst (locate (a_high a)) \<le> fst (locate i) \<Longrightarrow>
    chain_append debug c i = Some c' \<Longrightarrow> chain_run debug c' (spec_append i a) vs"
| rollback: "chain_run debug c a vs \<Longrightarrow> n \<le> a_tip a \<Longrightarrow> a_floor a \<le> n + 1 \<Longrightarrow>
    chain_rollback debug c n = Some c' \<Longrightarrow> chain_run debug c' (spec_rollback n a) vs"
| finalize: "chain_run debug c a vs \<Longrightarrow> below \<le> a_tip a + 1 \<Longrightarrow>
    chain_run debug (chain_finalize c below) (spec_finalize below a) vs"
| hold: "chain_run debug c a vs \<Longrightarrow> chain_run debug c a ((c_current c, a) # vs)"

definition simulates :: "chain_heap \<Rightarrow> snapshot \<Rightarrow> nat \<Rightarrow> chain_spec \<Rightarrow> bool" where
  "simulates h s floor a \<longleftrightarrow> (\<forall>j \<ge> floor. is_canonical h s j \<longleftrightarrow> j \<in> a_live a)"

definition run_ok :: "chain \<Rightarrow> chain_spec \<Rightarrow> (snapshot \<times> chain_spec) list \<Rightarrow> bool" where
  "run_ok c a vs \<longleftrightarrow> cur_ok (c_heap c) (c_current c) \<and> sn_tip (c_current c) = a_tip a
    \<and> tail_bucket (sn_hot (c_current c)) = fst (locate (a_high a)) \<and> 0 < a_floor a \<and> a_floor a \<le> a_tip a + 1
    \<and> r_base (h_rings (c_heap c) (sn_body (c_current c))) \<le> fst (locate (a_floor a))
    \<and> simulates (c_heap c) (c_current c) (a_floor a) a
    \<and> (\<forall>(v, av) \<in> set vs. held_ok (c_heap c) (c_current c) v \<and> simulates (c_heap c) v (a_floor a) av)"

lemma chain_default_ok:
  assumes "chain_default = Some c"
  shows "run_ok c spec_start []"
proof -
  obtain r :: "addr ring" where r: "ring_new 0 = Some r" "ring_ok r" "r_base r = 0" "r_tip r = 0" using ring_new_ok [of 0] by blast
  have none: "ring_get r b = None" for b using ring_get_live [OF r(2), of b] r(3,4) by (cases "ring_get r b") auto
  have c: "c = \<lparr>c_heap = \<lparr>h_buckets = \<lambda>_. bucket_new, h_rings = \<lambda>_. r, h_next = 2, h_next_ring = 1\<rparr>,
      c_current = \<lparr>sn_tip = 0, sn_hot = \<lparr>tail_bucket = 0, tail = 0, last_sealed = 1\<rparr>, sn_body = 0\<rparr>\<rparr>"
    using assms r(1)
    by (auto simp: chain_default_def hz_empty_def alloc_bucket_def alloc_ring_def Let_def numeral_2_eq_2 fun_upd_idem)
  have "snap_ok (c_heap c) (c_current c)" by (rule snap_okI) (use r none in \<open>simp_all add: c\<close>)
  then have "cur_ok (c_heap c) (c_current c)"
    using none r by (auto simp: cur_ok_def view_def body_addrs_def c locate_bit split: if_splits)
  then show ?thesis
    using r by (auto simp: run_ok_def simulates_def spec_start_def is_canonical_def c locate_def)
qed

lemma run_ok_D:
  assumes "run_ok c a vs"
  shows "cur_ok (c_heap c) (c_current c)" "sn_tip (c_current c) = a_tip a"
    "tail_bucket (sn_hot (c_current c)) = fst (locate (a_high a))" "0 < a_floor a" "a_floor a \<le> a_tip a + 1"
    "r_base (h_rings (c_heap c) (sn_body (c_current c))) \<le> fst (locate (a_floor a))"
    "a_floor a \<le> j \<Longrightarrow> is_canonical (c_heap c) (c_current c) j \<longleftrightarrow> j \<in> a_live a"
    "(v, av) \<in> set vs \<Longrightarrow> held_ok (c_heap c) (c_current c) v"
    "(v, av) \<in> set vs \<Longrightarrow> a_floor a \<le> j \<Longrightarrow> is_canonical (c_heap c) v j \<longleftrightarrow> j \<in> a_live av"
  using assms unfolding run_ok_def simulates_def by blast+

lemma roll_forward_bucket: "roll_forward debug hz t body h = Some (hz', h') \<Longrightarrow> tail_bucket hz' = t"
  by (auto simp: roll_forward_def Let_def split: if_splits option.splits prod.splits)

lemma append_bucket: "chain_append debug c i = Some c' \<Longrightarrow> tail_bucket (sn_hot (c_current c')) = fst (locate i)"
  by (auto simp: chain_append_def Let_def split_beta split: if_splits option.splits dest: roll_forward_bucket)

lemma apply_edit_bucket: "apply_edit body e (hz, h) = (hz', h') \<Longrightarrow> tail_bucket hz' = tail_bucket hz"
  by (auto simp: apply_edit_def Let_def split: if_splits option.splits prod.splits)

lemma apply_edits_bucket: "fold (apply_edit body) es (hz, h) = (hz', h') \<Longrightarrow> tail_bucket hz' = tail_bucket hz"
proof (induction es arbitrary: hz h)
  case (Cons e es)
  obtain hz1 h1 where e: "apply_edit body e (hz, h) = (hz1, h1)" by (cases "apply_edit body e (hz, h)")
  then show ?case using Cons.IH [of hz1 h1] Cons.prems apply_edit_bucket [OF e] by simp
qed simp

lemma rollback_bucket:
  "chain_rollback debug c n = Some c' \<Longrightarrow> tail_bucket (sn_hot (c_current c')) = tail_bucket (sn_hot (c_current c))"
  unfolding chain_rollback_def Let_def
  by (auto split: if_split_asm option.split_asm prod.split_asm dest!: apply_edits_bucket roll_forward_bucket)

lemma kept_readers:
  assumes ok: "run_ok c a vs" and keep: "keeps_held (c_heap c) (c_current c) h' s'"
  shows "\<forall>(v, av) \<in> set vs. held_ok h' s' v \<and> simulates h' v (a_floor a) av"
proof clarify
  fix v av assume v: "(v, av) \<in> set vs"
  then show "held_ok h' s' v \<and> simulates h' v (a_floor a) av"
    using keep run_ok_D(8,9) [OF ok v] by (simp add: keeps_held_def simulates_def)
qed

lemma run_append:
  assumes ok: "run_ok c a vs" and i: "a_tip a < i" "fst (locate (a_high a)) \<le> fst (locate i)"
  shows "\<exists>c'. chain_append debug c i = Some c' \<and> run_ok c' (spec_append i a) vs
    \<and> tail_bucket (sn_hot (c_current c')) = fst (locate i)"
proof -
  note d = run_ok_D [OF ok]
  obtain c' where c': "chain_append debug c i = Some c'" "cur_ok (c_heap c') (c_current c')" "sn_tip (c_current c') = i"
      "r_base (h_rings (c_heap c') (sn_body (c_current c'))) = r_base (h_rings (c_heap c) (sn_body (c_current c)))"
      "\<forall>j. r_base (h_rings (c_heap c) (sn_body (c_current c))) \<le> fst (locate j) \<longrightarrow>
        is_canonical (c_heap c') (c_current c') j = (j = i \<or> is_canonical (c_heap c) (c_current c) j)"
      "keeps_held (c_heap c) (c_current c) (c_heap c') (c_current c')"
    using append_ok [OF d(1), of i debug] i d(2,3) by auto
  have tb: "tail_bucket (sn_hot (c_current c')) = fst (locate i)"
    by (rule append_bucket [OF c'(1)])
  have "is_canonical (c_heap c') (c_current c') j \<longleftrightarrow> j = i \<or> j \<in> a_live a" if "a_floor a \<le> j" for j
    using c'(5) [rule_format, of j] d(6) d(7) [OF that] locate_mono [OF that] by simp
  moreover have "fst (locate (max i (a_high a))) = fst (locate i)"
    using i(2) locate_mono [of i "a_high a"] by (simp add: max_def)
  ultimately show ?thesis
    using c' d tb kept_readers [OF ok c'(6)] i by (auto simp: run_ok_def simulates_def spec_append_def)
qed

lemma run_rollback:
  assumes ok: "run_ok c a vs" and n: "n \<le> a_tip a" "a_floor a \<le> n + 1"
  shows "\<exists>c'. chain_rollback debug c n = Some c' \<and> run_ok c' (spec_rollback n a) vs"
proof -
  note d = run_ok_D [OF ok]
  obtain c' where c': "chain_rollback debug c n = Some c'" "cur_ok (c_heap c') (c_current c')" "sn_tip (c_current c') = n"
      "r_base (h_rings (c_heap c') (sn_body (c_current c'))) = r_base (h_rings (c_heap c) (sn_body (c_current c)))"
      "\<forall>j. is_canonical (c_heap c') (c_current c') j = (j \<le> n \<and> is_canonical (c_heap c) (c_current c) j)"
      "keeps_held (c_heap c) (c_current c) (c_heap c') (c_current c')"
    using rollback_ok [OF d(1), of n debug] n d(2,6) locate_mono [OF n(2)] by auto
  have tb: "tail_bucket (sn_hot (c_current c')) = tail_bucket (sn_hot (c_current c))"
    by (rule rollback_bucket [OF c'(1)])
  show ?thesis
    using c' d tb n kept_readers [OF ok c'(6)] by (auto simp: run_ok_def simulates_def spec_rollback_def)
qed

lemma run_finalize:
  assumes ok: "run_ok c a vs" and b: "below \<le> a_tip a + 1"
  shows "run_ok (chain_finalize c below) (spec_finalize below a) vs"
proof -
  note d = run_ok_D [OF ok]
  note f = finalize_ok [OF d(1), of below, unfolded d(2), OF b]
  have m: "max (fst (locate below)) (fst (locate (a_floor a))) \<le> fst (locate (max below (a_floor a)))"
    using locate_mono by (simp add: max_def)
  have read: "is_canonical (c_heap (chain_finalize c below)) v j \<longleftrightarrow> is_canonical (c_heap c) v j"
    if "snap_ok (c_heap c) v" "max below (a_floor a) \<le> j" for v j
    using f(5) [OF that(1)] locate_mono [of below j] that(2) by simp
  have readers: "\<forall>(v, av) \<in> set vs. held_ok (c_heap (chain_finalize c below)) (c_current c) v
      \<and> simulates (c_heap (chain_finalize c below)) v (max below (a_floor a)) av"
  proof clarify
    fix v av assume v: "(v, av) \<in> set vs"
    then show "held_ok (c_heap (chain_finalize c below)) (c_current c) v
      \<and> simulates (c_heap (chain_finalize c below)) v (max below (a_floor a)) av"
      using f(4) [OF d(8) [OF v]] read [OF held_okD(1) [OF d(8) [OF v]]] d(9) [OF v] by (simp add: simulates_def)
  qed
  show ?thesis
    unfolding run_ok_def f(1) spec_finalize_def
    using d f(2,3) m b readers read [OF cur_okD(1) [OF d(1)]] by (auto simp: simulates_def)
qed

subsection \<open>Restoring at startup\<close>

lemma set_bits_ok:
  assumes "\<forall>ws \<in> set bs. bucket_ok ws" "\<forall>i \<in> set ids. lo \<le> fst (locate i) \<and> fst (locate i) < lo + length bs"
  shows "\<exists>bs'. set_bits lo bs ids = Some bs' \<and> length bs' = length bs \<and> (\<forall>ws \<in> set bs'. bucket_ok ws)
    \<and> (\<forall>b < length bs. \<forall>k < CAPACITY. bucket_get (bs' ! b) k \<longleftrightarrow>
        bucket_get (bs ! b) k \<or> (\<exists>i \<in> set ids. locate i = (lo + b, k)))"
  using assms
proof (induction ids arbitrary: bs)
  case (Cons i ids)
  let ?b = "fst (locate i) - lo" and ?k = "snd (locate i)"
  let ?bs = "bs[?b := bucket_set (bs ! ?b) ?k]"
  have b: "lo \<le> fst (locate i)" "?b < length bs" using Cons.prems(2) by auto
  have ok: "\<forall>ws \<in> set ?bs. bucket_ok ws" using Cons.prems(1) b by (auto dest!: set_update_subset_insert [THEN subsetD])
  obtain bs' where bs': "set_bits lo ?bs ids = Some bs'" "length bs' = length bs" "\<forall>ws \<in> set bs'. bucket_ok ws"
      "\<forall>b < length bs. \<forall>k < CAPACITY. bucket_get (bs' ! b) k \<longleftrightarrow>
        bucket_get (?bs ! b) k \<or> (\<exists>i \<in> set ids. locate i = (lo + b, k))"
    using Cons.IH [OF ok] Cons.prems(2) by auto
  have "bucket_get (?bs ! x) k \<longleftrightarrow> bucket_get (bs ! x) k \<or> locate i = (lo + x, k)" if "x < length bs" "k < CAPACITY" for x k
    using that b Cons.prems(1) bucket_get_set [OF _ locate_bit that(2), of "bs ! x" i]
    by (cases "x = ?b") (auto simp: prod_eq_iff)
  then show ?case using bs' b by (auto simp: split_beta)
qed simp

lemma alloc_all_ok:
  "alloc_all bs h = (as, h') \<Longrightarrow> as = [h_next h..<h_next h + length bs] \<and> h_rings h' = h_rings h
    \<and> h_next_ring h' = h_next_ring h \<and> h_next h' = h_next h + length bs
    \<and> (\<forall>a. h_buckets h' a = (if h_next h \<le> a \<and> a < h_next h + length bs then bs ! (a - h_next h) else h_buckets h a))"
proof (induction bs arbitrary: h as h')
  case (Cons ws bs)
  let ?h = "snd (alloc_bucket ws h)"
  obtain as1 where st: "alloc_all bs ?h = (as1, h')" "as = h_next h # as1"
    using Cons.prems by (auto simp: Let_def alloc_bucket_def split: prod.splits)
  note ih = Cons.IH [OF st(1)]
  then show ?case
    by (auto simp: st(2) alloc_bucket_def upt_rec [of "h_next h"] nth_Cons' Suc_le_eq)
qed auto

text \<open>What the restored snapshot shows, as one bucket per live bucket number.\<close>

lemma restore_view:
  assumes c: "run_ok c spec_start []" and bs: "bs \<noteq> []" "\<forall>ws \<in> set bs. bucket_ok ws" "set_bits lo (replicate n bucket_new) ids = Some bs"
    and n: "n = fst (locate tip) - lo + 1" "lo = fst (locate base)" "lo \<le> fst (locate tip)" "length bs = n" "0 < tip"
  shows "\<exists>c'. chain_restore c base tip ids = Some c' \<and> snap_ok (c_heap c') (c_current c') \<and> sn_tip (c_current c') = tip
    \<and> tail_bucket (sn_hot (c_current c')) = fst (locate tip) \<and> r_base (h_rings (c_heap c') (sn_body (c_current c'))) = lo
    \<and> tail (sn_hot (c_current c')) \<noteq> last_sealed (sn_hot (c_current c'))
    \<and> (\<forall>b. ring_get (h_rings (c_heap c') (sn_body (c_current c'))) b \<noteq> Some (tail (sn_hot (c_current c'))))
    \<and> r_tip (h_rings (c_heap c') (sn_body (c_current c'))) = max lo (fst (locate tip) - 1)
    \<and> (\<forall>b. lo \<le> b \<longrightarrow> view (c_heap c') (c_current c') b = (if b \<le> fst (locate tip) then Some (bs ! (b - lo)) else None))"
proof -
  let ?T = "fst (locate tip)" and ?h0 = "c_heap c" and ?rest = "butlast bs"
  obtain t h1 where t: "alloc_bucket (last bs) ?h0 = (t, h1)" by (cases "alloc_bucket (last bs) ?h0")
  let ?l = "if ?rest = [] then bucket_new else last ?rest"
  obtain l h2 where l: "alloc_bucket ?l h1 = (l, h2)" by (cases "alloc_bucket ?l h1")
  obtain as h3 where as: "alloc_all (butlast ?rest) h2 = (as, h3)" by (cases "alloc_all (butlast ?rest) h2")
  note al = alloc_all_ok [OF as]
  obtain r0 :: "addr ring" where r0: "ring_new lo = Some r0" "ring_ok r0" "r_base r0 = lo" "r_tip r0 = lo"
    using ring_new_ok by blast
  obtain r where r: "push_all ring_push r0 as = Some r" "ring_ok r" "r_base r = lo" "r_tip r = lo + length as"
      "\<forall>i. ring_get r i = (if lo \<le> i \<and> i < lo + length as then Some (as ! (i - lo)) else ring_get r0 i)"
    using ring_log.push_all_ok [OF r0(2), of as] r0(3,4) by auto
  have none: "ring_get r0 b = None" for b using ring_get_live [OF r0(2), of b] r0(3,4) by (cases "ring_get r0 b") auto
  obtain body h' where b: "alloc_ring r h3 = (body, h')" by (cases "alloc_ring r h3")
  define s' where "s' = \<lparr>sn_tip = tip, sn_hot = \<lparr>tail_bucket = ?T, tail = t, last_sealed = l\<rparr>, sn_body = body\<rparr>"
  have res: "chain_restore c base tip ids = Some \<lparr>c_heap = h', c_current = s'\<rparr>"
    using n t l as r0(1) r(1) b bs(3) by (simp add: chain_restore_def Let_def s'_def)
  define k where "k = n - 2"
  have m: "length (butlast ?rest) = k" "length as = k" using n(4) al by (simp_all add: k_def)
  have adr: "t = h_next ?h0" "l = h_next ?h0 + 1" "h_next h2 = h_next ?h0 + 2" "h_next h' = h_next ?h0 + 2 + (k)"
      "h_rings h' body = r" "body < h_next_ring h'" "h_buckets h' = h_buckets h3"
    using t l b al m by (auto simp: alloc_bucket_def alloc_ring_def)
  have "as = [h_next ?h0 + 2..<h_next ?h0 + 2 + (k)]" using al m(1) adr(3) by simp
  then have as_nth: "as ! i = h_next ?h0 + 2 + i" if "i < k" for i using that by (simp del: upt_Suc)
  have h2: "h_buckets h2 = (h_buckets ?h0)(t := last bs, l := ?l)" using t l by (auto simp: alloc_bucket_def)
  have h3: "h_buckets h' a = (if h_next ?h0 + 2 \<le> a \<and> a < h_next ?h0 + 2 + (k)
      then butlast ?rest ! (a - (h_next ?h0 + 2)) else h_buckets h2 a)" for a
    using al m(1) adr(3,7) by simp
  have at: "h_buckets h' t = last bs" "h_buckets h' l = ?l" "\<And>i. i < k \<Longrightarrow> h_buckets h' (h_next ?h0 + 2 + i) = bs ! i"
      "\<And>a. a < h_next ?h0 \<Longrightarrow> h_buckets h' a = h_buckets ?h0 a"
    unfolding h3 h2 using adr(1,2) m(1) n(4) by (simp_all add: nth_butlast k_def [symmetric])
  have okl: "bucket_ok (last bs)" "bucket_ok ?l" using bs in_set_butlastD [of "last ?rest" bs] by auto
  have ok: "bucket_ok (h_buckets h' a)" if "a < h_next h'" for a
  proof -
    consider "a < h_next ?h0" | "a = t" | "a = l" | "h_next ?h0 + 2 \<le> a" using adr(1,2) by linarith
    then show ?thesis
    proof cases
      case 4
      then obtain i where i: "a = h_next ?h0 + 2 + i" by (metis le_Suc_ex)
      then have "i < k" using that adr(4) by linarith
      then have "h_buckets h' a = bs ! i" "i < length bs" using at(3) i n(4) by (simp_all add: k_def)
      then show ?thesis using bs(2) by simp
    qed (use at okl snap_okD(1) [OF cur_okD(1) [OF run_ok_D(1) [OF c]]] in auto)
  qed
  have ring: "ring_get r b = (if lo \<le> b \<and> b < lo + k then Some (h_next ?h0 + 2 + (b - lo)) else None)" for b
    using r(5) m(2) none as_nth [of "b - lo"] by auto
  have snap: "snap_ok h' s'"
  proof (rule snap_okI)
    show "a < h_next h'" if "ring_get (h_rings h' (sn_body s')) b = Some a" for a b
      using that by (auto simp: s'_def adr ring split: if_splits)
  qed (use ok adr r n m in \<open>simp_all add: s'_def k_def\<close>)
  have view: "view h' s' b = (if b \<le> ?T then Some (bs ! (b - lo)) else None)" if "lo \<le> b" for b
  proof -
    consider "b = ?T" | "b \<noteq> ?T" "1 \<le> ?T" "b = ?T - 1" | "b < ?T - 1" | "?T < b" by linarith
    then show ?thesis
    proof cases
      case 2
      then have "?rest \<noteq> []" "last ?rest = bs ! (b - lo)"
        using that n by (auto simp: last_conv_nth nth_butlast simp flip: length_0_conv)
      then show ?thesis using 2 at(2) by (simp add: view_def s'_def)
    next
      case 3
      then have "b - lo < k" "b < lo + k" using that n by (auto simp: k_def)
      then show ?thesis using 3 that at(3) [of "b - lo"] ring by (auto simp: view_def s'_def adr(5))
    qed (use that at(1) ring n bs(1) adr(5) in \<open>auto simp: view_def s'_def last_conv_nth k_def\<close>)
  qed
  have tl: "ring_get (h_rings h' body) b \<noteq> Some t" for b using ring [of b] adr(1,5) by auto
  have rt: "r_tip (h_rings h' body) = max lo (?T - 1)" using r(4) adr(5) m n by (simp add: k_def)
  show ?thesis
    by (rule exI [of _ "\<lparr>c_heap = h', c_current = s'\<rparr>"]) (use res snap view tl rt adr r(3) in \<open>simp add: s'_def\<close>)
qed

lemma run_restart:
  assumes c: "chain_default = Some c" and b: "0 < base" "base \<le> tip" and ids: "set ids \<subseteq> {base..tip}"
  shows "\<exists>c'. chain_restore c base tip ids = Some c' \<and> run_ok c' (spec_restart base tip ids) []"
proof -
  let ?lo = "fst (locate base)" and ?T = "fst (locate tip)"
  define n where "n = ?T - ?lo + 1"
  have le: "?lo \<le> ?T" by (rule locate_mono [OF b(2)])
  have rng: "\<forall>i \<in> set ids. ?lo \<le> fst (locate i) \<and> fst (locate i) < ?lo + n"
  proof
    fix i assume "i \<in> set ids"
    then have "base \<le> i" "i \<le> tip" using ids by auto
    then show "?lo \<le> fst (locate i) \<and> fst (locate i) < ?lo + n" using locate_mono [of base i] locate_mono [of i tip] le by (simp add: n_def)
  qed
  obtain bs where bs: "set_bits ?lo (replicate n bucket_new) ids = Some bs" "length bs = n" "\<forall>ws \<in> set bs. bucket_ok ws"
      "\<forall>b < n. \<forall>k < CAPACITY. bucket_get (bs ! b) k \<longleftrightarrow> (\<exists>i \<in> set ids. locate i = (?lo + b, k))"
    using set_bits_ok [of "replicate n bucket_new" ids ?lo] rng by auto
  have "bs \<noteq> []" using bs(2) by (auto simp: n_def)
  from restore_view [OF chain_default_ok [OF c] this bs(3) bs(1) n_def refl le bs(2)] b
  obtain c' where c': "chain_restore c base tip ids = Some c'" "snap_ok (c_heap c') (c_current c')" "sn_tip (c_current c') = tip"
      "tail_bucket (sn_hot (c_current c')) = ?T" "r_base (h_rings (c_heap c') (sn_body (c_current c'))) = ?lo"
      "tail (sn_hot (c_current c')) \<noteq> last_sealed (sn_hot (c_current c'))"
      "\<forall>b. ring_get (h_rings (c_heap c') (sn_body (c_current c'))) b \<noteq> Some (tail (sn_hot (c_current c')))"
      "r_tip (h_rings (c_heap c') (sn_body (c_current c'))) = max ?lo (?T - 1)"
      "\<forall>b. ?lo \<le> b \<longrightarrow> view (c_heap c') (c_current c') b = (if b \<le> ?T then Some (bs ! (b - ?lo)) else None)"
    by blast
  have bit: "bucket_get ws (snd (locate j)) \<longleftrightarrow> j \<in> set ids"
    if j: "base \<le> j" "view (c_heap c') (c_current c') (fst (locate j)) = Some ws" for j ws
  proof -
    have lo: "?lo \<le> fst (locate j)" by (rule locate_mono [OF j(1)])
    then have ws: "fst (locate j) \<le> ?T" "ws = bs ! (fst (locate j) - ?lo)" using j(2) c'(9) by (auto split: if_splits)
    then have "bucket_get ws (snd (locate j)) \<longleftrightarrow> (\<exists>i \<in> set ids. locate i = locate j)"
      using bs(4) [rule_format, of "fst (locate j) - ?lo" "snd (locate j)"] lo locate_bit by (simp add: n_def)
    moreover have "i = j" if i: "i \<in> set ids" "locate i = locate j" for i
    proof (rule locate_inj [OF _ _ i(2)])
      show "0 < i" "0 < j" using i(1) ids b(1) j(1) by auto
    qed
    ultimately show ?thesis by blast
  qed
  have "cur_ok (c_heap c') (c_current c')"
    unfolding cur_ok_def
    using c' bit b ids le locate_mono [of base "tip + 1"] by (auto simp: body_addrs_def)
  moreover have "is_canonical (c_heap c') (c_current c') j \<longleftrightarrow> j \<in> set ids" if "base \<le> j" for j
    using bit [OF that] c'(3,9) that b ids locate_mono [OF that] locate_mono [of j tip]
    by (auto simp: is_canonical_view bit_in_def split: option.splits)
  ultimately show ?thesis
    using c' b by (auto simp: run_ok_def simulates_def spec_restart_def)
qed

lemma run_hold: "run_ok c a vs \<Longrightarrow> run_ok c a ((c_current c, a) # vs)"
  by (simp add: run_ok_def cur_held)

lemma chain_run_ok: "chain_run debug c a vs \<Longrightarrow> run_ok c a vs"
proof (induction rule: chain_run.induct)
  case (append c a vs i c')
  then show ?case using run_append [of c a vs i debug] by auto
next
  case (rollback c a vs n c')
  then show ?case using run_rollback [of c a vs n debug] by auto
next
  case (restart c base tip ids c')
  then show ?case using run_restart [of c base tip ids] by auto
qed (simp_all add: chain_default_ok run_finalize run_hold)

lemma steps_run:
  assumes "chain_run debug c a vs"
  shows "a_tip a < i \<Longrightarrow> fst (locate (a_high a)) \<le> fst (locate i) \<Longrightarrow>
      \<exists>c'. chain_append debug c i = Some c' \<and> chain_run debug c' (spec_append i a) vs"
    and "n \<le> a_tip a \<Longrightarrow> a_floor a \<le> n + 1 \<Longrightarrow>
      \<exists>c'. chain_rollback debug c n = Some c' \<and> chain_run debug c' (spec_rollback n a) vs"
  using run_append [OF chain_run_ok [OF assms], of i debug] run_rollback [OF chain_run_ok [OF assms], of n debug]
    chain_run.append [OF assms] chain_run.rollback [OF assms] by blast+

lemma run_start: "\<exists>c. chain_run debug c spec_start []"
proof -
  have "\<exists>c. chain_default = Some c" using ring_new_ok [of 0] by (auto simp: chain_default_def)
  then show ?thesis using chain_run.start by blast
qed

text \<open>The run used by the witnesses: ids 1 and 129 appended, then rolled back to 1.\<close>

lemma example_run:
  "\<exists>c. chain_run debug c (spec_append 129 (spec_append 1 spec_start)) []"
  "\<exists>c. chain_run debug c (spec_rollback 1 (spec_append 129 (spec_append 1 spec_start))) []"
proof -
  obtain c0 where c0: "chain_run debug c0 spec_start []" using run_start by blast
  obtain c1 where c1: "chain_run debug c1 (spec_append 1 spec_start) []"
    using steps_run(1) [OF c0, of 1] locate_mono [of 0 1] by (auto simp: spec_start_def)
  obtain c2 where c2: "chain_run debug c2 (spec_append 129 (spec_append 1 spec_start)) []"
    using steps_run(1) [OF c1, of 129] locate_mono [of 1 129] by (auto simp: spec_append_def spec_start_def)
  then show "\<exists>c. chain_run debug c (spec_append 129 (spec_append 1 spec_start)) []" by blast
  show "\<exists>c. chain_run debug c (spec_rollback 1 (spec_append 129 (spec_append 1 spec_start))) []"
    using steps_run(2) [OF c2, of 1] by (auto simp: spec_append_def spec_start_def)
qed

lemma bucket_at_kept: "bucket_at hz x h = (l, h') \<Longrightarrow> a < h_next h \<Longrightarrow> h_buckets h' a = h_buckets h a"
  by (auto simp: bucket_at_def alloc_bucket_def split: if_splits)

lemma roll_backward:
  assumes "seal_loop hz target body h = Some h" "target < tail_bucket hz"
  shows "\<exists>hz' h'. roll_forward False hz target body h = Some (hz', h') \<and> tail_bucket hz' = target
    \<and> tail hz' = h_next h \<and> h_buckets h' (h_next h) = bucket_new"
proof -
  let ?h = "snd (alloc_bucket bucket_new h)" and ?x = "if target = 0 then 2 ^ 64 - 1 else target - 1"
  obtain l h' where b: "bucket_at hz ?x ?h = (l, h')" by (cases "bucket_at hz ?x ?h")
  have "h_buckets h' (h_next h) = bucket_new" using bucket_at_kept [OF b, of "h_next h"] by (simp add: alloc_bucket_def)
  then show ?thesis using assms b by (simp add: roll_forward_def Let_def alloc_bucket_def)
qed

subsection \<open>Properties\<close>

text \<open>C12: after any run of appends, rollbacks and finalizations, the published chain reads an id at
  or above the finalized floor as canonical exactly when it is in the abstract set of canonical
  ids.\<close>

theorem chain_refines:
  assumes "chain_run debug c a vs" "a_floor a \<le> j"
  shows "is_canonical (c_heap c) (c_current c) j \<longleftrightarrow> j \<in> a_live a"
  using run_ok_D(7) [OF chain_run_ok [OF assms(1)] assms(2)] .

theorem chain_refines_witness:
  "\<exists>c. chain_run True c (spec_rollback 1 (spec_append 129 (spec_append 1 spec_start))) []
    \<and> is_canonical (c_heap c) (c_current c) 1 \<and> \<not> is_canonical (c_heap c) (c_current c) 129"
proof -
  obtain c where c: "chain_run True c (spec_rollback 1 (spec_append 129 (spec_append 1 spec_start))) []"
    using example_run(2) by blast
  then show ?thesis
    using chain_refines [OF c, of 1] chain_refines [OF c, of 129] by (auto simp: spec_rollback_def spec_append_def spec_start_def)
qed

text \<open>C16: a snapshot taken at any point of a run keeps answering, for every id at or above the
  current finalized floor, what the chain held when the snapshot was taken, whatever the writer
  appends, rolls back or finalizes afterwards.\<close>

theorem snapshot_stable:
  assumes "chain_run debug c a vs" "(v, av) \<in> set vs" "a_floor a \<le> j"
  shows "is_canonical (c_heap c) v j \<longleftrightarrow> j \<in> a_live av"
  using run_ok_D(9) [OF chain_run_ok [OF assms(1)] assms(2,3)] .

theorem snapshot_stable_witness:
  "\<exists>c v c' a'. chain_run True c (spec_append 129 (spec_append 1 spec_start)) [] \<and> v = c_current c
    \<and> chain_rollback True c 1 = Some c' \<and> chain_run True c' a' [(v, spec_append 129 (spec_append 1 spec_start))]
    \<and> is_canonical (c_heap c') v 129"
proof -
  let ?a = "spec_append 129 (spec_append 1 spec_start)"
  obtain c where c: "chain_run True c ?a []" using example_run(1) by blast
  obtain c' where c': "chain_rollback True c 1 = Some c'" "chain_run True c' (spec_rollback 1 ?a) [(c_current c, ?a)]"
    using steps_run(2) [OF chain_run.hold [OF c], of 1] by (auto simp: spec_append_def spec_start_def)
  have "is_canonical (c_heap c') (c_current c) 129"
    using snapshot_stable [OF c'(2), of "c_current c" ?a 129] by (auto simp: spec_rollback_def spec_append_def spec_start_def)
  then show ?thesis using c c' by blast
qed

text \<open>C23: the writer never panics when it is used as intended: in every state of a run, with
  debug assertions compiled in or not, an append above the tip in a bucket no lower than the highest
  one reached succeeds, and so does a rollback to a tip at or above the finalized floor.\<close>

theorem writer_never_panics:
  assumes "chain_run debug c a vs"
  shows "(a_tip a < i \<and> fst (locate (a_high a)) \<le> fst (locate i) \<longrightarrow>
      (\<exists>c'. chain_append debug c i = Some c' \<and> sn_tip (c_current c') = i))
    \<and> (n \<le> a_tip a \<and> a_floor a \<le> n + 1 \<longrightarrow>
      (\<exists>c'. chain_rollback debug c n = Some c' \<and> sn_tip (c_current c') = n))"
  using steps_run [OF assms] run_ok_D(2) [OF chain_run_ok] by (fastforce simp: spec_append_def spec_rollback_def)

theorem writer_never_panics_witness:
  "\<exists>c. chain_run True c (spec_append 129 (spec_append 1 spec_start)) []
    \<and> (\<exists>c'. chain_append True c 130 = Some c' \<and> sn_tip (c_current c') = 130)
    \<and> (\<exists>c'. chain_rollback True c 0 = Some c' \<and> sn_tip (c_current c') = 0)"
proof -
  obtain c where c: "chain_run True c (spec_append 129 (spec_append 1 spec_start)) []" using example_run(1) by blast
  then show ?thesis
    using writer_never_panics [OF c, of 130 0] locate_mono [of 129 130]
    by (auto simp: spec_append_def spec_start_def)
qed

text \<open>C24: re-appending a known id whose bucket lies below the highest bucket ever reached, as a
  returning block does after a rollback across a bucket boundary, panics when debug assertions are
  compiled in; otherwise the hot zone is replaced by fresh buckets and every other id of that bucket
  reads as not canonical.\<close>

theorem returning_block_lost:
  assumes "chain_run debug c a vs" "a_tip a < i" "fst (locate i) < fst (locate (a_high a))"
  shows "chain_append True c i = None \<and> (\<exists>c'. chain_append False c i = Some c'
      \<and> (\<forall>j. j \<noteq> i \<longrightarrow> fst (locate j) = fst (locate i) \<longrightarrow> \<not> is_canonical (c_heap c') (c_current c') j))"
proof -
  note d = run_ok_D [OF chain_run_ok [OF assms(1)]] and sn = snap_okD [OF cur_okD(1) [OF run_ok_D(1) [OF chain_run_ok [OF assms(1)]]]]
  define h s where hs: "h = c_heap c" "s = c_current c"
  let ?b = "fst (locate i)" and ?k = "snd (locate i)"
  have debug: "chain_append True c i = None"
    using assms(2,3) d(2,3) by (simp add: chain_append_def Let_def split_beta roll_forward_def)
  have "seal_loop (sn_hot s) ?b (sn_body s) h = Some h"
  proof -
    have "\<not> next_index (h_rings h (sn_body s)) + 1 < ?b" using sn(7) assms(3) d(3) by (simp add: next_index_def hs)
    then show ?thesis by (simp add: seal_loop.simps)
  qed
  then obtain hz h1 where rf: "roll_forward False (sn_hot s) ?b (sn_body s) h = Some (hz, h1)"
      "tail_bucket hz = ?b" "tail hz = h_next h" "h_buckets h1 (h_next h) = bucket_new"
    using roll_backward assms(3) d(3) unfolding hs by metis
  define c' where "c' = \<lparr>c_heap = h1\<lparr>h_buckets := (h_buckets h1)(tail hz := bucket_set (h_buckets h1 (tail hz)) ?k)\<rparr>,
      c_current = \<lparr>sn_tip = i, sn_hot = hz, sn_body = sn_body s\<rparr>\<rparr>"
  have app: "chain_append False c i = Some c'"
    using rf(1) by (simp add: chain_append_def Let_def split_beta hs [symmetric] c'_def)
  have "\<not> is_canonical (c_heap c') (c_current c') j" if j: "j \<noteq> i" "fst (locate j) = ?b" for j
  proof
    assume "is_canonical (c_heap c') (c_current c') j"
    then have j': "0 < j" "bucket_get (bucket_set bucket_new ?k) (snd (locate j))"
      using j(2) rf by (auto simp: is_canonical_def c'_def split_beta split: if_splits)
    then have "snd (locate j) = ?k" using bucket_get_set [OF _ locate_bit [of i] locate_bit [of j]] locate_bit by auto
    then have "j = i" using locate_inj [of j i] j(2) j'(1) assms(2) by (simp add: prod_eq_iff)
    with j(1) show False ..
  qed
  then show ?thesis using app debug by blast
qed

theorem returning_block_lost_witness:
  "\<exists>c a. chain_run False c a [] \<and> 1 \<in> a_live a \<and> chain_append True c 2 = None
    \<and> (\<exists>c'. chain_append False c 2 = Some c' \<and> \<not> is_canonical (c_heap c') (c_current c') 1)"
proof -
  let ?a = "spec_rollback 1 (spec_append 129 (spec_append 1 spec_start))"
  obtain c where c: "chain_run False c ?a []" using example_run(2) by blast
  have a: "a_tip ?a < 2" "fst (locate 2) < fst (locate (a_high ?a))" "1 \<in> a_live ?a" "fst (locate 1) = fst (locate 2)"
    by (simp_all add: spec_rollback_def spec_append_def spec_start_def locate_def CAPACITY_def)
  show ?thesis
    using returning_block_lost [OF c a(1,2)] c a(3,4) by (intro exI [of _ c] exI [of _ ?a]) auto
qed

end
