(* ===== verification/ABI_Types.thy ===== *)
theory ABI_Types
  imports Codec
begin

text \<open>
  The vocabulary of the ZK ABI: its errors (\<open>zk/abi/src/error.rs\<close>, \<open>error_code.rs\<close>),
  declared accesses (\<open>core/types/src/access_type.rs\<close>, \<open>access_metadata.rs\<close>),
  exit destinations, the exit and deposit sinks and the exit iterator
  (\<open>zk/abi/src/withdrawal\<close>), and the journal iterator (\<open>journals.rs\<close>).

  A Rust string is the list of its UTF-8 bytes as characters.  Iterators whose consumer stops at
  the first error are functions to an error or the list of all entries.
\<close>

subsection \<open>Errors\<close>

datatype abi_error =
    Guest u32
  | DecodeError string

datatype error_code = VersionIncompatible | InvalidExitSpkTag | InvalidExitSpk

fun error_code_u32 :: "error_code \<Rightarrow> u32" where
  "error_code_u32 VersionIncompatible = 1"
| "error_code_u32 InvalidExitSpkTag = 2"
| "error_code_u32 InvalidExitSpk = 3"

definition error_of_code :: "error_code \<Rightarrow> abi_error" where
  "error_of_code e = Guest (error_code_u32 e)"

fun error_of_codec :: "codec_error \<Rightarrow> abi_error" where
  "error_of_codec (Decode field) = DecodeError field"
| "error_of_codec (ZeroCopy msg) = DecodeError msg"

definition abi :: "codec_error + 'a \<Rightarrow> abi_error + 'a" where
  "abi r = (case r of Inl e \<Rightarrow> Inl (error_of_codec e) | Inr x \<Rightarrow> Inr x)"

type_synonym 'a abi_reader = "bytes \<Rightarrow> abi_error + ('a \<times> bytes)"

definition str_bytes :: "string \<Rightarrow> bytes" where
  "str_bytes s = map (\<lambda>c. word_of_nat (of_char c)) s"

definition bytes_str :: "bytes \<Rightarrow> string" where
  "bytes_str bs = map (\<lambda>b. char_of (unat b)) bs"

fun error_encode :: "abi_error \<Rightarrow> bytes" where
  "error_encode (Guest code) = 0x00 # wr_u32_le code"
| "error_encode (DecodeError msg) = 0x01 # wr_len (length (str_bytes msg)) @ str_bytes msg"

definition error_decode :: "abi_error abi_reader" where
  "error_decode buf =
    rbind (abi (rd_byte ''error_variant'' buf)) (\<lambda>(b, buf).
      if b = 0x00 then rbind (abi (rd_le_u32 ''error_code'' buf)) (\<lambda>(code, buf). Inr (Guest code, buf))
      else if b = 0x01 then
        rbind (abi (rd_string ''error_msg'' buf)) (\<lambda>(msg, buf). Inr (DecodeError (bytes_str msg), buf))
      else Inl (DecodeError ''invalid error discriminant''))"

subsection \<open>Declared accesses\<close>

datatype access_type = Read | Write

fun access_type_u8 :: "access_type \<Rightarrow> byte" where
  "access_type_u8 Read = 0"
| "access_type_u8 Write = 1"

definition access_type_of :: "byte \<Rightarrow> codec_error + access_type" where
  "access_type_of v =
    (if v = 0 then Inr Read else if v = 1 then Inr Write else Inl (Decode ''unknown access type''))"

record access_metadata =
  am_resource_id :: bytes
  am_access_type :: access_type

text \<open>The zerocopy view of one 33-byte entry; \<open>cast_error\<close> is the message zerocopy gives.\<close>

definition am_cast :: "string \<Rightarrow> bytes \<Rightarrow> codec_error + access_metadata" where
  "am_cast cast_error bs =
    (case access_type_of (bs ! 32) of
       Inr t \<Rightarrow> Inr \<lparr>am_resource_id = take 32 bs, am_access_type = t\<rparr>
     | Inl _ \<Rightarrow> Inl (ZeroCopy cast_error))"

definition am_bytes :: "access_metadata \<Rightarrow> bytes" where
  "am_bytes a = am_resource_id a @ [access_type_u8 (am_access_type a)]"

definition am_read :: "bytes \<Rightarrow> access_metadata" where
  "am_read i = \<lparr>am_resource_id = i, am_access_type = Read\<rparr>"

definition am_write :: "bytes \<Rightarrow> access_metadata" where
  "am_write i = \<lparr>am_resource_id = i, am_access_type = Write\<rparr>"

definition am_decode_slice :: "nat \<Rightarrow> string \<Rightarrow> access_metadata list reader" where
  "am_decode_slice usize_bits cast_error buf =
    rbind (rd_slice_as usize_bits 33 (am_cast cast_error) ''access_metadata'' buf) (\<lambda>(view, buf).
      if adjacent (\<lambda>a b. am_resource_id a < am_resource_id b) view then Inr (view, buf)
      else Inl (Decode ''access metadata not strictly ascending''))"

subsection \<open>Exit destinations\<close>

datatype standard_spk =
    PubKey bytes
  | PubKeyEcdsa bytes
  | ScriptHash bytes

definition spk_decode :: "standard_spk abi_reader" where
  "spk_decode buf =
    rbind (abi (rd_byte ''exit_tag'' buf)) (\<lambda>(tag, buf).
      if tag = 0 then rbind (abi (rd_array 32 ''exit_pubkey'' buf)) (\<lambda>(k, buf). Inr (PubKey k, buf))
      else if tag = 1 then
        rbind (abi (rd_array 33 ''exit_pubkey_ecdsa'' buf)) (\<lambda>(k, buf). Inr (PubKeyEcdsa k, buf))
      else if tag = 8 then
        rbind (abi (rd_array 32 ''exit_script_hash'' buf)) (\<lambda>(h, buf). Inr (ScriptHash h, buf))
      else Inl (error_of_code InvalidExitSpkTag))"

fun spk_encode :: "standard_spk \<Rightarrow> bytes" where
  "spk_encode (PubKey k) = 0 # k"
| "spk_encode (PubKeyEcdsa k) = 1 # k"
| "spk_encode (ScriptHash h) = 8 # h"

datatype script_bytes = Len34 bytes | Len35 bytes

fun script_slice :: "script_bytes \<Rightarrow> bytes" where
  "script_slice (Len34 b) = b"
| "script_slice (Len35 b) = b"

fun to_script_bytes :: "standard_spk \<Rightarrow> script_bytes" where
  "to_script_bytes (PubKey k) = Len34 ([0x20] @ k @ [0xac])"
| "to_script_bytes (PubKeyEcdsa k) = Len35 ([0x21] @ k @ [0xab])"
| "to_script_bytes (ScriptHash h) = Len35 ([0xaa, 0x20] @ h @ [0x87])"

definition spk_of_script :: "u16 \<Rightarrow> bytes \<Rightarrow> abi_error + standard_spk" where
  "spk_of_script version s =
    (if version \<noteq> 0 then Inl (error_of_code InvalidExitSpk)
     else if length s = 34 \<and> s ! 0 = 0x20 \<and> s ! 33 = 0xac then Inr (PubKey (take 32 (drop 1 s)))
     else if length s = 35 \<and> s ! 0 = 0x21 \<and> s ! 34 = 0xab then Inr (PubKeyEcdsa (take 33 (drop 1 s)))
     else if length s = 35 \<and> s ! 0 = 0xaa \<and> s ! 1 = 0x20 \<and> s ! 34 = 0x87
     then Inr (ScriptHash (take 32 (drop 2 s)))
     else Inl (error_of_code InvalidExitSpk))"

subsection \<open>Sinks\<close>

record exit_sink =
  es_buf :: bytes

definition exit_sink_new :: exit_sink where
  "exit_sink_new = \<lparr>es_buf = []\<rparr>"

definition exit_emit :: "standard_spk \<Rightarrow> u64 \<Rightarrow> exit_sink \<Rightarrow> abi_error + exit_sink" where
  "exit_emit dest amount s = Inr (s\<lparr>es_buf := es_buf s @ spk_encode dest @ wr_u64_le amount\<rparr>)"

definition ZERO_HASH :: bytes where
  "ZERO_HASH = replicate 32 0"

record deposit_sink =
  ds_hash :: bytes

definition deposit_sink_new :: deposit_sink where
  "deposit_sink_new = \<lparr>ds_hash = ZERO_HASH\<rparr>"

definition deposit_get :: "deposit_sink \<Rightarrow> bytes" where
  "deposit_get s = ds_hash s"

definition deposit_set :: "bytes \<Rightarrow> deposit_sink \<Rightarrow> abi_error + deposit_sink" where
  "deposit_set h s =
    (if ds_hash s = ZERO_HASH then Inr (s\<lparr>ds_hash := h\<rparr>)
     else if ds_hash s = h then Inr s
     else Inl (DecodeError ''deposit_spk_hash set twice with differing values''))"

subsection \<open>Iterators\<close>

definition exit_entry :: "(standard_spk \<times> u64) abi_reader" where
  "exit_entry buf =
    rbind (spk_decode buf) (\<lambda>(dest, buf).
    rbind (abi (rd_le_u64 ''exit_amount'' buf)) (\<lambda>(amount, buf). Inr ((dest, amount), buf)))"

text \<open>
  All entries of a run read by \<open>entry\<close>: iteration ends at the empty buffer or the first
  error.  Every entry consumes bytes (\<open>abi_codec\<close> below), so the last branch is never
  taken by the iterators.
\<close>

definition entries_next :: "'a abi_reader \<Rightarrow> bytes \<Rightarrow> (abi_error + ('a \<times> bytes)) option" where
  "entries_next entry buf = (if buf = [] then None else Some (entry buf))"

function entries_all :: "'a abi_reader \<Rightarrow> bytes \<Rightarrow> abi_error + 'a list" where
  "entries_all entry buf =
    (case entries_next entry buf of
       None \<Rightarrow> Inr []
     | Some (Inl e) \<Rightarrow> Inl e
     | Some (Inr (x, rest)) \<Rightarrow>
        (if length rest < length buf then rbind (entries_all entry rest) (\<lambda>xs. Inr (x # xs))
         else Inl (DecodeError '''')))"
  by pat_completeness auto
termination
  by (relation "measure (\<lambda>(_, buf). length buf)") auto

declare entries_all.simps [simp del]

definition exits_iter :: "bytes \<Rightarrow> abi_error + (standard_spk \<times> u64) list" where
  "exits_iter buf = entries_all exit_entry buf"

definition journal_entry :: "bytes abi_reader" where
  "journal_entry buf = abi (rd_blob ''journal'' buf)"

definition journals_iter :: "bytes \<Rightarrow> abi_error + bytes list" where
  "journals_iter buf = entries_all journal_entry buf"

subsection \<open>Lemmas\<close>

lemma abi_simps [simp]:
  "abi (Inr x) = Inr x"
  "abi (Inl e) = Inl (error_of_codec e)"
  "abi r = Inr x \<longleftrightarrow> r = Inr x"
  by (auto simp: abi_def split: sum.splits)

lemma length_str_bytes [simp]: "length (str_bytes s) = length s"
  by (simp add: str_bytes_def)

lemma bytes_str_bytes [simp]: "bytes_str (str_bytes s) = s"
  by (auto simp: bytes_str_def str_bytes_def unat_of_nat intro!: map_idI)

lemma str_bytes_str [simp]: "str_bytes (bytes_str bs) = bs"
  using unat_byte_bound by (auto simp: bytes_str_def str_bytes_def intro!: map_idI)

definition error_ok :: "abi_error \<Rightarrow> bool" where
  "error_ok e = (case e of Guest _ \<Rightarrow> True | DecodeError s \<Rightarrow> length s < 2 ^ 32 \<and> utf8_valid (str_bytes s))"

subsection \<open>The contract of an ABI wire format\<close>

text \<open>
  Encoder and reader of one ABI value: the reader returns every valid value from its encoding,
  accepts nothing else, and every encoding has at least one byte.  Runs of entries then decode to
  the list that was encoded, and to nothing else.
\<close>

locale abi_codec =
  fixes enc :: "'a \<Rightarrow> bytes" and dec :: "'a abi_reader" and valid :: "'a \<Rightarrow> bool"
  assumes dec_iff: "dec buf = Inr (x, rest) \<longleftrightarrow> valid x \<and> buf = enc x @ rest"
    and enc_ne: "valid x \<Longrightarrow> enc x \<noteq> []"
begin

lemma dec_enc: "valid x \<Longrightarrow> dec (enc x @ rest) = Inr (x, rest)"
  using dec_iff by blast

lemma entries_round_trip: "list_all valid xs \<Longrightarrow> entries_all dec (concat (map enc xs)) = Inr xs"
proof (induction xs)
  case (Cons x xs)
  then have "0 < length (enc x)" "dec (enc x @ concat (map enc xs)) = Inr (x, concat (map enc xs))"
    using enc_ne dec_enc by auto
  then show ?case using Cons by (simp add: entries_all.simps [of dec "_ @ _"] entries_next_def)
qed (simp add: entries_all.simps entries_next_def)

lemma entries_canonical: "entries_all dec buf = Inr xs \<Longrightarrow> list_all valid xs \<and> buf = concat (map enc xs)"
proof (induction "length buf" arbitrary: buf xs rule: less_induct)
  case less
  show ?case
  proof (cases "buf = []")
    case False
    then obtain x rest ys where "dec buf = Inr (x, rest)" "length rest < length buf"
        "entries_all dec rest = Inr ys" "xs = x # ys"
      using less.prems
      by (auto simp: entries_all.simps [of dec buf] entries_next_def split: sum.splits if_splits)
    then show ?thesis using less.hyps [of rest ys] by (auto simp: dec_iff)
  qed (use less.prems in \<open>simp add: entries_all.simps entries_next_def\<close>)
qed

end

interpretation error_wire: abi_codec error_encode error_decode error_ok
proof unfold_locales
  fix buf e rest
  show "error_decode buf = Inr (e, rest) \<longleftrightarrow> error_ok e \<and> buf = error_encode e @ rest"
  proof (cases buf)
    case (Cons b bs)
    have str: "rd_string f bs = Inr (m, rest) \<longleftrightarrow> length m < 2 ^ 32 \<and> utf8_valid m \<and> bs = wr_len (length m) @ m @ rest" for f m
      using blob.dec_iff [of f bs m rest] by (auto simp: rd_string_def write_blob_def)
    have ex: "(\<exists>m. rd_string f bs = Inr (m, rest) \<and> bytes_str m = s) \<longleftrightarrow> rd_string f bs = Inr (str_bytes s, rest)" for f s
      by (metis bytes_str_bytes str_bytes_str)
    show ?thesis
    proof (cases e)
      case (DecodeError s)
      have "error_decode buf = Inr (e, rest) \<longleftrightarrow> b = 1 \<and> rd_string ''error_msg'' bs = Inr (str_bytes s, rest)"
        unfolding ex [symmetric] using Cons DecodeError by (auto simp: error_decode_def)
      then show ?thesis using Cons DecodeError str by (auto simp: error_ok_def)
    qed (use Cons in \<open>auto simp: error_decode_def error_ok_def rd_words_Inr\<close>)
  qed (cases e, auto simp: error_decode_def)
qed (auto simp: error_ok_def split: abi_error.splits)

fun spk_ok :: "standard_spk \<Rightarrow> bool" where
  "spk_ok (PubKey k) = (length k = 32)"
| "spk_ok (PubKeyEcdsa k) = (length k = 33)"
| "spk_ok (ScriptHash h) = (length h = 32)"

interpretation spk_wire: abi_codec spk_encode spk_decode spk_ok
proof unfold_locales
  fix buf d rest
  show "spk_decode buf = Inr (d, rest) \<longleftrightarrow> spk_ok d \<and> buf = spk_encode d @ rest"
    by (cases buf; cases d) (auto simp: spk_decode_def rd_array_Inr error_of_code_def)
next
  show "spk_ok d \<Longrightarrow> spk_encode d \<noteq> []" for d by (cases d) auto
qed

definition exit_bytes :: "standard_spk \<times> u64 \<Rightarrow> bytes" where
  "exit_bytes e = spk_encode (fst e) @ wr_u64_le (snd e)"

interpretation exit_wire: abi_codec exit_bytes exit_entry "\<lambda>e. spk_ok (fst e)"
proof unfold_locales
  show "exit_entry buf = Inr (e, rest) \<longleftrightarrow> spk_ok (fst e) \<and> buf = exit_bytes e @ rest" for buf e rest
    by (cases e) (auto simp: exit_entry_def spk_wire.dec_iff rd_words_Inr exit_bytes_def)
next
  show "spk_ok (fst e) \<Longrightarrow> exit_bytes e \<noteq> []" for e by (cases "fst e") (auto simp: exit_bytes_def)
qed

interpretation journal_wire: abi_codec write_blob journal_entry "\<lambda>j. length j < 2 ^ 32"
  by unfold_locales (auto simp: journal_entry_def blob.dec_iff write_blob_def simp flip: length_0_conv)

end
