(* ===== verification/Crypto.thy ===== *)
theory Crypto
  imports ABI_Types
begin

text \<open>
  Hash primitives and the derivations built on them: SHA-256 with a domain tag
  (\<open>core/hashing/src/sha256.rs\<close>) and the v1 transaction id of the L1
  (\<open>l1/utils/src/tx_id.rs\<close>).  The primitives are external; they are the fields of the record
  \<open>crypto\<close>, an argument of every definition that uses one.
\<close>

record crypto =
  cr_sha256 :: "bytes \<Rightarrow> bytes"
  cr_blake3 :: "bytes \<Rightarrow> bytes \<Rightarrow> bytes"
  cr_blake2b :: "bytes \<Rightarrow> bytes"
  cr_schnorr :: "bytes \<Rightarrow> bytes \<Rightarrow> bytes \<Rightarrow> bool"

definition sha_parts_with_domain :: "crypto \<Rightarrow> bytes \<Rightarrow> bytes list \<Rightarrow> bytes" where
  "sha_parts_with_domain cr domain parts = cr_sha256 cr (domain @ concat parts)"

definition sha_with_domain :: "crypto \<Rightarrow> bytes \<Rightarrow> bytes \<Rightarrow> bytes" where
  "sha_with_domain cr domain data = sha_parts_with_domain cr domain [data]"

definition blake3_key :: "string \<Rightarrow> bytes" where
  "blake3_key s = str_bytes s @ replicate (32 - length s) 0"

definition KEY_PAYLOAD_DIGEST :: bytes where "KEY_PAYLOAD_DIGEST = blake3_key ''PayloadDigest''"
definition KEY_TRANSACTION_REST :: bytes where "KEY_TRANSACTION_REST = blake3_key ''TransactionRest''"
definition KEY_TRANSACTION_V1_ID :: bytes where "KEY_TRANSACTION_V1_ID = blake3_key ''TransactionV1Id''"

definition tx_id_v1_from_digest :: "crypto \<Rightarrow> bytes \<Rightarrow> bytes \<Rightarrow> bytes" where
  "tx_id_v1_from_digest cr payload_digest rest_preimage =
    cr_blake3 cr KEY_TRANSACTION_V1_ID (payload_digest @ cr_blake3 cr KEY_TRANSACTION_REST rest_preimage)"

definition payload_digest_v1 :: "crypto \<Rightarrow> bytes \<Rightarrow> bytes" where
  "payload_digest_v1 cr payload = cr_blake3 cr KEY_PAYLOAD_DIGEST payload"

definition tx_id_v1 :: "crypto \<Rightarrow> bytes \<Rightarrow> bytes \<Rightarrow> bytes" where
  "tx_id_v1 cr payload rest_preimage =
    tx_id_v1_from_digest cr (cr_blake3 cr KEY_PAYLOAD_DIGEST payload) rest_preimage"

end
