(* ===== verification/Runtime_Locks.thy ===== *)
theory Runtime_Locks
  imports Crypto
begin

text \<open>
  Locks of the runtime program (\<open>zk/backend/risc0/runtime-processor/src\<close>): domain tags and
  resource ids (\<open>domain.rs\<close>, \<open>resource_id.rs\<close>), the unlocker buckets
  (\<open>auth_context.rs\<close>), the lock variants and their dispatcher (\<open>lock_variants.rs\<close>,
  \<open>lock.rs\<close>, \<open>lock_trait.rs\<close>) and the body codec of stored locks
  (\<open>lock_codec.rs\<close>).

  Errors of type \<open>&'static str\<close> are strings.
\<close>

subsection \<open>Derivations\<close>

datatype domain = ProgramResource | UserResource | SigMessage | LockId

fun domain_u8 :: "domain \<Rightarrow> byte" where
  "domain_u8 ProgramResource = 0"
| "domain_u8 UserResource = 1"
| "domain_u8 SigMessage = 2"
| "domain_u8 LockId = 3"

definition derive_program_resource :: "crypto \<Rightarrow> bytes \<Rightarrow> bytes" where
  "derive_program_resource cr label = sha_with_domain cr [domain_u8 ProgramResource] label"

definition config_resource_id :: "crypto \<Rightarrow> bytes" where
  "config_resource_id cr = derive_program_resource cr (str_bytes ''config'')"

definition derive_user_resource :: "crypto \<Rightarrow> bytes \<Rightarrow> bytes" where
  "derive_user_resource cr initial_lock_hash = sha_with_domain cr [domain_u8 UserResource] initial_lock_hash"

subsection \<open>Resolved authority\<close>

record schnorr_unlocker =
  su_pubkey :: bytes

record multisig_unlocker =
  mu_pubkeys :: "bytes list"

record auth_context =
  ac_schnorr :: "(byte \<times> schnorr_unlocker) list"
  ac_multisig :: "(byte \<times> multisig_unlocker) list"

definition auth_default :: auth_context where
  "auth_default = \<lparr>ac_schnorr = [], ac_multisig = []\<rparr>"

subsection \<open>Lock variants\<close>

datatype lock_enum =
    SchnorrLock bytes
  | MultisigLock byte bytes
  | UnlockedLock

definition slice_for_resource :: "(byte \<times> 'u) list \<Rightarrow> byte \<Rightarrow> (byte \<times> 'u) list" where
  "slice_for_resource bucket resource_idx =
    (let start = partition_point (\<lambda>(i, _). i < resource_idx) bucket;
         stop = partition_point (\<lambda>(i, _). i \<le> resource_idx) bucket
     in drop start (take stop bucket))"

definition schnorr_decode :: "bytes reader" where
  "schnorr_decode buf = rd_array 32 ''lock.schnorr.pubkey'' buf"

definition schnorr_try_unlock :: "bytes \<Rightarrow> byte \<Rightarrow> (byte \<times> schnorr_unlocker) list \<Rightarrow> bool" where
  "schnorr_try_unlock pubkey resource_idx us =
    (let s = slice_for_resource us resource_idx in
     if length s \<noteq> 1 then False else su_pubkey (snd (s ! 0)) = pubkey)"

definition MULTISIG_MAX_PUBKEYS :: byte where "MULTISIG_MAX_PUBKEYS = 16"

definition is_strictly_ascending :: "bytes list \<Rightarrow> bool" where
  "is_strictly_ascending pubkeys = adjacent (<) pubkeys"

text \<open>\<open>as_chunks::<32>()\<close>: the whole 32-byte chunks and the remainder.\<close>

definition as_chunks32 :: "bytes \<Rightarrow> bytes list \<times> bytes" where
  "as_chunks32 bs = (chunks 32 (length bs div 32) bs, drop (length bs div 32 * 32) bs)"

definition validate_multisig_fields :: "byte \<Rightarrow> byte \<Rightarrow> bytes \<Rightarrow> string + unit" where
  "validate_multisig_fields threshold n_pubkeys pubkeys =
    (if threshold = 0 \<or> n_pubkeys = 0 \<or> n_pubkeys < threshold \<or> MULTISIG_MAX_PUBKEYS < n_pubkeys
     then Inl ''lock.multisig: invalid threshold/n_pubkeys''
     else (let (keys, rem) = as_chunks32 pubkeys in
       if rem \<noteq> [] \<or> length keys \<noteq> unat n_pubkeys
       then Inl ''lock.multisig: body length doesn't match n_pubkeys''
       else if \<not> is_strictly_ascending keys then Inl ''lock.multisig: pubkeys not strictly ascending''
       else Inr ()))"

definition multisig_n_pubkeys :: "bytes \<Rightarrow> byte" where
  "multisig_n_pubkeys pubkeys = word_of_nat (length pubkeys div 32)"

definition iter_pubkeys :: "bytes \<Rightarrow> bytes list" where
  "iter_pubkeys pubkeys = fst (as_chunks32 pubkeys)"

definition multisig_decode :: "(byte \<times> bytes) reader" where
  "multisig_decode buf =
    rbind (rd_byte ''lock.multisig.threshold'' buf) (\<lambda>(threshold, buf).
    rbind (rd_byte ''lock.multisig.n_pubkeys'' buf) (\<lambda>(n_pubkeys, buf).
    rbind (rd_bytes (unat n_pubkeys * 32) ''lock.multisig.pubkeys'' buf) (\<lambda>(pubkeys, buf).
    case validate_multisig_fields threshold n_pubkeys pubkeys of
      Inl m \<Rightarrow> Inl (Decode m)
    | Inr _ \<Rightarrow> Inr ((threshold, pubkeys), buf))))"

definition multisig_encode :: "byte \<times> bytes \<Rightarrow> bytes" where
  "multisig_encode l = (case l of (threshold, pubkeys) \<Rightarrow> threshold # multisig_n_pubkeys pubkeys # pubkeys)"

text \<open>The inner loop of the merge walk: whether the lock key is contributed, and what is left.\<close>

fun advance :: "bytes \<Rightarrow> bytes list \<Rightarrow> bool \<times> bytes list" where
  "advance lock_pk [] = (False, [])"
| "advance lock_pk (c # cs) =
    (if c < lock_pk then advance lock_pk cs
     else if c = lock_pk then (True, cs)
     else (False, c # cs))"

fun merge_walk :: "byte \<Rightarrow> bytes list \<Rightarrow> bytes list \<Rightarrow> byte \<Rightarrow> bool" where
  "merge_walk threshold [] contrib matched = (threshold \<le> matched)"
| "merge_walk threshold (lock_pk # pks) contrib matched =
    (let (hit, contrib) = advance lock_pk contrib;
         matched = (if hit then matched + 1 else matched)
     in if threshold \<le> matched then True else merge_walk threshold pks contrib matched)"

definition multisig_try_unlock :: "byte \<Rightarrow> bytes \<Rightarrow> byte \<Rightarrow> (byte \<times> multisig_unlocker) list \<Rightarrow> bool" where
  "multisig_try_unlock threshold pubkeys resource_idx us =
    (let s = slice_for_resource us resource_idx in
     if length s \<noteq> 1 then False
     else (let contrib = mu_pubkeys (snd (s ! 0)) in
       if \<not> is_strictly_ascending contrib then False
       else merge_walk threshold (iter_pubkeys pubkeys) contrib 0))"

subsection \<open>Dispatch\<close>

fun lock_tag :: "lock_enum \<Rightarrow> byte" where
  "lock_tag (SchnorrLock _) = 0x01"
| "lock_tag (MultisigLock _ _) = 0x02"
| "lock_tag UnlockedLock = 0x03"

fun wire_body_len :: "lock_enum \<Rightarrow> nat" where
  "wire_body_len (SchnorrLock _) = 32"
| "wire_body_len (MultisigLock _ pubkeys) = 2 + length pubkeys"
| "wire_body_len UnlockedLock = 0"

definition lock_wire_len :: "lock_enum \<Rightarrow> nat" where
  "lock_wire_len l = 1 + wire_body_len l"

fun lock_body :: "lock_enum \<Rightarrow> bytes" where
  "lock_body (SchnorrLock pubkey) = pubkey"
| "lock_body (MultisigLock threshold pubkeys) = multisig_encode (threshold, pubkeys)"
| "lock_body UnlockedLock = []"

definition lock_encode :: "lock_enum \<Rightarrow> bytes" where
  "lock_encode l = lock_tag l # lock_body l"

definition decode_lock :: "lock_enum reader" where
  "decode_lock buf =
    rbind (rd_byte ''lock.tag'' buf) (\<lambda>(tag, buf).
      if tag = 0x01 then rbind (schnorr_decode buf) (\<lambda>(k, buf). Inr (SchnorrLock k, buf))
      else if tag = 0x02 then rbind (multisig_decode buf) (\<lambda>((t, ks), buf). Inr (MultisigLock t ks, buf))
      else if tag = 0x03 then Inr (UnlockedLock, buf)
      else Inl (Decode ''lock: unknown tag''))"

definition lock_id_hash :: "crypto \<Rightarrow> lock_enum \<Rightarrow> bytes" where
  "lock_id_hash cr l = sha_with_domain cr [domain_u8 LockId] (lock_tag l # lock_body l)"

fun lock_unlock :: "lock_enum \<Rightarrow> byte \<Rightarrow> auth_context \<Rightarrow> bool" where
  "lock_unlock (SchnorrLock pubkey) resource_idx ctx = schnorr_try_unlock pubkey resource_idx (ac_schnorr ctx)"
| "lock_unlock (MultisigLock threshold pubkeys) resource_idx ctx =
    multisig_try_unlock threshold pubkeys resource_idx (ac_multisig ctx)"
| "lock_unlock UnlockedLock resource_idx ctx = True"

subsection \<open>Stored lock bodies\<close>

definition validate_lock_body :: "byte \<Rightarrow> bytes \<Rightarrow> string + unit" where
  "validate_lock_body tag body =
    (if tag = 0x01 then
       (if length body \<noteq> 32 then Inl ''lock.schnorr: body must be 32 bytes'' else Inr ())
     else if tag = 0x02 then
       (case body of
          threshold # n_pubkeys # pubkeys \<Rightarrow> validate_multisig_fields threshold n_pubkeys pubkeys
        | _ \<Rightarrow> Inl ''lock.multisig: body too short'')
     else if tag = 0x03 then
       (if body \<noteq> [] then Inl ''lock.unlocked: body must be empty'' else Inr ())
     else Inl ''lock: unknown tag'')"

text \<open>\<open>None\<close> is a panic.\<close>

definition decode_lock_body_unchecked :: "byte \<Rightarrow> bytes \<Rightarrow> lock_enum option" where
  "decode_lock_body_unchecked tag body =
    (if tag = 0x01 then (if length body = 32 then Some (SchnorrLock body) else None)
     else if tag = 0x02 then
       (case body of threshold # _ # pubkeys \<Rightarrow> Some (MultisigLock threshold pubkeys) | _ \<Rightarrow> None)
     else if tag = 0x03 then Some UnlockedLock
     else None)"

text \<open>\<open>Inl None\<close> is a panic.\<close>

definition decode_lock_body :: "byte \<Rightarrow> bytes \<Rightarrow> string option + lock_enum" where
  "decode_lock_body tag body =
    (case validate_lock_body tag body of
       Inl m \<Rightarrow> Inl (Some m)
     | Inr _ \<Rightarrow> ok_or (decode_lock_body_unchecked tag body) None)"

subsection \<open>Well-formed locks\<close>

fun lock_ok :: "lock_enum \<Rightarrow> bool" where
  "lock_ok (SchnorrLock k) = (length k = 32)"
| "lock_ok (MultisigLock t ks) = (validate_multisig_fields t (multisig_n_pubkeys ks) ks = Inr ())"
| "lock_ok UnlockedLock = True"

lemma as_chunks32_exact:
  "snd (as_chunks32 ks) = [] \<and> length (fst (as_chunks32 ks)) = n \<longleftrightarrow> length ks = n * 32"
  unfolding as_chunks32_def by auto

lemma is_strictly_ascending_sorted: "is_strictly_ascending ks = sorted_wrt (<) ks"
  unfolding is_strictly_ascending_def by (rule adjacent_sorted_wrt) (simp add: transp_def)

lemma validate_multisig_iff:
  "validate_multisig_fields t n ks = Inr () \<longleftrightarrow>
    0 < t \<and> t \<le> n \<and> n \<le> 16 \<and> length ks = unat n * 32 \<and> sorted_wrt (<) (iter_pubkeys ks)"
  (is "?v = ?r")
proof -
  have pos: "t = 0 \<or> n = 0 \<or> n < t \<or> 16 < n \<longleftrightarrow> \<not> (0 < t \<and> t \<le> n \<and> n \<le> 16)"
    using word_gt_0 [of t] word_gt_0 [of n] by (auto simp: not_le)
  show ?thesis
    unfolding validate_multisig_fields_def MULTISIG_MAX_PUBKEYS_def pos iter_pubkeys_def
    using as_chunks32_exact [of ks "unat n"]
    by (auto simp: is_strictly_ascending_sorted split: prod.splits)
qed

lemma multisig_n_pubkeys_exact: "length ks = unat n * 32 \<Longrightarrow> multisig_n_pubkeys ks = n"
  unfolding multisig_n_pubkeys_def by simp

lemma multisig_lock_okD:
  assumes "lock_ok (MultisigLock t ks)"
  shows "0 < t" "length ks = unat (multisig_n_pubkeys ks) * 32" "length (iter_pubkeys ks) \<le> 16"
    "sorted_wrt (<) (iter_pubkeys ks)"
proof -
  have *: "0 < t \<and> multisig_n_pubkeys ks \<le> 16 \<and> length ks = unat (multisig_n_pubkeys ks) * 32
      \<and> sorted_wrt (<) (iter_pubkeys ks)"
    using assms by (simp add: validate_multisig_iff)
  then show "0 < t" "length ks = unat (multisig_n_pubkeys ks) * 32" "sorted_wrt (<) (iter_pubkeys ks)"
    by auto
  have "unat (multisig_n_pubkeys ks) \<le> 16"
    using * by (simp add: word_le_nat_alt)
  then show "length (iter_pubkeys ks) \<le> 16"
    using * as_chunks32_exact [of ks "unat (multisig_n_pubkeys ks)"] by (simp add: iter_pubkeys_def)
qed

lemma sum_unit_Inr: "\<forall>x. (v :: 'e + unit) \<noteq> Inl x \<Longrightarrow> v = Inr ()"
  by (cases v) simp_all

lemma multisig_decode_Inr:
  "multisig_decode buf = Inr ((t, ks), rest) \<longleftrightarrow>
    lock_ok (MultisigLock t ks) \<and> buf = multisig_encode (t, ks) @ rest"
proof
  assume "multisig_decode buf = Inr ((t, ks), rest)"
  then obtain n where *: "buf = t # n # ks @ rest" "length ks = unat n * 32"
      "validate_multisig_fields t n ks = Inr ()"
    unfolding multisig_decode_def
    by (auto simp: rd_byte_Inr rd_bytes_Inr split: sum.splits dest: sum_unit_Inr)
  then show "lock_ok (MultisigLock t ks) \<and> buf = multisig_encode (t, ks) @ rest"
    by (simp add: multisig_encode_def multisig_n_pubkeys_exact)
next
  assume *: "lock_ok (MultisigLock t ks) \<and> buf = multisig_encode (t, ks) @ rest"
  then have "length ks = unat (multisig_n_pubkeys ks) * 32" by (blast dest: multisig_lock_okD)
  with * show "multisig_decode buf = Inr ((t, ks), rest)"
    by (simp add: multisig_decode_def multisig_encode_def)
qed

lemma lock_tag_range: "lock_tag l = 1 \<or> lock_tag l = 2 \<or> lock_tag l = 3"
  by (cases l) simp_all

lemma decode_lock_Inr: "decode_lock buf = Inr (l, rest) \<longleftrightarrow> lock_ok l \<and> buf = lock_encode l @ rest"
proof (cases buf)
  case Nil
  then show ?thesis by (simp add: decode_lock_def lock_encode_def)
next
  case (Cons tag body)
  have multi: "(\<exists>t ks. multisig_decode body = Inr ((t, ks), rest) \<and> l = MultisigLock t ks) \<longleftrightarrow>
      lock_ok l \<and> (\<exists>t ks. l = MultisigLock t ks \<and> body = multisig_encode (t, ks) @ rest)"
    by (auto simp: multisig_decode_Inr)
  consider "tag = 1" | "tag = 2" | "tag = 3" | "tag \<notin> {1, 2, 3}" by blast
  then show ?thesis
  proof cases
    case 1
    then show ?thesis using Cons
      by (cases l) (auto simp: decode_lock_def lock_encode_def schnorr_decode_def rd_array_Inr)
  next
    case 2
    then show ?thesis using Cons multi
      by (cases l) (auto simp: decode_lock_def lock_encode_def)
  next
    case 3
    then show ?thesis using Cons by (cases l) (auto simp: decode_lock_def lock_encode_def)
  next
    case 4
    then show ?thesis using Cons lock_tag_range [of l] by (auto simp: decode_lock_def lock_encode_def)
  qed
qed

interpretation lock_wire: canonical_codec lock_encode decode_lock lock_ok
  by unfold_locales (auto simp: decode_lock_Inr)

lemma length_lock_body: "lock_ok l \<Longrightarrow> length (lock_body l) = wire_body_len l"
  by (cases l) (simp_all add: multisig_encode_def)

lemma validate_lock_body_iff:
  "validate_lock_body tag body = Inr () \<longleftrightarrow> (\<exists>l. lock_ok l \<and> lock_tag l = tag \<and> lock_body l = body)"
proof
  assume v: "validate_lock_body tag body = Inr ()"
  show "\<exists>l. lock_ok l \<and> lock_tag l = tag \<and> lock_body l = body"
  proof -
    consider "tag = 1" "length body = 32"
      | t n ks where "tag = 2" "body = t # n # ks" "validate_multisig_fields t n ks = Inr ()"
      | "tag = 3" "body = []"
      using v unfolding validate_lock_body_def by (auto split: if_splits list.splits)
    then show ?thesis
    proof cases
      case 1
      then show ?thesis by (intro exI [of _ "SchnorrLock body"]) simp
    next
      case 2
      then have "multisig_n_pubkeys ks = n"
        by (simp add: validate_multisig_iff multisig_n_pubkeys_exact)
      with 2 show ?thesis by (intro exI [of _ "MultisigLock t ks"]) (simp add: multisig_encode_def)
    next
      case 3
      then show ?thesis by (intro exI [of _ UnlockedLock]) simp
    qed
  qed
next
  assume "\<exists>l. lock_ok l \<and> lock_tag l = tag \<and> lock_body l = body"
  then obtain l where "lock_ok l" "lock_tag l = tag" "lock_body l = body" by blast
  then show "validate_lock_body tag body = Inr ()"
    by (cases l) (auto simp: validate_lock_body_def multisig_encode_def)
qed

lemma unchecked_of_ok: "lock_ok l \<Longrightarrow> decode_lock_body_unchecked (lock_tag l) (lock_body l) = Some l"
  by (cases l) (simp_all add: decode_lock_body_unchecked_def multisig_encode_def)

lemma decode_lock_body_Inr:
  "decode_lock_body tag body = Inr l \<longleftrightarrow> lock_ok l \<and> lock_tag l = tag \<and> lock_body l = body"
proof (cases "validate_lock_body tag body")
  case (Inl m)
  then have "\<not> (lock_ok l \<and> lock_tag l = tag \<and> lock_body l = body)"
    using validate_lock_body_iff [of tag body] by auto
  with Inl show ?thesis by (simp add: decode_lock_body_def)
next
  case (Inr u)
  then obtain l' where l': "lock_ok l'" "lock_tag l' = tag" "lock_body l' = body"
    using validate_lock_body_iff [of tag body] by auto
  have un: "decode_lock_body_unchecked tag body = Some l'" using unchecked_of_ok [OF l'(1)] l' by simp
  have "l = l'" if "lock_ok l" "lock_tag l = tag" "lock_body l = body"
    using unchecked_of_ok [OF that(1)] that un by simp
  moreover have "decode_lock_body tag body = Inr l'" using Inr un by (simp add: decode_lock_body_def)
  ultimately show ?thesis using l' by auto
qed

subsection \<open>The merge walk counts the common keys\<close>

lemma advance_sorted:
  "sorted_wrt (<) cs \<Longrightarrow> advance k cs = (k \<in> set cs, filter (\<lambda>c. k < c) cs)"
proof (induction cs)
  case (Cons c cs)
  have above: "k < x" if "x \<in> set cs" "\<not> c < k" for x
    using Cons.prems that by (auto intro: le_less_trans simp: not_less)
  consider "c < k" | "c = k" | "k < c" by (rule linorder_cases)
  then show ?case
  proof cases
    case 1
    then show ?thesis using Cons by (auto dest: order.asym)
  next
    case 2
    then show ?thesis using above by (auto simp: filter_id_conv)
  next
    case 3
    then show ?thesis using above by (auto simp: filter_id_conv dest: order.asym)
  qed
qed simp

lemma merge_walk_count:
  "sorted_wrt (<) ks \<Longrightarrow> sorted_wrt (<) cs \<Longrightarrow> unat m + length ks < 256 \<Longrightarrow>
    merge_walk t ks cs m \<longleftrightarrow> unat t \<le> unat m + card (set ks \<inter> set cs)"
proof (induction ks arbitrary: cs m)
  case (Cons k ks)
  define m' where "m' = (if k \<in> set cs then m + 1 else m)"
  define cs' where "cs' = filter (\<lambda>c. k < c) cs"
  have inc: "unat (m + 1) = Suc (unat m)"
    using Cons.prems by (simp add: unat_word_ariths)
  have m': "unat m' = unat m + (if k \<in> set cs then 1 else 0)" by (simp add: m'_def inc)
  have int: "set ks \<inter> set cs' = set ks \<inter> set cs" using Cons.prems by (auto simp: cs'_def)
  have card: "card (set (k # ks) \<inter> set cs) = (if k \<in> set cs then 1 else 0) + card (set ks \<inter> set cs)"
    using Cons.prems by (auto simp: Int_insert_left)
  have step: "merge_walk t (k # ks) cs m \<longleftrightarrow> t \<le> m' \<or> merge_walk t ks cs' m'"
    using advance_sorted [OF Cons.prems(2), of k] by (simp add: m'_def cs'_def Let_def)
  have "merge_walk t ks cs' m' \<longleftrightarrow> unat t \<le> unat m' + card (set ks \<inter> set cs')"
    using Cons.prems m' by (intro Cons.IH) (auto simp: cs'_def sorted_wrt_filter)
  then show ?case unfolding step card int m' by (auto simp: word_le_nat_alt m')
qed (simp add: word_le_nat_alt)

lemma slice_for_resource_filter:
  assumes "sorted (map fst bucket)"
  shows "slice_for_resource bucket r = filter (\<lambda>e. fst e = r) bucket"
proof -
  let ?P = "\<lambda>e. fst e < r" and ?Q = "\<lambda>e. fst e \<le> r"
  have sorted: "sorted_wrt (\<lambda>x y. fst x \<le> fst y) bucket" using assms by (simp add: sorted_map)
  have Q: "takeWhile ?Q bucket = filter ?Q bucket"
    by (rule partitioned_filter) (rule sorted_wrt_mono_rel [OF _ sorted], auto)
  have "takeWhile ?P (takeWhile ?Q bucket) = takeWhile ?P bucket"
    by (induction bucket) auto
  then have "partition_point ?P bucket = partition_point ?P (takeWhile ?Q bucket)"
    by (simp add: partition_point_def)
  then have "slice_for_resource bucket r = dropWhile ?P (filter ?Q bucket)"
    by (simp add: slice_for_resource_def Let_def case_prod_unfold take_partition_point
        drop_partition_point flip: Q)
  also have "\<dots> = filter (\<lambda>e. \<not> ?P e) (filter ?Q bucket)"
    by (rule partitioned_filter) (rule sorted_wrt_mono_rel [OF _ sorted_wrt_filter [OF sorted]], auto)
  also have "\<dots> = filter (\<lambda>e. fst e = r) bucket"
    by (simp, rule filter_cong) auto
  finally show ?thesis .
qed

text \<open>C26: A well-formed multisig lock is opened exactly when the bucket holds one contribution for
  the resource, its keys are strictly ascending, and at least \<open>threshold\<close> of the lock's keys are
  among them; a contribution can neither repeat a key nor count a foreign one.\<close>

theorem multisig_unlock_iff:
  assumes "lock_ok (MultisigLock threshold pubkeys)" and "sorted (map fst us)"
  shows "multisig_try_unlock threshold pubkeys r us \<longleftrightarrow>
    (\<exists>u. filter (\<lambda>e. fst e = r) us = [(r, u)] \<and> sorted_wrt (<) (mu_pubkeys u)
      \<and> unat threshold \<le> card (set (iter_pubkeys pubkeys) \<inter> set (mu_pubkeys u)))"
proof -
  note ok = multisig_lock_okD [OF assms(1)]
  have walk: "merge_walk threshold (iter_pubkeys pubkeys) cs 0 \<longleftrightarrow>
      unat threshold \<le> card (set (iter_pubkeys pubkeys) \<inter> set cs)" if "sorted_wrt (<) cs" for cs
    using merge_walk_count [OF ok(4) that, of 0 threshold] ok(3) by simp
  define s where "s = filter (\<lambda>e. fst e = r) us"
  show ?thesis
  proof (cases "length s = 1")
    case True
    then obtain e where e: "s = [e]" by (cases s) auto
    then have "e \<in> set s" by simp
    then have "fst e = r" by (simp add: s_def)
    with e obtain u where "s = [(r, u)]" by (cases e) simp
    then show ?thesis using walk
      by (auto simp: multisig_try_unlock_def slice_for_resource_filter [OF assms(2)] s_def
          is_strictly_ascending_sorted Let_def)
  next
    case False
    then show ?thesis
      by (auto simp: multisig_try_unlock_def slice_for_resource_filter [OF assms(2)] s_def Let_def)
  qed
qed

definition three_keys :: bytes where
  "three_keys = replicate 32 1 @ replicate 32 2 @ replicate 32 3"

theorem multisig_unlock_iff_witness:
  "multisig_try_unlock 2 three_keys 7
      [(3, \<lparr>mu_pubkeys = [replicate 32 1]\<rparr>), (7, \<lparr>mu_pubkeys = [replicate 32 1, replicate 32 3, replicate 32 9]\<rparr>)]
    \<and> \<not> multisig_try_unlock 2 three_keys 7 [(7, \<lparr>mu_pubkeys = [replicate 32 1, replicate 32 9]\<rparr>)]"
proof -
  have ok: "lock_ok (MultisigLock 2 three_keys)" by code_simp
  have keys: "iter_pubkeys three_keys = [replicate 32 1, replicate 32 2, replicate 32 3]" by code_simp
  have "sorted_wrt (<) [replicate 32 (1 :: byte), replicate 32 3, replicate 32 9]" by code_simp
  moreover have "set [replicate 32 (1 :: byte), replicate 32 2, replicate 32 3]
      \<inter> set [replicate 32 1, replicate 32 3, replicate 32 9] = {replicate 32 1, replicate 32 3}"
    and "set [replicate 32 (1 :: byte), replicate 32 2, replicate 32 3]
      \<inter> set [replicate 32 1, replicate 32 9] = {replicate 32 1}"
    and "card {replicate 32 (1 :: byte), replicate 32 3} = 2"
    by code_simp+
  ultimately show ?thesis
    using multisig_unlock_iff [OF ok, of "[(3, \<lparr>mu_pubkeys = [replicate 32 1]\<rparr>),
        (7, \<lparr>mu_pubkeys = [replicate 32 1, replicate 32 3, replicate 32 9]\<rparr>)]" 7]
      multisig_unlock_iff [OF ok, of "[(7, \<lparr>mu_pubkeys = [replicate 32 1, replicate 32 9]\<rparr>)]" 7]
    by (simp add: keys)
qed

text \<open>C27: The two decoders of a lock agree: a stored (tag, body) pair decodes to a lock exactly when
  the tag-prefixed wire form does and is consumed whole, the decoded lock is well formed and
  re-encodes to the same bytes, and the unchecked decoder behind the validation never panics.\<close>

theorem lock_decoders_agree:
  "decode_lock_body tag body \<noteq> Inl None
    \<and> (decode_lock_body tag body = Inr l \<longleftrightarrow> decode_lock (tag # body) = Inr (l, []))
    \<and> (decode_lock_body tag body = Inr l \<longleftrightarrow> lock_ok l \<and> lock_encode l = tag # body)"
proof -
  have "decode_lock_body tag body \<noteq> Inl None"
  proof (cases "validate_lock_body tag body")
    case (Inr u)
    then obtain l where "lock_ok l" "lock_tag l = tag" "lock_body l = body"
      using validate_lock_body_iff [of tag body] by auto
    then have "decode_lock_body tag body = Inr l" by (simp add: decode_lock_body_Inr)
    then show ?thesis by simp
  qed (simp add: decode_lock_body_def)
  then show ?thesis
    by (auto simp: decode_lock_body_Inr decode_lock_Inr lock_encode_def)
qed

lemma lock_encode_inj: "lock_ok a \<Longrightarrow> lock_ok b \<Longrightarrow> lock_encode a = lock_encode b \<Longrightarrow> a = b"
  by (rule lock_wire.enc_inj)

end
