(* ===== verification/ABI_Resource.thy ===== *)
theory ABI_Resource
  imports ABI_Types
begin

text \<open>
  The mutable view of one resource that the guest hands to a program
  (\<open>zk/abi/src/transaction_processor/input/resource.rs\<close>): a borrowed slice of the input buffer
  that is promoted to an owned buffer when the data outgrows it.
\<close>

record resource =
  r_access_metadata :: access_metadata
  r_backing :: bytes
  r_promoted :: "bytes option"
  r_index :: u32
  r_is_new :: bool
  r_dirty :: bool

definition resource_id :: "resource \<Rightarrow> bytes" where
  "resource_id r = am_resource_id (r_access_metadata r)"

definition resource_access_type :: "resource \<Rightarrow> access_type" where
  "resource_access_type r = am_access_type (r_access_metadata r)"

definition resource_data :: "resource \<Rightarrow> bytes" where
  "resource_data r = (case r_promoted r of Some v \<Rightarrow> v | None \<Rightarrow> r_backing r)"

text \<open>The caller of \<open>data_mut\<close> updates the active buffer in place by \<open>f\<close>.\<close>

definition resource_data_mut :: "(bytes \<Rightarrow> bytes) \<Rightarrow> resource \<Rightarrow> resource" where
  "resource_data_mut f r =
    (let r = r\<lparr>r_dirty := True\<rparr> in
     case r_promoted r of
       Some v \<Rightarrow> r\<lparr>r_promoted := Some (f v)\<rparr>
     | None \<Rightarrow> r\<lparr>r_backing := f (r_backing r)\<rparr>)"

text \<open>\<open>Vec::resize\<close> with zero bytes, when growing.\<close>

definition grow :: "nat \<Rightarrow> bytes \<Rightarrow> bytes" where
  "grow new_len v = v @ replicate (new_len - length v) 0"

definition resource_resize :: "nat \<Rightarrow> resource \<Rightarrow> resource" where
  "resource_resize new_len r =
    (let current_len = length (resource_data r) in
     if new_len = current_len then r
     else (if new_len < current_len then
             (case r_promoted r of
                Some v \<Rightarrow> r\<lparr>r_promoted := Some (take new_len v)\<rparr>
              | None \<Rightarrow> r\<lparr>r_backing := take new_len (r_backing r)\<rparr>)
           else
             (case r_promoted r of
                Some v \<Rightarrow> r\<lparr>r_promoted := Some (grow new_len v)\<rparr>
              | None \<Rightarrow> r\<lparr>r_promoted := Some (grow new_len (r_backing r))\<rparr>))
          \<lparr>r_dirty := True\<rparr>)"

definition resource_decode :: "access_metadata \<Rightarrow> resource abi_reader" where
  "resource_decode am buf =
    rbind (abi (rd_le_u32 ''index'' buf)) (\<lambda>(index, buf).
    rbind (abi (rd_blob ''data'' buf)) (\<lambda>(backing, buf).
    Inr (\<lparr>r_access_metadata = am, r_backing = backing, r_promoted = None, r_index = index,
         r_is_new = (backing = []), r_dirty = False\<rparr>, buf)))"

definition resource_encode :: "u32 \<times> bytes \<Rightarrow> bytes" where
  "resource_encode r = wr_u32_le (fst r) @ write_blob (snd r)"

subsection \<open>Lemmas\<close>

lemma length_grow: "length v \<le> n \<Longrightarrow> length (grow n v) = n"
  by (simp add: grow_def)

lemma resize_data:
  "resource_data (resource_resize n r) = take n (resource_data r) @ replicate (n - length (resource_data r)) 0"
  by (auto simp: resource_resize_def resource_data_def grow_def Let_def split: option.splits)

lemma data_mut_data [simp]: "resource_data (resource_data_mut f r) = f (resource_data r)"
  by (auto simp: resource_data_mut_def resource_data_def Let_def split: option.splits)

lemma data_mut_frame [simp]:
  "r_access_metadata (resource_data_mut f r) = r_access_metadata r"
  "r_index (resource_data_mut f r) = r_index r"
  "r_is_new (resource_data_mut f r) = r_is_new r"
  "r_dirty (resource_data_mut f r)"
  by (auto simp: resource_data_mut_def Let_def split: option.splits)

lemma resize_frame [simp]:
  "r_access_metadata (resource_resize n r) = r_access_metadata r"
  "r_index (resource_resize n r) = r_index r"
  "r_is_new (resource_resize n r) = r_is_new r"
  by (auto simp: resource_resize_def Let_def split: option.splits)

lemma resize_dirty: "r_dirty (resource_resize n r) \<longleftrightarrow> r_dirty r \<or> n \<noteq> length (resource_data r)"
  by (auto simp: resource_resize_def Let_def split: option.splits)

lemma length_resize [simp]: "length (resource_data (resource_resize n r)) = n"
  by (simp add: resize_data)

lemma resource_id_frame [simp]:
  "resource_id (resource_data_mut f r) = resource_id r"
  "resource_id (resource_resize n r) = resource_id r"
  by (simp_all add: resource_id_def)

lemma resource_decode_Inr:
  "resource_decode am buf = Inr (r, rest) \<longleftrightarrow>
    buf = resource_encode (r_index r, r_backing r) @ rest \<and> length (r_backing r) < 2 ^ 32
    \<and> r = \<lparr>r_access_metadata = am, r_backing = r_backing r, r_promoted = None, r_index = r_index r,
        r_is_new = (r_backing r = []), r_dirty = False\<rparr>" (is "_ \<longleftrightarrow> ?rhs")
proof
  assume "resource_decode am buf = Inr (r, rest)"
  then show ?rhs
    by (auto simp: resource_decode_def resource_encode_def rd_words_Inr dest!: rd_blob_Inr)
next
  assume ?rhs
  then show "resource_decode am buf = Inr (r, rest)"
    by (cases r) (auto simp: resource_decode_def resource_encode_def)
qed

end
