(* ===== verification/Runtime_Resources.thy ===== *)
theory Runtime_Resources
  imports Runtime_Locks ABI_Resource
begin

text \<open>
  Stored records of the runtime program
  (\<open>zk/backend/risc0/runtime-processor/src\<close>): the lifecycle of a slot (\<open>lifecycle.rs\<close>),
  the wire layouts of user and config resources (\<open>user.rs\<close>, \<open>config.rs\<close>) and the typed
  access to a slot (\<open>resource_ext.rs\<close>).

  The zerocopy cast of \<open>UserRaw\<close> and \<open>ConfigRaw\<close> (packed, unaligned, with a trailing byte
  slice) succeeds on every buffer that holds the 42-byte header and reads the fields at their
  offsets.  The two layouts share one contract, the locale \<open>locked_record\<close>.
\<close>

subsection \<open>Kinds and lifecycle\<close>

definition KIND_CONFIG :: byte where "KIND_CONFIG = 0"
definition KIND_USER :: byte where "KIND_USER = 1"

definition kind_of :: "bytes \<Rightarrow> byte option" where
  "kind_of bs = (case bs of [] \<Rightarrow> None | b # _ \<Rightarrow> Some b)"

datatype lifecycle = New | Live | Deleted

definition lifecycle_from_resource :: "resource \<Rightarrow> lifecycle" where
  "lifecycle_from_resource r = (if r_is_new r then New else Live)"

fun lifecycle_created :: "lifecycle \<Rightarrow> string + lifecycle" where
  "lifecycle_created New = Inr Live"
| "lifecycle_created Live = Inl ''lifecycle: double create (slot already live)''"
| "lifecycle_created Deleted = Inl ''lifecycle: re-create after delete''"

fun lifecycle_deleted :: "lifecycle \<Rightarrow> string + lifecycle" where
  "lifecycle_deleted Live = Inr Deleted"
| "lifecycle_deleted New = Inl ''lifecycle: delete of never-created slot''"
| "lifecycle_deleted Deleted = Inl ''lifecycle: double delete''"

subsection \<open>User records\<close>

definition USER_HEADER_LEN :: nat where "USER_HEADER_LEN = 1 + 8 + 32 + 1"

record user_raw =
  ur_kind :: byte
  ur_balance :: u64
  ur_initial_lock_hash :: bytes
  ur_lock_tag :: byte
  ur_lock_body :: bytes

definition user_raw_of :: "bytes \<Rightarrow> user_raw" where
  "user_raw_of bs = \<lparr>ur_kind = bs ! 0, ur_balance = word_of_nat (le_nat (take 8 (drop 1 bs))),
     ur_initial_lock_hash = take 32 (drop 9 bs), ur_lock_tag = bs ! 41, ur_lock_body = drop 42 bs\<rparr>"

definition user_raw_bytes :: "user_raw \<Rightarrow> bytes" where
  "user_raw_bytes u =
    ur_kind u # wr_u64_le (ur_balance u) @ ur_initial_lock_hash u @ ur_lock_tag u # ur_lock_body u"

definition user_from_bytes :: "bytes \<Rightarrow> string + user_raw" where
  "user_from_bytes bs =
    (if length bs < USER_HEADER_LEN then Inl ''user: too short for header''
     else let raw = user_raw_of bs in
       if ur_kind raw \<noteq> KIND_USER then Inl ''user: wrong kind byte''
       else rbind (validate_lock_body (ur_lock_tag raw) (ur_lock_body raw)) (\<lambda>_. Inr raw))"

definition user_lock :: "user_raw \<Rightarrow> lock_enum option" where
  "user_lock u = decode_lock_body_unchecked (ur_lock_tag u) (ur_lock_body u)"

definition user_total_len :: "lock_enum \<Rightarrow> nat" where
  "user_total_len l = USER_HEADER_LEN + wire_body_len l"

definition write_user :: "bytes \<Rightarrow> u64 \<Rightarrow> bytes \<Rightarrow> lock_enum \<Rightarrow> string + bytes" where
  "write_user out balance initial_lock_hash l =
    (if length out \<noteq> user_total_len l then Inl ''user: write buffer wrong length''
     else Inr (KIND_USER # wr_u64_le balance @ initial_lock_hash @ lock_tag l # lock_body l))"

subsection \<open>Config records\<close>

definition CONFIG_HEADER_LEN :: nat where "CONFIG_HEADER_LEN = 1 + 8 + 32 + 1"

record config_raw =
  cf_kind :: byte
  cf_min_withdrawal_amount :: u64
  cf_covenant_id :: bytes
  cf_lock_tag :: byte
  cf_lock_body :: bytes

definition config_raw_of :: "bytes \<Rightarrow> config_raw" where
  "config_raw_of bs = \<lparr>cf_kind = bs ! 0,
     cf_min_withdrawal_amount = word_of_nat (le_nat (take 8 (drop 1 bs))),
     cf_covenant_id = take 32 (drop 9 bs), cf_lock_tag = bs ! 41, cf_lock_body = drop 42 bs\<rparr>"

definition config_raw_bytes :: "config_raw \<Rightarrow> bytes" where
  "config_raw_bytes c =
    cf_kind c # wr_u64_le (cf_min_withdrawal_amount c) @ cf_covenant_id c @ cf_lock_tag c # cf_lock_body c"

definition config_from_bytes :: "bytes \<Rightarrow> string + config_raw" where
  "config_from_bytes bs =
    (if length bs < CONFIG_HEADER_LEN then Inl ''config: too short for header''
     else let raw = config_raw_of bs in
       if cf_kind raw \<noteq> KIND_CONFIG then Inl ''config: wrong kind byte''
       else rbind (validate_lock_body (cf_lock_tag raw) (cf_lock_body raw)) (\<lambda>_. Inr raw))"

definition config_lock :: "config_raw \<Rightarrow> lock_enum option" where
  "config_lock c = decode_lock_body_unchecked (cf_lock_tag c) (cf_lock_body c)"

definition config_total_len :: "lock_enum \<Rightarrow> nat" where
  "config_total_len l = CONFIG_HEADER_LEN + wire_body_len l"

definition write_config :: "bytes \<Rightarrow> u64 \<Rightarrow> bytes \<Rightarrow> lock_enum \<Rightarrow> string + bytes" where
  "write_config out min_withdrawal_amount covenant_id l =
    (if length out \<noteq> config_total_len l then Inl ''config: write buffer wrong length''
     else Inr (KIND_CONFIG # wr_u64_le min_withdrawal_amount @ covenant_id @ lock_tag l # lock_body l))"

subsection \<open>Typed access to a slot\<close>

definition resource_kind :: "resource \<Rightarrow> byte option" where
  "resource_kind r = (if resource_data r = [] then None else kind_of (resource_data r))"

definition view_config :: "(config_raw \<Rightarrow> 'r) \<Rightarrow> resource \<Rightarrow> 'r option" where
  "view_config f r =
    (case resource_kind r of
       None \<Rightarrow> None
     | Some k \<Rightarrow> if k \<noteq> KIND_CONFIG then None
         else (case config_from_bytes (resource_data r) of Inl _ \<Rightarrow> None | Inr c \<Rightarrow> Some (f c)))"

definition view_user :: "(user_raw \<Rightarrow> 'r) \<Rightarrow> resource \<Rightarrow> 'r option" where
  "view_user f r =
    (case resource_kind r of
       None \<Rightarrow> None
     | Some k \<Rightarrow> if k \<noteq> KIND_USER then None
         else (case user_from_bytes (resource_data r) of Inl _ \<Rightarrow> None | Inr u \<Rightarrow> Some (f u)))"

text \<open>The closure returns its value and the view it leaves behind.\<close>

definition modify_config :: "(config_raw \<Rightarrow> 'r \<times> config_raw) \<Rightarrow> resource \<Rightarrow> 'r option \<times> resource" where
  "modify_config f r =
    (case resource_kind r of
       None \<Rightarrow> (None, r)
     | Some k \<Rightarrow> if k \<noteq> KIND_CONFIG then (None, r)
         else let r = resource_data_mut (\<lambda>d. d) r in
           (case config_from_bytes (resource_data r) of
              Inl _ \<Rightarrow> (None, r)
            | Inr c \<Rightarrow> let (v, c') = f c in (Some v, resource_data_mut (\<lambda>_. config_raw_bytes c') r)))"

definition modify_user :: "(user_raw \<Rightarrow> 'r \<times> user_raw) \<Rightarrow> resource \<Rightarrow> 'r option \<times> resource" where
  "modify_user f r =
    (case resource_kind r of
       None \<Rightarrow> (None, r)
     | Some k \<Rightarrow> if k \<noteq> KIND_USER then (None, r)
         else let r = resource_data_mut (\<lambda>d. d) r in
           (case user_from_bytes (resource_data r) of
              Inl _ \<Rightarrow> (None, r)
            | Inr u \<Rightarrow> let (v, u') = f u in (Some v, resource_data_mut (\<lambda>_. user_raw_bytes u') r)))"

text \<open>\<open>write_*\<close> into the active buffer.\<close>

definition write_into :: "(bytes \<Rightarrow> string + bytes) \<Rightarrow> resource \<Rightarrow> string + resource" where
  "write_into w r = rbind (w (resource_data r)) (\<lambda>d. Inr (resource_data_mut (\<lambda>_. d) r))"

definition init_config :: "u64 \<Rightarrow> bytes \<Rightarrow> lock_enum \<Rightarrow> resource \<Rightarrow> string + resource" where
  "init_config min_withdrawal_amount covenant_id l r =
    (if resource_data r \<noteq> [] then Inl ''init_config: slot is not empty''
     else write_into (\<lambda>out. write_config out min_withdrawal_amount covenant_id l)
       (resource_resize (config_total_len l) r))"

definition init_user :: "u64 \<Rightarrow> bytes \<Rightarrow> lock_enum \<Rightarrow> resource \<Rightarrow> string + resource" where
  "init_user balance initial_lock_hash l r =
    (if resource_data r \<noteq> [] then Inl ''init_user: slot is not empty''
     else write_into (\<lambda>out. write_user out balance initial_lock_hash l)
       (resource_resize (user_total_len l) r))"

definition set_config_lock :: "lock_enum \<Rightarrow> resource \<Rightarrow> string + resource" where
  "set_config_lock new_lock r =
    (if resource_kind r \<noteq> Some KIND_CONFIG then Inl ''set_config_lock: not a config resource''
     else rbind (config_from_bytes (resource_data r)) (\<lambda>view.
       write_into (\<lambda>out. write_config out (cf_min_withdrawal_amount view) (cf_covenant_id view) new_lock)
         (resource_resize (CONFIG_HEADER_LEN + wire_body_len new_lock) r)))"

definition set_user_lock :: "lock_enum \<Rightarrow> resource \<Rightarrow> string + resource" where
  "set_user_lock new_lock r =
    (if resource_kind r \<noteq> Some KIND_USER then Inl ''set_user_lock: not a user resource''
     else rbind (user_from_bytes (resource_data r)) (\<lambda>view.
       write_into (\<lambda>out. write_user out (ur_balance view) (ur_initial_lock_hash view) new_lock)
         (resource_resize (USER_HEADER_LEN + wire_body_len new_lock) r)))"

subsection \<open>The contract of a locked record\<close>

locale locked_record =
  fixes kind :: byte
    and bytes_of :: "u64 \<Rightarrow> bytes \<Rightarrow> lock_enum \<Rightarrow> bytes"
    and view :: "bytes \<Rightarrow> string + 'v"
    and amount :: "'v \<Rightarrow> u64" and anchor :: "'v \<Rightarrow> bytes" and vlock :: "'v \<Rightarrow> lock_enum option"
  assumes kind_of_bytes: "kind_of (bytes_of a h l) = Some kind"
    and view_bytes: "length h = 32 \<Longrightarrow> lock_ok l \<Longrightarrow>
      \<exists>v. view (bytes_of a h l) = Inr v \<and> amount v = a \<and> anchor v = h \<and> vlock v = Some l"
    and bytes_view: "view bs = Inr v \<Longrightarrow>
      \<exists>l. lock_ok l \<and> vlock v = Some l \<and> length (anchor v) = 32 \<and> bs = bytes_of (amount v) (anchor v) l"
begin

lemma view_lock_safe: "view bs = Inr v \<Longrightarrow> vlock v \<noteq> None"
  using bytes_view [of bs v] by auto

lemma view_unique:
  "length h = 32 \<Longrightarrow> lock_ok l \<Longrightarrow> view (bytes_of a h l) = Inr v \<Longrightarrow>
    amount v = a \<and> anchor v = h \<and> vlock v = Some l"
  using view_bytes [of h l a] by auto

lemma view_kind: "view bs = Inr v \<Longrightarrow> kind_of bs = Some kind"
  using bytes_view [of bs v] kind_of_bytes by auto

lemma bytes_inj:
  assumes "length h = 32" "lock_ok l" "length h' = 32" "lock_ok l'" "bytes_of a h l = bytes_of a' h' l'"
  shows "a = a' \<and> h = h' \<and> l = l'"
proof -
  obtain v where v: "view (bytes_of a h l) = Inr v" using view_bytes [OF assms(1,2), of a] by blast
  then have v': "view (bytes_of a' h' l') = Inr v" unfolding assms(5) .
  show ?thesis using view_unique [OF assms(1,2) v] view_unique [OF assms(3,4) v'] by auto
qed

end

lemma header_split:
  assumes "42 \<le> length bs"
  shows "bs = bs ! 0 # take 8 (drop 1 bs) @ take 32 (drop 9 bs) @ bs ! 41 # drop 42 bs"
proof -
  have "drop 1 bs = take 8 (drop 1 bs) @ drop 9 bs"
    using append_take_drop_id [of 8 "drop 1 bs"] by simp
  moreover have "drop 9 bs = take 32 (drop 9 bs) @ drop 41 bs"
    using append_take_drop_id [of 32 "drop 9 bs"] by simp
  moreover have "drop 41 bs = bs ! 41 # drop 42 bs"
    using Cons_nth_drop_Suc [of 41 bs] assms by simp
  moreover have "bs = bs ! 0 # drop 1 bs"
    using assms by (cases bs) auto
  ultimately show ?thesis by metis
qed

lemma wr_u64_le_word: "length bs = 8 \<Longrightarrow> wr_u64_le (word_of_nat (le_nat bs)) = bs"
  using le_bytes_of_nat_le_nat(1) [of bs 8] by (simp add: wr_u64_le_def unat_of_nat)

lemma word_wr_u64_le: "word_of_nat (le_nat (wr_u64_le x)) = (x :: u64)"
  using word_bytes_bound(3) [of x] by (simp add: wr_u64_le_def le_nat_le_bytes)

definition user_bytes :: "u64 \<Rightarrow> bytes \<Rightarrow> lock_enum \<Rightarrow> bytes" where
  "user_bytes balance h l = KIND_USER # wr_u64_le balance @ h @ lock_tag l # lock_body l"

definition config_bytes :: "u64 \<Rightarrow> bytes \<Rightarrow> lock_enum \<Rightarrow> bytes" where
  "config_bytes amount h l = KIND_CONFIG # wr_u64_le amount @ h @ lock_tag l # lock_body l"

text \<open>The 42-byte header, written and read back.\<close>

lemma header_fields:
  fixes a :: u64 and h body :: bytes and k t :: byte
  assumes "length h = 32"
  shows "(k # wr_u64_le a @ h @ t # body) ! 0 = k"
    "take 8 (drop 1 (k # wr_u64_le a @ h @ t # body)) = wr_u64_le a"
    "take 32 (drop 9 (k # wr_u64_le a @ h @ t # body)) = h"
    "(k # wr_u64_le a @ h @ t # body) ! 41 = t"
    "drop 42 (k # wr_u64_le a @ h @ t # body) = body"
  using assms by (simp_all add: nth_append drop_Cons')

lemma user_raw_of_bytes:
  "length h = 32 \<Longrightarrow> user_raw_of (k # wr_u64_le a @ h @ t # body) =
    \<lparr>ur_kind = k, ur_balance = a, ur_initial_lock_hash = h, ur_lock_tag = t, ur_lock_body = body\<rparr>"
  unfolding user_raw_of_def by (simp only: header_fields word_wr_u64_le)

lemma config_raw_of_bytes:
  "length h = 32 \<Longrightarrow> config_raw_of (k # wr_u64_le a @ h @ t # body) =
    \<lparr>cf_kind = k, cf_min_withdrawal_amount = a, cf_covenant_id = h, cf_lock_tag = t, cf_lock_body = body\<rparr>"
  unfolding config_raw_of_def by (simp only: header_fields word_wr_u64_le)

lemma user_raw_bytes_of: "42 \<le> length bs \<Longrightarrow> user_raw_bytes (user_raw_of bs) = bs"
  using header_split [of bs] wr_u64_le_word [of "take 8 (drop 1 bs)"]
  by (simp add: user_raw_bytes_def user_raw_of_def)

lemma config_raw_bytes_of: "42 \<le> length bs \<Longrightarrow> config_raw_bytes (config_raw_of bs) = bs"
  using header_split [of bs] wr_u64_le_word [of "take 8 (drop 1 bs)"]
  by (simp add: config_raw_bytes_def config_raw_of_def)

lemma validated_lock:
  "validate_lock_body t body = Inr u \<Longrightarrow>
    \<exists>l. lock_ok l \<and> decode_lock_body_unchecked t body = Some l \<and> lock_tag l = t \<and> lock_body l = body"
  using validate_lock_body_iff [of t body] unchecked_of_ok by auto

lemma user_from_bytes_Inr:
  "user_from_bytes bs = Inr v \<longleftrightarrow>
    42 \<le> length bs \<and> v = user_raw_of bs \<and> ur_kind v = KIND_USER
    \<and> validate_lock_body (ur_lock_tag v) (ur_lock_body v) = Inr ()"
  unfolding user_from_bytes_def USER_HEADER_LEN_def by (auto simp: Let_def)

lemma config_from_bytes_Inr:
  "config_from_bytes bs = Inr v \<longleftrightarrow>
    42 \<le> length bs \<and> v = config_raw_of bs \<and> cf_kind v = KIND_CONFIG
    \<and> validate_lock_body (cf_lock_tag v) (cf_lock_body v) = Inr ()"
  unfolding config_from_bytes_def CONFIG_HEADER_LEN_def by (auto simp: Let_def)

lemma validate_ok: "lock_ok l \<Longrightarrow> validate_lock_body (lock_tag l) (lock_body l) = Inr ()"
  using validate_lock_body_iff by blast

interpretation user_rec: locked_record KIND_USER user_bytes user_from_bytes
  ur_balance ur_initial_lock_hash user_lock
proof (unfold_locales, goal_cases)
  case (1 a h l)
  then show ?case by (simp add: user_bytes_def kind_of_def)
next
  case (2 h l a)
  then show ?case
    by (simp add: user_from_bytes_Inr user_bytes_def user_raw_of_bytes validate_ok user_lock_def unchecked_of_ok)
next
  case (3 bs v)
  then have v: "42 \<le> length bs" "v = user_raw_of bs" "ur_kind v = KIND_USER"
    "validate_lock_body (ur_lock_tag v) (ur_lock_body v) = Inr ()"
    by (auto simp: user_from_bytes_Inr)
  obtain l where l: "lock_ok l" "user_lock v = Some l" "lock_tag l = ur_lock_tag v"
      "lock_body l = ur_lock_body v"
    using validated_lock [OF v(4)] by (auto simp: user_lock_def)
  have "bs = user_bytes (ur_balance v) (ur_initial_lock_hash v) l"
    using user_raw_bytes_of [OF v(1)] v l by (simp add: user_bytes_def user_raw_bytes_def)
  moreover have "length (ur_initial_lock_hash v) = 32" using v by (simp add: user_raw_of_def)
  ultimately show ?case using l by blast
qed

interpretation config_rec: locked_record KIND_CONFIG config_bytes config_from_bytes
  cf_min_withdrawal_amount cf_covenant_id config_lock
proof (unfold_locales, goal_cases)
  case (1 a h l)
  then show ?case by (simp add: config_bytes_def kind_of_def)
next
  case (2 h l a)
  then show ?case
    by (simp add: config_from_bytes_Inr config_bytes_def config_raw_of_bytes validate_ok config_lock_def
        unchecked_of_ok)
next
  case (3 bs v)
  then have v: "42 \<le> length bs" "v = config_raw_of bs" "cf_kind v = KIND_CONFIG"
    "validate_lock_body (cf_lock_tag v) (cf_lock_body v) = Inr ()"
    by (auto simp: config_from_bytes_Inr)
  obtain l where l: "lock_ok l" "config_lock v = Some l" "lock_tag l = cf_lock_tag v"
      "lock_body l = cf_lock_body v"
    using validated_lock [OF v(4)] by (auto simp: config_lock_def)
  have "bs = config_bytes (cf_min_withdrawal_amount v) (cf_covenant_id v) l"
    using config_raw_bytes_of [OF v(1)] v l by (simp add: config_bytes_def config_raw_bytes_def)
  moreover have "length (cf_covenant_id v) = 32" using v by (simp add: config_raw_of_def)
  ultimately show ?case using l by blast
qed

subsection \<open>What a slot holds\<close>

text \<open>The typed content of a slot.  A slot that holds neither record is opaque to the program.\<close>

datatype slot =
    Empty
  | User u64 bytes lock_enum
  | Config u64 bytes lock_enum
  | Opaque bytes

definition slot_of :: "bytes \<Rightarrow> slot" where
  "slot_of bs =
    (if bs = [] then Empty
     else case user_from_bytes bs of
       Inr u \<Rightarrow> User (ur_balance u) (ur_initial_lock_hash u) (the (user_lock u))
     | Inl _ \<Rightarrow> (case config_from_bytes bs of
         Inr c \<Rightarrow> Config (cf_min_withdrawal_amount c) (cf_covenant_id c) (the (config_lock c))
       | Inl _ \<Rightarrow> Opaque bs))"

lemma user_config_disjoint: "user_from_bytes bs = Inr u \<Longrightarrow> config_from_bytes bs = Inr c \<Longrightarrow> False"
  using user_rec.view_kind [of bs u] config_rec.view_kind [of bs c] by (simp add: KIND_USER_def KIND_CONFIG_def)

lemma slot_of_user: "slot_of bs = User b h l \<longleftrightarrow> length h = 32 \<and> lock_ok l \<and> bs = user_bytes b h l"
proof
  assume "slot_of bs = User b h l"
  then obtain u where u: "user_from_bytes bs = Inr u" "ur_balance u = b" "ur_initial_lock_hash u = h"
      "the (user_lock u) = l"
    by (auto simp: slot_of_def split: if_splits sum.splits)
  then show "length h = 32 \<and> lock_ok l \<and> bs = user_bytes b h l"
    using user_rec.bytes_view [OF u(1)] by auto
next
  assume *: "length h = 32 \<and> lock_ok l \<and> bs = user_bytes b h l"
  then obtain u where u: "user_from_bytes bs = Inr u" "ur_balance u = b" "ur_initial_lock_hash u = h"
      "user_lock u = Some l"
    using user_rec.view_bytes [of h l b] by auto
  moreover have "bs \<noteq> []" using * by (simp add: user_bytes_def)
  ultimately show "slot_of bs = User b h l" by (simp add: slot_of_def)
qed

lemma slot_of_config: "slot_of bs = Config b h l \<longleftrightarrow> length h = 32 \<and> lock_ok l \<and> bs = config_bytes b h l"
proof
  assume "slot_of bs = Config b h l"
  then obtain u where u: "config_from_bytes bs = Inr u" "cf_min_withdrawal_amount u = b" "cf_covenant_id u = h"
      "the (config_lock u) = l"
    by (auto simp: slot_of_def split: if_splits sum.splits)
  then show "length h = 32 \<and> lock_ok l \<and> bs = config_bytes b h l"
    using config_rec.bytes_view [OF u(1)] by auto
next
  assume *: "length h = 32 \<and> lock_ok l \<and> bs = config_bytes b h l"
  then obtain u where u: "config_from_bytes bs = Inr u" "cf_min_withdrawal_amount u = b" "cf_covenant_id u = h"
      "config_lock u = Some l"
    using config_rec.view_bytes [of h l b] by auto
  moreover have "bs \<noteq> []" using * by (simp add: config_bytes_def)
  moreover have "user_from_bytes bs \<noteq> Inr v" for v using user_config_disjoint u(1) by blast
  ultimately show "slot_of bs = Config b h l" by (auto simp: slot_of_def split: sum.splits)
qed

subsection \<open>The typed operations on slots\<close>

lemma resource_kind_eq: "resource_kind r = kind_of (resource_data r)"
  by (auto simp: resource_kind_def kind_of_def)

lemma view_user_eq: "view_user f r = (case user_from_bytes (resource_data r) of Inl _ \<Rightarrow> None | Inr u \<Rightarrow> Some (f u))"
  using user_rec.view_kind [of "resource_data r"]
  by (auto simp: view_user_def resource_kind_eq split: option.splits sum.splits)

lemma view_config_eq: "view_config f r = (case config_from_bytes (resource_data r) of Inl _ \<Rightarrow> None | Inr c \<Rightarrow> Some (f c))"
  using config_rec.view_kind [of "resource_data r"]
  by (auto simp: view_config_def resource_kind_eq split: option.splits sum.splits)

lemma user_view_slot:
  assumes "user_from_bytes bs = Inr u"
  obtains l where "slot_of bs = User (ur_balance u) (ur_initial_lock_hash u) l" "user_lock u = Some l" "lock_ok l"
  using user_rec.bytes_view [OF assms] slot_of_user by metis

lemma config_view_slot:
  assumes "config_from_bytes bs = Inr c"
  obtains l where "slot_of bs = Config (cf_min_withdrawal_amount c) (cf_covenant_id c) l"
    "config_lock c = Some l" "lock_ok l"
  using config_rec.bytes_view [OF assms] slot_of_config by metis

lemma slot_user_view:
  assumes "slot_of bs = User b h l"
  obtains u where "user_from_bytes bs = Inr u" "ur_balance u = b" "ur_initial_lock_hash u = h" "user_lock u = Some l"
  using assms user_rec.view_bytes slot_of_user by metis

lemma slot_config_view:
  assumes "slot_of bs = Config b h l"
  obtains c where "config_from_bytes bs = Inr c" "cf_min_withdrawal_amount c = b" "cf_covenant_id c = h"
    "config_lock c = Some l"
  using assms config_rec.view_bytes slot_of_config by metis

lemma write_into_user:
  assumes "length (resource_data r) = user_total_len l"
  shows "write_into (\<lambda>out. write_user out b h l) r = Inr (resource_data_mut (\<lambda>_. user_bytes b h l) r)"
  using assms by (simp add: write_into_def write_user_def user_bytes_def)

lemma write_into_config:
  assumes "length (resource_data r) = config_total_len l"
  shows "write_into (\<lambda>out. write_config out b h l) r = Inr (resource_data_mut (\<lambda>_. config_bytes b h l) r)"
  using assms by (simp add: write_into_def write_config_def config_bytes_def)

lemma init_user_Inr:
  "init_user b h l r = Inr r' \<longleftrightarrow> resource_data r = []
    \<and> r' = resource_data_mut (\<lambda>_. user_bytes b h l) (resource_resize (user_total_len l) r)"
  by (auto simp: init_user_def write_into_user)

lemma init_config_Inr:
  "init_config b h l r = Inr r' \<longleftrightarrow> resource_data r = []
    \<and> r' = resource_data_mut (\<lambda>_. config_bytes b h l) (resource_resize (config_total_len l) r)"
  by (auto simp: init_config_def write_into_config)

lemma set_user_lock_Inr:
  "set_user_lock l r = Inr r' \<longleftrightarrow> (\<exists>u. user_from_bytes (resource_data r) = Inr u
    \<and> r' = resource_data_mut (\<lambda>_. user_bytes (ur_balance u) (ur_initial_lock_hash u) l)
        (resource_resize (user_total_len l) r))"
  using user_rec.view_kind [of "resource_data r"]
  by (auto simp: set_user_lock_def resource_kind_eq write_into_user simp flip: user_total_len_def)

lemma set_config_lock_Inr:
  "set_config_lock l r = Inr r' \<longleftrightarrow> (\<exists>c. config_from_bytes (resource_data r) = Inr c
    \<and> r' = resource_data_mut (\<lambda>_. config_bytes (cf_min_withdrawal_amount c) (cf_covenant_id c) l)
        (resource_resize (config_total_len l) r))"
  using config_rec.view_kind [of "resource_data r"]
  by (auto simp: set_config_lock_def resource_kind_eq write_into_config simp flip: config_total_len_def)

lemma modify_user_Some:
  "modify_user f r = (Some v, r') \<longleftrightarrow> (\<exists>u u'. user_from_bytes (resource_data r) = Inr u \<and> f u = (v, u')
    \<and> r' = resource_data_mut (\<lambda>_. user_raw_bytes u') (resource_data_mut (\<lambda>d. d) r))"
  using user_rec.view_kind [of "resource_data r"]
  by (auto simp: modify_user_def resource_kind_eq Let_def split: option.splits sum.splits prod.splits)

lemma modify_config_Some:
  "modify_config f r = (Some v, r') \<longleftrightarrow> (\<exists>u u'. config_from_bytes (resource_data r) = Inr u \<and> f u = (v, u')
    \<and> r' = resource_data_mut (\<lambda>_. config_raw_bytes u') (resource_data_mut (\<lambda>d. d) r))"
  using config_rec.view_kind [of "resource_data r"]
  by (auto simp: modify_config_def resource_kind_eq Let_def split: option.splits sum.splits prod.splits)

lemma user_view_bytes:
  assumes "user_from_bytes bs = Inr u" "user_lock u = Some l"
  shows "user_raw_bytes (u\<lparr>ur_balance := b\<rparr>) = user_bytes b (ur_initial_lock_hash u) l"
    and "length (ur_initial_lock_hash u) = 32" "lock_ok l"
proof -
  have v: "ur_kind u = KIND_USER" "validate_lock_body (ur_lock_tag u) (ur_lock_body u) = Inr ()"
    using assms(1) by (auto simp: user_from_bytes_Inr)
  obtain l' where "lock_ok l'" "user_lock u = Some l'" "lock_tag l' = ur_lock_tag u" "lock_body l' = ur_lock_body u"
    using validated_lock [OF v(2)] by (auto simp: user_lock_def)
  then show "user_raw_bytes (u\<lparr>ur_balance := b\<rparr>) = user_bytes b (ur_initial_lock_hash u) l" "lock_ok l"
    using assms(2) v by (simp_all add: user_raw_bytes_def user_bytes_def)
  show "length (ur_initial_lock_hash u) = 32" using user_rec.bytes_view [OF assms(1)] by blast
qed

lemma config_view_bytes:
  assumes "config_from_bytes bs = Inr c" "config_lock c = Some l"
  shows "config_raw_bytes (c\<lparr>cf_min_withdrawal_amount := b, cf_covenant_id := h\<rparr>) = config_bytes b h l"
    and "config_raw_bytes (c\<lparr>cf_min_withdrawal_amount := b\<rparr>) = config_bytes b (cf_covenant_id c) l"
    and "length (cf_covenant_id c) = 32" "lock_ok l"
proof -
  have v: "cf_kind c = KIND_CONFIG" "validate_lock_body (cf_lock_tag c) (cf_lock_body c) = Inr ()"
    using assms(1) by (auto simp: config_from_bytes_Inr)
  obtain l' where "lock_ok l'" "config_lock c = Some l'" "lock_tag l' = cf_lock_tag c" "lock_body l' = cf_lock_body c"
    using validated_lock [OF v(2)] by (auto simp: config_lock_def)
  then show "config_raw_bytes (c\<lparr>cf_min_withdrawal_amount := b, cf_covenant_id := h\<rparr>) = config_bytes b h l"
    "config_raw_bytes (c\<lparr>cf_min_withdrawal_amount := b\<rparr>) = config_bytes b (cf_covenant_id c) l" "lock_ok l"
    using assms(2) v by (simp_all add: config_raw_bytes_def config_bytes_def)
  show "length (cf_covenant_id c) = 32" using config_rec.bytes_view [OF assms(1)] by blast
qed

end
