(* ===== verification/ABI_Transaction.thy ===== *)
theory ABI_Transaction
  imports Crypto ABI_Resource SMT_Base
begin

text \<open>
  The transaction processor of the guest ABI (\<open>zk/abi/src/transaction_processor\<close>): decoding of
  the host's input, the commitments written to the proof journal, the storage operations streamed
  back to the host, and \<open>process_transaction\<close>, which runs a program's handler between them.

  \<open>hash_data\<close> is the hash function the guest is built with; \<open>usize_bits\<close> is the width of the
  target's \<open>usize\<close>, and \<open>cast_error\<close> the message of a failed zerocopy cast.
  A panic of the guest aborts it without a journal.
\<close>

datatype abi_fault = Fail abi_error | Crash string

subsection \<open>Inputs\<close>

record payload =
  pl_bytes :: bytes
  pl_access_metadata :: "access_metadata list"
  pl_ix_data :: bytes

record transaction =
  tx_payload :: payload
  tx_rest_preimage :: bytes

record execution_input =
  ei_context_hash :: bytes
  ei_tx :: transaction
  ei_resources :: "resource list"

record tx_inputs =
  in_version :: u16
  in_tx_id :: bytes
  in_merge_idx :: u32
  in_execution_input :: "execution_input option"

definition V1 :: u16 where "V1 = 1"

definition payload_decode :: "nat \<Rightarrow> string \<Rightarrow> bytes \<Rightarrow> abi_error + payload" where
  "payload_decode usize_bits cast_error bs =
    rbind (abi (am_decode_slice usize_bits cast_error bs)) (\<lambda>(ams, rest).
    Inr \<lparr>pl_bytes = bs, pl_access_metadata = ams, pl_ix_data = rest\<rparr>)"

definition transaction_id :: "crypto \<Rightarrow> transaction \<Rightarrow> bytes" where
  "transaction_id cr tx = tx_id_v1 cr (pl_bytes (tx_payload tx)) (tx_rest_preimage tx)"

definition transaction_decode :: "nat \<Rightarrow> string \<Rightarrow> transaction abi_reader" where
  "transaction_decode usize_bits cast_error buf =
    rbind (abi (rd_blob ''tx'' buf)) (\<lambda>(tx_buf, buf).
    rbind (abi (rd_blob ''payload'' tx_buf)) (\<lambda>(payload, tx_buf).
    rbind (payload_decode usize_bits cast_error payload) (\<lambda>p.
    rbind (abi (rd_blob ''rest_preimage'' tx_buf)) (\<lambda>(rest_preimage, _).
    Inr (\<lparr>tx_payload = p, tx_rest_preimage = rest_preimage\<rparr>, buf)))))"

text \<open>The encoder of the host, on the payload and the rest preimage of the L1 transaction.\<close>

definition transaction_encode :: "bytes \<Rightarrow> bytes \<Rightarrow> bytes" where
  "transaction_encode payload rest_preimage =
    wr_len (4 + length payload + 4 + length rest_preimage) @ write_blob payload @ write_blob rest_preimage"

fun resources_decode :: "access_metadata list \<Rightarrow> resource list abi_reader" where
  "resources_decode [] buf = Inr ([], buf)"
| "resources_decode (am # ams) buf =
    rbind (resource_decode am buf) (\<lambda>(r, buf).
    rbind (resources_decode ams buf) (\<lambda>(rs, buf). Inr (r # rs, buf)))"

definition execution_input_decode :: "nat \<Rightarrow> string \<Rightarrow> bytes \<Rightarrow> abi_error + execution_input" where
  "execution_input_decode usize_bits cast_error buf =
    rbind (abi (rd_array 32 ''context_hash'' buf)) (\<lambda>(context_hash, buf).
    rbind (transaction_decode usize_bits cast_error buf) (\<lambda>(tx, buf).
    rbind (resources_decode (pl_access_metadata (tx_payload tx)) buf) (\<lambda>(rs, _).
    Inr \<lparr>ei_context_hash = context_hash, ei_tx = tx, ei_resources = rs\<rparr>)))"

definition inputs_decode :: "nat \<Rightarrow> string \<Rightarrow> bytes \<Rightarrow> abi_error + tx_inputs" where
  "inputs_decode usize_bits cast_error buf =
    rbind (abi (rd_le_u16 ''version'' buf)) (\<lambda>(version, buf).
    rbind (abi (rd_array 32 ''tx_id'' buf)) (\<lambda>(tx_id, buf).
    rbind (abi (rd_le_u32 ''merge_idx'' buf)) (\<lambda>(merge_idx, buf).
    rbind (if version = V1 then rbind (execution_input_decode usize_bits cast_error buf) (\<lambda>e. Inr (Some e))
           else Inr None) (\<lambda>e.
    Inr \<lparr>in_version = version, in_tx_id = tx_id, in_merge_idx = merge_idx, in_execution_input = e\<rparr>))))"

subsection \<open>Input commitment\<close>

definition data_hash :: "(bytes \<Rightarrow> bytes) \<Rightarrow> bytes \<Rightarrow> bytes" where
  "data_hash hash_data d = (case d of [] \<Rightarrow> EMPTY_HASH | _ \<Rightarrow> hash_data d)"

record input_resource_commitment =
  irc_resource_index :: u32
  irc_resource_id :: bytes
  irc_hash :: bytes

definition irc_encode :: "(bytes \<Rightarrow> bytes) \<Rightarrow> bytes \<Rightarrow> resource \<Rightarrow> bytes" where
  "irc_encode hash_data w r =
    w @ wr_u32_le (r_index r) @ resource_id r @ data_hash hash_data (resource_data r)"

text \<open>The zerocopy view of one 68-byte entry; every byte pattern is an entry.\<close>

definition irc_cast :: "bytes \<Rightarrow> codec_error + input_resource_commitment" where
  "irc_cast bs = Inr \<lparr>irc_resource_index = word_of_nat (le_nat (take 4 bs)),
    irc_resource_id = take 32 (drop 4 bs), irc_hash = drop 36 bs\<rparr>"

record execution_context =
  ec_context_hash :: bytes
  ec_resources :: "input_resource_commitment list"

definition execution_context_encode :: "(bytes \<Rightarrow> bytes) \<Rightarrow> execution_input \<Rightarrow> bytes" where
  "execution_context_encode hash_data e =
    encode_many (irc_encode hash_data) (ei_resources e) (ei_context_hash e)"

definition execution_context_decode :: "nat \<Rightarrow> execution_context abi_reader" where
  "execution_context_decode usize_bits buf =
    rbind (abi (rd_array 32 ''context_hash'' buf)) (\<lambda>(context_hash, buf).
    rbind (abi (rd_slice_as usize_bits 68 irc_cast ''resources'' buf)) (\<lambda>(rs, buf).
    Inr (\<lparr>ec_context_hash = context_hash, ec_resources = rs\<rparr>, buf)))"

record input_commitment =
  ic_version :: u16
  ic_tx_id :: bytes
  ic_merge_idx :: u32
  ic_execution_context :: "execution_context option"

definition input_commitment_encode :: "(bytes \<Rightarrow> bytes) \<Rightarrow> tx_inputs \<Rightarrow> bytes" where
  "input_commitment_encode hash_data i =
    wr_u16_le (in_version i) @ in_tx_id i @ wr_u32_le (in_merge_idx i) @
    (case in_execution_input i of Some e \<Rightarrow> execution_context_encode hash_data e | None \<Rightarrow> [])"

definition input_commitment_decode :: "nat \<Rightarrow> input_commitment abi_reader" where
  "input_commitment_decode usize_bits buf =
    rbind (abi (rd_le_u16 ''version'' buf)) (\<lambda>(version, buf).
    rbind (abi (rd_array 32 ''tx_id'' buf)) (\<lambda>(tx_id, buf).
    rbind (abi (rd_le_u32 ''merge_idx'' buf)) (\<lambda>(merge_idx, buf).
    rbind (if version = V1 then rbind (execution_context_decode usize_bits buf) (\<lambda>(e, buf). Inr (Some e, buf))
           else Inr (None, buf)) (\<lambda>(e, buf).
    Inr (\<lparr>ic_version = version, ic_tx_id = tx_id, ic_merge_idx = merge_idx, ic_execution_context = e\<rparr>, buf)))))"

subsection \<open>Output commitment\<close>

record effects =
  ef_exits :: exit_sink
  ef_deposit_spk_hash :: bytes
  ef_resources :: "resource list"

datatype output_resource_commitment = Changed bytes | Unchanged

definition orc_decode :: "output_resource_commitment abi_reader" where
  "orc_decode buf =
    rbind (abi (rd_byte ''flag'' buf)) (\<lambda>(flag, buf).
      if flag = 0x01 then rbind (abi (rd_array 32 ''hash'' buf)) (\<lambda>(h, buf). Inr (Changed h, buf))
      else if flag = 0x00 then Inr (Unchanged, buf)
      else Inl (DecodeError ''invalid resource output flag''))"

definition orc_encode :: "(bytes \<Rightarrow> bytes) \<Rightarrow> resource \<Rightarrow> bytes" where
  "orc_encode hash_data r =
    (if r_dirty r then 0x01 # data_hash hash_data (resource_data r) else [0x00])"

definition output_resource_commitments :: "bytes \<Rightarrow> abi_error + output_resource_commitment list" where
  "output_resource_commitments buf = entries_all orc_decode buf"

text \<open>\<open>Success\<close> holds the exits, the deposit-address commitment and the bytes its iterator over
  the per-resource commitments walks.\<close>

datatype output_commitment = Success bytes bytes bytes | Failure abi_error

definition output_commitment_decode :: "bytes \<Rightarrow> abi_error + output_commitment" where
  "output_commitment_decode buf =
    rbind (abi (rd_byte ''discriminant'' buf)) (\<lambda>(d, buf).
      if d = 0x00 then
        rbind (abi (rd_blob ''exits'' buf)) (\<lambda>(exits, buf).
        rbind (abi (rd_array 32 ''deposit_spk_hash'' buf)) (\<lambda>(h, buf). Inr (Success exits h buf)))
      else if d = 0x01 then rbind (error_decode buf) (\<lambda>(e, _). Inr (Failure e))
      else Inl (DecodeError ''invalid output commitment discriminant''))"

definition output_commitment_encode :: "(bytes \<Rightarrow> bytes) \<Rightarrow> abi_error + effects \<Rightarrow> bytes" where
  "output_commitment_encode hash_data result =
    (case result of
       Inr e \<Rightarrow> 0x00 # write_blob (es_buf (ef_exits e)) @ ef_deposit_spk_hash e
         @ concat (map (orc_encode hash_data) (ef_resources e))
     | Inl err \<Rightarrow> 0x01 # error_encode err)"

record journal_entries =
  je_input_commitment :: input_commitment
  je_output_commitment :: output_commitment

definition journal_entries_decode :: "nat \<Rightarrow> bytes \<Rightarrow> abi_error + journal_entries" where
  "journal_entries_decode usize_bits buf =
    rbind (input_commitment_decode usize_bits buf) (\<lambda>(ic, buf).
    rbind (output_commitment_decode buf) (\<lambda>oc.
    Inr \<lparr>je_input_commitment = ic, je_output_commitment = oc\<rparr>))"

subsection \<open>Storage operations for the host\<close>

definition storage_op_encode :: "resource \<Rightarrow> bytes" where
  "storage_op_encode r = (if r_dirty r then 1 # write_blob (resource_data r) else [0])"

definition outputs_encode :: "abi_error + effects \<Rightarrow> bytes" where
  "outputs_encode result =
    (case result of
       Inr e \<Rightarrow> 0x00 # concat (map storage_op_encode (ef_resources e))
     | Inl err \<Rightarrow> 0x01 # error_encode err)"

definition storage_op_decode :: "bytes option reader" where
  "storage_op_decode buf =
    rbind (rd_bool ''dirty_flag'' buf) (\<lambda>(dirty, buf).
      if dirty then rbind (rd_blob ''data'' buf) (\<lambda>(d, buf). Inr (Some d, buf)) else Inr (None, buf))"

definition outputs_decode :: "bytes \<Rightarrow> nat \<Rightarrow> abi_error + bytes option list" where
  "outputs_decode buf n =
    rbind (abi (rd_byte ''discriminant'' buf)) (\<lambda>(d, buf).
      if d = 0x00 then rbind (abi (rd_times n storage_op_decode buf)) (\<lambda>(ops, _). Inr ops)
      else if d = 0x01 then rbind (error_decode buf) (\<lambda>(e, _). Inl e)
      else Inl (DecodeError ''invalid output discriminant''))"

subsection \<open>Processing one transaction\<close>

type_synonym handler =
  "transaction \<Rightarrow> u32 \<Rightarrow> bytes \<Rightarrow> resource list \<Rightarrow> exit_sink \<Rightarrow> deposit_sink
    \<Rightarrow> abi_fault + (resource list \<times> exit_sink \<times> deposit_sink)"

definition run_handler ::
  "crypto \<Rightarrow> handler \<Rightarrow> tx_inputs \<Rightarrow> string + (abi_error + effects)" where
  "run_handler cr f i =
    (if in_version i = V1 then
       (case in_execution_input i of
          None \<Rightarrow> Inl ''host omitted execution_input''
        | Some e \<Rightarrow>
            if in_tx_id i \<noteq> transaction_id cr (ei_tx e) then Inl ''host tx_id does not match derived id''
            else (case f (ei_tx e) (in_merge_idx i) (ei_context_hash e) (ei_resources e)
                      exit_sink_new deposit_sink_new of
                Inl (Crash m) \<Rightarrow> Inl m
              | Inl (Fail err) \<Rightarrow> Inr (Inl err)
              | Inr (rs, exits, deposit) \<Rightarrow>
                  Inr (Inr \<lparr>ef_exits = exits, ef_deposit_spk_hash = deposit_get deposit, ef_resources = rs\<rparr>)))
     else Inr (Inl (error_of_code VersionIncompatible)))"

definition process_transaction ::
  "nat \<Rightarrow> string \<Rightarrow> crypto \<Rightarrow> (bytes \<Rightarrow> bytes) \<Rightarrow> handler \<Rightarrow> bytes \<Rightarrow> string + (bytes \<times> bytes)" where
  "process_transaction usize_bits cast_error cr hash_data f inputs_buf =
    (case inputs_decode usize_bits cast_error inputs_buf of
       Inl _ \<Rightarrow> Inl ''malformed host input''
     | Inr i \<Rightarrow>
         rbind (run_handler cr f i) (\<lambda>result.
         Inr (input_commitment_encode hash_data i @ output_commitment_encode hash_data result,
              outputs_encode result)))"

end
