(* ===== verification/Runtime_Auth.thy ===== *)
theory Runtime_Auth
  imports Runtime_Resources ABI_Transaction
begin

text \<open>
  Authority of the runtime program (\<open>zk/backend/risc0/runtime-processor/src\<close>): the walker of a
  v1 rest preimage (\<open>tx_inputs.rs\<close>), recovery of a key from a spent output (\<open>auth.rs\<close>), the
  signer variants (\<open>signer.rs\<close>, \<open>signer_trait.rs\<close>, \<open>signer_variants.rs\<close>), the signed
  message and the resolution of signers into unlockers (\<open>runtime.rs\<close>).

  \<open>usize_bits\<close> is the width of \<open>usize\<close>: a \<open>u64\<close> length is cast with \<open>as usize\<close>, which
  keeps the low bits.
\<close>

definition as_usize :: "nat \<Rightarrow> u64 \<Rightarrow> nat" where
  "as_usize usize_bits x = unat x mod 2 ^ usize_bits"

subsection \<open>Walking a rest preimage\<close>

definition skip_input :: "nat \<Rightarrow> unit reader" where
  "skip_input usize_bits buf =
    rbind (rd_skip 32 ''input.prev_tx_id'' buf) (\<lambda>(_, buf).
    rbind (rd_skip 4 ''input.prev_index'' buf) (\<lambda>(_, buf).
    rbind (rd_le_u64 ''input.sig_script_len'' buf) (\<lambda>(sig_script_len, buf).
    rbind (rd_skip (as_usize usize_bits sig_script_len) ''input.sig_script'' buf) (\<lambda>(_, buf).
    rd_skip 8 ''input.sequence'' buf))))"

fun skip_inputs :: "nat \<Rightarrow> nat \<Rightarrow> unit reader" where
  "skip_inputs usize_bits 0 buf = Inr ((), buf)"
| "skip_inputs usize_bits (Suc n) buf =
    rbind (skip_input usize_bits buf) (\<lambda>(_, buf). skip_inputs usize_bits n buf)"

definition parse_input_outpoint_at :: "nat \<Rightarrow> bytes \<Rightarrow> u32 \<Rightarrow> codec_error + (bytes \<times> u32)" where
  "parse_input_outpoint_at usize_bits rest_preimage idx =
    rbind (rd_skip 2 ''tx.version'' rest_preimage) (\<lambda>(_, buf).
    rbind (rd_le_u64 ''tx.n_inputs'' buf) (\<lambda>(n_inputs, buf).
    if unat n_inputs \<le> unat idx then Inl (Decode ''input_idx out of range'')
    else
      rbind (skip_inputs usize_bits (unat idx) buf) (\<lambda>(_, buf).
      rbind (rd_array 32 ''input.prev_tx_id'' buf) (\<lambda>(prev_tx_id, buf).
      rbind (rd_le_u32 ''input.prev_index'' buf) (\<lambda>(prev_index, _).
      Inr (prev_tx_id, prev_index))))))"

record output_data =
  od_value :: u64
  od_spk_version :: u16
  od_spk :: bytes

definition read_output :: "nat \<Rightarrow> output_data reader" where
  "read_output usize_bits buf =
    rbind (rd_le_u64 ''output.value'' buf) (\<lambda>(v, buf).
    rbind (rd_le_u16 ''output.spk_version'' buf) (\<lambda>(spk_version, buf).
    rbind (rd_le_u64 ''output.spk_len'' buf) (\<lambda>(spk_len, buf).
    rbind (rd_bytes (as_usize usize_bits spk_len) ''output.spk'' buf) (\<lambda>(spk, buf).
    rbind (rd_byte ''output.has_covenant'' buf) (\<lambda>(has_covenant, buf).
    rbind (if has_covenant \<noteq> 0 then
             rbind (rd_skip 2 ''output.auth_input'' buf) (\<lambda>(_, buf).
             rd_skip 32 ''output.covenant_id'' buf)
           else Inr ((), buf)) (\<lambda>(_, buf).
    Inr (\<lparr>od_value = v, od_spk_version = spk_version, od_spk = spk\<rparr>, buf)))))))"

text \<open>The loop over the outputs up to the one asked for, with \<open>n\<close> outputs still to skip.\<close>

fun output_loop :: "nat \<Rightarrow> nat \<Rightarrow> bytes \<Rightarrow> codec_error + output_data" where
  "output_loop usize_bits 0 buf = rbind (read_output usize_bits buf) (\<lambda>(out, _). Inr out)"
| "output_loop usize_bits (Suc n) buf = rbind (read_output usize_bits buf) (\<lambda>(_, buf). output_loop usize_bits n buf)"

definition parse_output_at_index_v1 :: "nat \<Rightarrow> bytes \<Rightarrow> u32 \<Rightarrow> codec_error + output_data" where
  "parse_output_at_index_v1 usize_bits rest_preimage output_index =
    rbind (rd_le_u16 ''tx.version'' rest_preimage) (\<lambda>(version, buf).
    if version \<noteq> 1 then Inl (Decode ''rest_preimage: unsupported tx version'')
    else
      rbind (rd_le_u64 ''tx.n_inputs'' buf) (\<lambda>(n_inputs, buf).
      rbind (skip_inputs usize_bits (unat n_inputs) buf) (\<lambda>(_, buf).
      rbind (rd_le_u64 ''tx.n_outputs'' buf) (\<lambda>(n_outputs, buf).
      if unat n_outputs \<le> unat output_index then Inl (Decode ''output_index out of range'')
      else output_loop usize_bits (unat output_index) buf))))"

definition skip_tail :: "nat \<Rightarrow> unit reader" where
  "skip_tail usize_bits buf =
    rbind (rd_skip 8 ''tx.lock_time'' buf) (\<lambda>(_, buf).
    rbind (rd_skip 20 ''tx.subnetwork_id'' buf) (\<lambda>(_, buf).
    rbind (rd_skip 8 ''tx.gas'' buf) (\<lambda>(_, buf).
    rbind (rd_le_u64 ''tx.payload_len'' buf) (\<lambda>(payload_len, buf).
    rd_skip (as_usize usize_bits payload_len) ''tx.payload'' buf))))"

subsection \<open>Keys of spent outputs\<close>

definition OP_DATA_32 :: byte where "OP_DATA_32 = 0x20"
definition OP_CHECK_SIG :: byte where "OP_CHECK_SIG = 0xac"

definition extract_p2pk_pubkey :: "bytes \<Rightarrow> bytes option" where
  "extract_p2pk_pubkey spk =
    (if length spk \<noteq> 34 \<or> spk ! 0 \<noteq> OP_DATA_32 \<or> spk ! 33 \<noteq> OP_CHECK_SIG then None
     else Some (take 32 (drop 1 spk)))"

definition recover_prev_tx_v1_p2pk_pubkey ::
  "nat \<Rightarrow> crypto \<Rightarrow> bytes \<Rightarrow> byte \<Rightarrow> bytes \<Rightarrow> bytes \<Rightarrow> codec_error + bytes option" where
  "recover_prev_tx_v1_p2pk_pubkey usize_bits cr current_rest input_idx witness_rest witness_digest =
    rbind (parse_input_outpoint_at usize_bits current_rest (ucast input_idx)) (\<lambda>(prev_tx_id, output_index).
    if tx_id_v1_from_digest cr witness_digest witness_rest \<noteq> prev_tx_id
    then Inl (Decode ''auth.witness: prev_tx witness does not match outpoint'')
    else rbind (parse_output_at_index_v1 usize_bits witness_rest output_index) (\<lambda>out.
      Inr (extract_p2pk_pubkey (od_spk out))))"

subsection \<open>The signed message\<close>

definition compute_sig_message :: "crypto \<Rightarrow> bytes \<Rightarrow> bytes \<Rightarrow> bytes" where
  "compute_sig_message cr rest_preimage payload_presig =
    sha_parts_with_domain cr [domain_u8 SigMessage]
      [wr_len (length rest_preimage), rest_preimage, wr_len (length payload_presig), payload_presig]"

record resolve_context =
  rc_payload_bytes :: bytes
  rc_current_rest_preimage :: bytes
  rc_resources :: "resource list"
  rc_payload_presig :: bytes

definition sig_msg :: "crypto \<Rightarrow> resolve_context \<Rightarrow> bytes" where
  "sig_msg cr ctx = compute_sig_message cr (rc_current_rest_preimage ctx) (rc_payload_presig ctx)"

subsection \<open>Shared readers of the signers\<close>

text \<open>\<open>buf.get(off..).and_then(first_chunk::<n>)\<close>.\<close>

definition chunk_at :: "nat \<Rightarrow> nat \<Rightarrow> bytes \<Rightarrow> bytes option" where
  "chunk_at off n buf =
    (if length buf < off then None
     else let b = drop off buf in if length b < n then None else Some (take n b))"

definition read_sig_at_offset :: "u32 \<Rightarrow> resolve_context \<Rightarrow> codec_error + bytes" where
  "read_sig_at_offset sig_offset ctx =
    ok_or (chunk_at (unat sig_offset) 64 (rc_payload_bytes ctx)) (Decode ''signer: sig_offset out of range'')"

text \<open>The lock of the record at \<open>resource_idx\<close>; reading a lock that was not validated panics.\<close>

definition read_lock :: "byte \<Rightarrow> resolve_context \<Rightarrow> fault + lock_enum" where
  "read_lock resource_idx ctx =
    (if length (rc_resources ctx) \<le> unat resource_idx
     then Inl (Err (Decode ''signer: resource_idx out of range''))
     else let data = resource_data (rc_resources ctx ! unat resource_idx) in
       if kind_of data = Some KIND_CONFIG then
         (case config_from_bytes data of
            Inl m \<Rightarrow> Inl (Err (Decode m))
          | Inr c \<Rightarrow> ok_or (config_lock c) (Panic ''lock: tag validated''))
       else if kind_of data = Some KIND_USER then
         (case user_from_bytes data of
            Inl m \<Rightarrow> Inl (Err (Decode m))
          | Inr u \<Rightarrow> ok_or (user_lock u) (Panic ''lock: tag validated''))
       else Inl (Err (Decode ''signer: unknown or absent resource kind'')))"

definition read_schnorr_lock_pubkey :: "byte \<Rightarrow> resolve_context \<Rightarrow> fault + bytes" where
  "read_schnorr_lock_pubkey resource_idx ctx =
    rbind (read_lock resource_idx ctx) (\<lambda>l.
    case l of SchnorrLock pubkey \<Rightarrow> Inr pubkey
    | _ \<Rightarrow> Inl (Err (Decode ''signer.schnorr: target resource is not a Schnorr lock'')))"

definition read_multisig_lock_pubkey_at :: "byte \<Rightarrow> byte \<Rightarrow> resolve_context \<Rightarrow> fault + bytes" where
  "read_multisig_lock_pubkey_at resource_idx pubkey_idx ctx =
    rbind (read_lock resource_idx ctx) (\<lambda>l.
    case l of
      MultisigLock threshold pubkeys \<Rightarrow>
        if multisig_n_pubkeys pubkeys \<le> pubkey_idx
        then Inl (Err (Decode ''signer.multisig_schnorr: pubkey_idx out of range''))
        else ok_or (chunk_at (unat pubkey_idx * 32) 32 pubkeys)
               (Err (Decode ''signer.multisig_schnorr: pubkey slice oob''))
    | _ \<Rightarrow> Inl (Err (Decode ''signer.multisig_schnorr: target resource is not a Multisig lock'')))"

record witness_ptr =
  wp_input_idx :: byte
  wp_rest_preimage_offset :: u32
  wp_rest_preimage_len :: u32
  wp_payload_digest_offset :: u32

definition recover_witness_pubkey :: "nat \<Rightarrow> crypto \<Rightarrow> witness_ptr \<Rightarrow> resolve_context \<Rightarrow> codec_error + bytes" where
  "recover_witness_pubkey usize_bits cr w ctx =
    (let rp_off = unat (wp_rest_preimage_offset w);
         rp_end = min (rp_off + unat (wp_rest_preimage_len w)) (2 ^ usize_bits - 1)
     in rbind (if rp_off \<le> rp_end \<and> rp_end \<le> length (rc_payload_bytes ctx)
               then Inr (drop rp_off (take rp_end (rc_payload_bytes ctx)))
               else Inl (Decode ''signer.witness: rest_preimage range out of bounds'')) (\<lambda>rest_preimage.
        rbind (ok_or (chunk_at (unat (wp_payload_digest_offset w)) 32 (rc_payload_bytes ctx))
                 (Decode ''signer.witness: payload_digest range out of bounds'')) (\<lambda>payload_digest.
        rbind (recover_prev_tx_v1_p2pk_pubkey usize_bits cr (rc_current_rest_preimage ctx)
                 (wp_input_idx w) rest_preimage payload_digest) (\<lambda>recovered.
        ok_or recovered (Decode ''signer.witness: prev output is not P2PK'')))))"

subsection \<open>Signer variants\<close>

datatype signer_enum =
    SchnorrSigPtr u32
  | PrevTxV1Witness witness_ptr
  | MultisigSchnorrSigPtr byte u32
  | MultisigPrevTxV1Witness witness_ptr
  | GenesisSchnorrSigPtr u32

definition schnorr_sig_ptr_decode :: "signer_enum reader" where
  "schnorr_sig_ptr_decode buf =
    rbind (rd_le_u32 ''signer.schnorr.sig_offset'' buf) (\<lambda>(off, buf). Inr (SchnorrSigPtr off, buf))"

definition witness_ptr_decode :: "string \<Rightarrow> witness_ptr reader" where
  "witness_ptr_decode p buf =
    rbind (rd_byte (p @ ''.input_idx'') buf) (\<lambda>(input_idx, buf).
    rbind (rd_le_u32 (p @ ''.rest_preimage_offset'') buf) (\<lambda>(rp_off, buf).
    rbind (rd_le_u32 (p @ ''.rest_preimage_len'') buf) (\<lambda>(rp_len, buf).
    rbind (rd_le_u32 (p @ ''.payload_digest_offset'') buf) (\<lambda>(pd_off, buf).
    Inr (\<lparr>wp_input_idx = input_idx, wp_rest_preimage_offset = rp_off, wp_rest_preimage_len = rp_len,
          wp_payload_digest_offset = pd_off\<rparr>, buf)))))"

definition prev_tx_v1_witness_decode :: "signer_enum reader" where
  "prev_tx_v1_witness_decode buf =
    rbind (witness_ptr_decode ''signer.witness'' buf) (\<lambda>(w, buf). Inr (PrevTxV1Witness w, buf))"

definition genesis_schnorr_sig_ptr_decode :: "signer_enum reader" where
  "genesis_schnorr_sig_ptr_decode buf =
    rbind (rd_le_u32 ''signer.genesis_schnorr.sig_offset'' buf) (\<lambda>(off, buf). Inr (GenesisSchnorrSigPtr off, buf))"

definition multisig_schnorr_sig_ptr_decode :: "signer_enum reader" where
  "multisig_schnorr_sig_ptr_decode buf =
    rbind (rd_byte ''signer.multisig_schnorr.pubkey_idx'' buf) (\<lambda>(pubkey_idx, buf).
    rbind (rd_le_u32 ''signer.multisig_schnorr.sig_offset'' buf) (\<lambda>(off, buf).
    Inr (MultisigSchnorrSigPtr pubkey_idx off, buf)))"

definition multisig_prev_tx_v1_witness_decode :: "signer_enum reader" where
  "multisig_prev_tx_v1_witness_decode buf =
    rbind (witness_ptr_decode ''signer.multisig_witness'' buf) (\<lambda>(w, buf). Inr (MultisigPrevTxV1Witness w, buf))"

definition decode_signer :: "(byte \<times> signer_enum) reader" where
  "decode_signer buf =
    rbind (rd_byte ''signer.resource_idx'' buf) (\<lambda>(resource_idx, buf).
    rbind (rd_byte ''signer.kind'' buf) (\<lambda>(k, buf).
    rbind (if k = 0x01 then schnorr_sig_ptr_decode buf
           else if k = 0x02 then prev_tx_v1_witness_decode buf
           else if k = 0x03 then multisig_schnorr_sig_ptr_decode buf
           else if k = 0x04 then multisig_prev_tx_v1_witness_decode buf
           else if k = 0x05 then genesis_schnorr_sig_ptr_decode buf
           else Inl (Decode ''signer: unknown kind'')) (\<lambda>(s, buf).
    Inr ((resource_idx, s), buf))))"

definition GENESIS_SCHNORR_BYTES :: bytes where
  "GENESIS_SCHNORR_BYTES =
    [0xF9, 0x30, 0x8A, 0x01, 0x92, 0x58, 0xC3, 0x10, 0x49, 0x34, 0x4F, 0x85, 0xF8, 0x9D, 0x52, 0x29,
     0xB5, 0x31, 0xC8, 0x45, 0x83, 0x6F, 0x99, 0xB0, 0x86, 0x01, 0xF1, 0x13, 0xBC, 0xE0, 0x36, 0xF9]"

definition schnorr_sig_ptr_resolve :: "crypto \<Rightarrow> u32 \<Rightarrow> byte \<Rightarrow> resolve_context \<Rightarrow> fault + schnorr_unlocker" where
  "schnorr_sig_ptr_resolve cr sig_offset resource_idx ctx =
    rbind (read_schnorr_lock_pubkey resource_idx ctx) (\<lambda>pubkey.
    rbind (lift_err (read_sig_at_offset sig_offset ctx)) (\<lambda>sig.
    if \<not> cr_schnorr cr pubkey sig (sig_msg cr ctx) then Inl (Err (Decode ''signer.schnorr: invalid signature''))
    else Inr \<lparr>su_pubkey = pubkey\<rparr>))"

definition prev_tx_v1_witness_resolve ::
  "nat \<Rightarrow> crypto \<Rightarrow> witness_ptr \<Rightarrow> resolve_context \<Rightarrow> fault + schnorr_unlocker" where
  "prev_tx_v1_witness_resolve usize_bits cr w ctx =
    rbind (lift_err (recover_witness_pubkey usize_bits cr w ctx)) (\<lambda>pubkey. Inr \<lparr>su_pubkey = pubkey\<rparr>)"

definition genesis_schnorr_sig_ptr_resolve ::
  "crypto \<Rightarrow> u32 \<Rightarrow> byte \<Rightarrow> resolve_context \<Rightarrow> fault + schnorr_unlocker" where
  "genesis_schnorr_sig_ptr_resolve cr sig_offset resource_idx ctx =
    (if length (rc_resources ctx) \<le> unat resource_idx
     then Inl (Err (Decode ''signer.genesis_schnorr: resource_idx out of range''))
     else rbind (lift_err (read_sig_at_offset sig_offset ctx)) (\<lambda>sig.
       if \<not> cr_schnorr cr GENESIS_SCHNORR_BYTES sig (sig_msg cr ctx)
       then Inl (Err (Decode ''signer.genesis_schnorr: invalid signature''))
       else Inr \<lparr>su_pubkey = GENESIS_SCHNORR_BYTES\<rparr>))"

definition multisig_schnorr_sig_ptr_resolve ::
  "crypto \<Rightarrow> byte \<Rightarrow> u32 \<Rightarrow> byte \<Rightarrow> resolve_context \<Rightarrow> fault + multisig_unlocker" where
  "multisig_schnorr_sig_ptr_resolve cr pubkey_idx sig_offset resource_idx ctx =
    rbind (read_multisig_lock_pubkey_at resource_idx pubkey_idx ctx) (\<lambda>pubkey.
    rbind (lift_err (read_sig_at_offset sig_offset ctx)) (\<lambda>sig.
    if \<not> cr_schnorr cr pubkey sig (sig_msg cr ctx)
    then Inl (Err (Decode ''signer.multisig_schnorr: invalid signature''))
    else Inr \<lparr>mu_pubkeys = [pubkey]\<rparr>))"

definition multisig_prev_tx_v1_witness_resolve ::
  "nat \<Rightarrow> crypto \<Rightarrow> witness_ptr \<Rightarrow> resolve_context \<Rightarrow> fault + multisig_unlocker" where
  "multisig_prev_tx_v1_witness_resolve usize_bits cr w ctx =
    rbind (lift_err (recover_witness_pubkey usize_bits cr w ctx)) (\<lambda>pubkey. Inr \<lparr>mu_pubkeys = [pubkey]\<rparr>)"

subsection \<open>Resolution\<close>

definition append_multisig_contrib ::
  "byte \<Rightarrow> multisig_unlocker \<Rightarrow> (byte \<times> multisig_unlocker) list \<Rightarrow> (byte \<times> multisig_unlocker) list" where
  "append_multisig_contrib resource_idx contrib bucket =
    (if bucket \<noteq> [] \<and> fst (last bucket) = resource_idx
     then butlast bucket @ [(resource_idx, (snd (last bucket))
       \<lparr>mu_pubkeys := mu_pubkeys (snd (last bucket)) @ mu_pubkeys contrib\<rparr>)]
     else bucket @ [(resource_idx, contrib)])"

definition abi_of_fault :: "fault + 'a \<Rightarrow> abi_fault + 'a" where
  "abi_of_fault r =
    (case r of Inr v \<Rightarrow> Inr v | Inl (Err e) \<Rightarrow> Inl (Fail (error_of_codec e)) | Inl (Panic m) \<Rightarrow> Inl (Crash m))"

definition push_schnorr :: "byte \<Rightarrow> auth_context \<Rightarrow> fault + schnorr_unlocker \<Rightarrow> abi_fault + auth_context" where
  "push_schnorr resource_idx auth r =
    rbind (abi_of_fault r) (\<lambda>u. Inr (auth\<lparr>ac_schnorr := ac_schnorr auth @ [(resource_idx, u)]\<rparr>))"

definition push_multisig :: "byte \<Rightarrow> auth_context \<Rightarrow> fault + multisig_unlocker \<Rightarrow> abi_fault + auth_context" where
  "push_multisig resource_idx auth r =
    rbind (abi_of_fault r) (\<lambda>u.
    Inr (auth\<lparr>ac_multisig := append_multisig_contrib resource_idx u (ac_multisig auth)\<rparr>))"

definition resolve_signer ::
  "nat \<Rightarrow> crypto \<Rightarrow> resolve_context \<Rightarrow> byte \<times> signer_enum \<Rightarrow> auth_context \<Rightarrow> abi_fault + auth_context" where
  "resolve_signer usize_bits cr ctx entry auth =
    (case entry of (resource_idx, signer) \<Rightarrow>
      case signer of
        SchnorrSigPtr off \<Rightarrow> push_schnorr resource_idx auth (schnorr_sig_ptr_resolve cr off resource_idx ctx)
      | GenesisSchnorrSigPtr off \<Rightarrow>
          push_schnorr resource_idx auth (genesis_schnorr_sig_ptr_resolve cr off resource_idx ctx)
      | PrevTxV1Witness w \<Rightarrow> push_schnorr resource_idx auth (prev_tx_v1_witness_resolve usize_bits cr w ctx)
      | MultisigSchnorrSigPtr pk off \<Rightarrow>
          push_multisig resource_idx auth (multisig_schnorr_sig_ptr_resolve cr pk off resource_idx ctx)
      | MultisigPrevTxV1Witness w \<Rightarrow>
          push_multisig resource_idx auth (multisig_prev_tx_v1_witness_resolve usize_bits cr w ctx))"

definition resolve_signers ::
  "nat \<Rightarrow> crypto \<Rightarrow> (byte \<times> signer_enum) list \<Rightarrow> resolve_context \<Rightarrow> abi_fault + auth_context" where
  "resolve_signers usize_bits cr signers ctx = fold_r (resolve_signer usize_bits cr ctx) signers auth_default"

end
