(* ===== verification/Runtime_Actions.thy ===== *)
theory Runtime_Actions
  imports Runtime_Auth
begin

text \<open>
  Actions of the runtime program (\<open>zk/backend/risc0/runtime-processor/src\<close>): the instruction
  stream (\<open>ix.rs\<close>), the deposit policy (\<open>deposit_policy.rs\<close>), the apply context and the six
  actions (\<open>action.rs\<close>, \<open>action/*.rs\<close>), and the entry point \<open>run\<close> (\<open>runtime.rs\<close>).

  A failed action ends the transaction with an error and the caller discards the state it leaves,
  so a failing definition returns the error alone.  Indexing past the end of a slice panics
  (\<open>Crash\<close>).
\<close>

subsection \<open>Instruction stream\<close>

datatype action =
    Update byte u64 bytes lock_enum
  | Init byte u64 bytes lock_enum
  | Transfer byte byte u64 "lock_enum option"
  | UpdateUserLock byte lock_enum
  | Deposit byte u32 lock_enum
  | Withdraw byte u64 standard_spk

record decoded_ix =
  ix_signers :: "(byte \<times> signer_enum) list"
  ix_actions :: "action list"
  ix_end_of_actions :: nat

definition read_resource_idx :: "string \<Rightarrow> nat \<Rightarrow> byte reader" where
  "read_resource_idx field n_resources buf =
    rbind (rd_byte field buf) (\<lambda>(idx, buf).
    if n_resources \<le> unat idx then Inl (Decode field) else Inr (idx, buf))"

definition decode_config_body :: "string \<Rightarrow> nat \<Rightarrow> (byte \<Rightarrow> u64 \<Rightarrow> bytes \<Rightarrow> lock_enum \<Rightarrow> action) \<Rightarrow> action reader" where
  "decode_config_body p n_resources mk buf =
    rbind (read_resource_idx (p @ ''.updater_idx'') n_resources buf) (\<lambda>(updater_idx, buf).
    rbind (rd_le_u64 (p @ ''.new_min_withdrawal_amount'') buf) (\<lambda>(new_min, buf).
    rbind (rd_array 32 (p @ ''.new_covenant_id'') buf) (\<lambda>(new_covenant_id, buf).
    rbind (decode_lock buf) (\<lambda>(new_lock, buf).
    Inr (mk updater_idx new_min new_covenant_id new_lock, buf)))))"

definition decode_transfer :: "nat \<Rightarrow> action reader" where
  "decode_transfer n_resources buf =
    rbind (read_resource_idx ''action.transfer.source_idx'' n_resources buf) (\<lambda>(source_idx, buf).
    rbind (read_resource_idx ''action.transfer.dest_idx'' n_resources buf) (\<lambda>(dest_idx, buf).
    rbind (rd_le_u64 ''action.transfer.amount'' buf) (\<lambda>(amount, buf).
    rbind (rd_byte ''action.transfer.has_dest_lock'' buf) (\<lambda>(flag, buf).
    rbind (if flag = 0 then Inr (None, buf)
           else if flag = 1 then rbind (decode_lock buf) (\<lambda>(l, buf). Inr (Some l, buf))
           else Inl (Decode ''action.transfer: bad has_dest_lock flag'')) (\<lambda>(dest_init, buf).
    Inr (Transfer source_idx dest_idx amount dest_init, buf))))))"

definition decode_update_user_lock :: "nat \<Rightarrow> action reader" where
  "decode_update_user_lock n_resources buf =
    rbind (read_resource_idx ''action.update_user_lock.user_idx'' n_resources buf) (\<lambda>(user_idx, buf).
    rbind (decode_lock buf) (\<lambda>(new_lock, buf). Inr (UpdateUserLock user_idx new_lock, buf)))"

definition decode_deposit :: "nat \<Rightarrow> action reader" where
  "decode_deposit n_resources buf =
    rbind (read_resource_idx ''action.deposit.user_idx'' n_resources buf) (\<lambda>(user_idx, buf).
    rbind (rd_le_u32 ''action.deposit.output_idx'' buf) (\<lambda>(output_idx, buf).
    rbind (decode_lock buf) (\<lambda>(initial_lock, buf). Inr (Deposit user_idx output_idx initial_lock, buf))))"

definition decode_withdraw :: "nat \<Rightarrow> action reader" where
  "decode_withdraw n_resources buf =
    rbind (read_resource_idx ''action.withdraw.user_idx'' n_resources buf) (\<lambda>(user_idx, buf).
    rbind (rd_le_u64 ''action.withdraw.amount'' buf) (\<lambda>(amount, buf).
    case spk_decode buf of
      Inl _ \<Rightarrow> Inl (Decode ''action.withdraw: bad dest spk'')
    | Inr (dest, buf) \<Rightarrow> Inr (Withdraw user_idx amount dest, buf)))"

definition decode_action :: "nat \<Rightarrow> action reader" where
  "decode_action n_resources buf =
    rbind (rd_byte ''action.action_tag'' buf) (\<lambda>(tag, buf).
      if tag = 0x01 then decode_config_body ''action.update'' n_resources Update buf
      else if tag = 0x02 then decode_config_body ''action.init'' n_resources Init buf
      else if tag = 0x03 then decode_transfer n_resources buf
      else if tag = 0x04 then decode_update_user_lock n_resources buf
      else if tag = 0x05 then decode_deposit n_resources buf
      else if tag = 0x06 then decode_withdraw n_resources buf
      else Inl (Decode ''action: unknown tag''))"

text \<open>The closure of \<open>many\<close> over the signers carries the previous index from entry to entry.\<close>

fun decode_signers :: "nat \<Rightarrow> nat \<Rightarrow> byte option \<Rightarrow> (byte \<times> signer_enum) list reader" where
  "decode_signers n_resources 0 prev buf = Inr ([], buf)"
| "decode_signers n_resources (Suc n) prev buf =
    rbind (decode_signer buf) (\<lambda>(entry, buf).
    if n_resources \<le> unat (fst entry) then Inl (Decode ''ix.signer: resource_idx out of range'')
    else if (case prev of Some p \<Rightarrow> fst entry < p | None \<Rightarrow> False)
    then Inl (Decode ''ix.signer: resource_idx not ascending'')
    else rbind (decode_signers n_resources n (Some (fst entry)) buf) (\<lambda>(es, buf). Inr (entry # es, buf)))"

definition decode_ix :: "bytes \<Rightarrow> nat \<Rightarrow> codec_error + decoded_ix" where
  "decode_ix orig n_resources =
    rbind (rd_le_u32 ''ix.signers'' orig) (\<lambda>(n, buf).
    rbind (decode_signers n_resources (unat n) None buf) (\<lambda>(signers, buf).
    rbind (rd_many ''ix.actions'' (decode_action n_resources) buf) (\<lambda>(actions, buf).
    Inr \<lparr>ix_signers = signers, ix_actions = actions, ix_end_of_actions = length orig - length buf\<rparr>)))"

subsection \<open>Deposit policy\<close>

record deposit_body =
  db_user_idx :: byte
  db_output_idx :: u32
  db_initial_lock :: lock_enum

record deposit_subject =
  dj_body :: deposit_body
  dj_covenant_id :: bytes

record create_spec =
  cs_initial_lock :: lock_enum

record credit_target =
  ct_user_idx :: byte
  ct_create_with :: "create_spec option"

record deposit_policy =
  dp_deposit_spk :: "deposit_subject \<Rightarrow> script_bytes"
  dp_credit_target :: "deposit_body \<Rightarrow> string + credit_target"
  dp_min_create_balance :: u64

definition DELEGATE_SCRIPT_PREFIX :: bytes where
  "DELEGATE_SCRIPT_PREFIX = [0xb9, 0x00, 0xa0, 0x69, 0x00, 0xcf, 0x20]"

definition DELEGATE_SCRIPT_SUFFIX :: bytes where
  "DELEGATE_SCRIPT_SUFFIX =
    [0x88, 0x00, 0x00, 0xc9, 0x76, 0x52, 0x94, 0x7c, 0xbc, 0x02, 0x51, 0x75, 0x88, 0x51]"

definition build_delegate_entry_script :: "bytes \<Rightarrow> bytes" where
  "build_delegate_entry_script covenant_id = DELEGATE_SCRIPT_PREFIX @ covenant_id @ DELEGATE_SCRIPT_SUFFIX"

definition delegate_entry_spk_hash :: "crypto \<Rightarrow> bytes \<Rightarrow> bytes" where
  "delegate_entry_spk_hash cr covenant_id = cr_blake2b cr (build_delegate_entry_script covenant_id)"

definition EXAMPLE_MIN_CREATE_BALANCE :: u64 where "EXAMPLE_MIN_CREATE_BALANCE = 1000"

definition example_deposit_spk :: "crypto \<Rightarrow> deposit_subject \<Rightarrow> script_bytes" where
  "example_deposit_spk cr who = to_script_bytes (ScriptHash (delegate_entry_spk_hash cr (dj_covenant_id who)))"

definition example_credit_target :: "deposit_body \<Rightarrow> string + credit_target" where
  "example_credit_target body =
    Inr \<lparr>ct_user_idx = db_user_idx body, ct_create_with = Some \<lparr>cs_initial_lock = db_initial_lock body\<rparr>\<rparr>"

definition example_deposit_policy :: "crypto \<Rightarrow> deposit_policy" where
  "example_deposit_policy cr = \<lparr>dp_deposit_spk = example_deposit_spk cr,
     dp_credit_target = example_credit_target, dp_min_create_balance = EXAMPLE_MIN_CREATE_BALANCE\<rparr>"

subsection \<open>Apply context\<close>

record apply_context =
  cx_tx :: transaction
  cx_resources :: "resource list"
  cx_lifecycle :: "lifecycle list"
  cx_auth :: auth_context
  cx_exits :: exit_sink
  cx_deposit :: deposit_sink
  cx_consumed_outputs :: "u32 list"

definition apply_context_new ::
  "transaction \<Rightarrow> resource list \<Rightarrow> auth_context \<Rightarrow> exit_sink \<Rightarrow> deposit_sink \<Rightarrow> apply_context" where
  "apply_context_new tx resources auth exits deposit =
    \<lparr>cx_tx = tx, cx_resources = resources, cx_lifecycle = map lifecycle_from_resource resources,
     cx_auth = auth, cx_exits = exits, cx_deposit = deposit, cx_consumed_outputs = []\<rparr>"

definition fail :: "string \<Rightarrow> abi_fault + 'a" where
  "fail m = Inl (Fail (DecodeError m))"

definition decode_err :: "string + 'a \<Rightarrow> abi_fault + 'a" where
  "decode_err r = (case r of Inl m \<Rightarrow> fail m | Inr v \<Rightarrow> Inr v)"

definition at :: "'a list \<Rightarrow> nat \<Rightarrow> abi_fault + 'a" where
  "at xs i = (if i < length xs then Inr (xs ! i) else Inl (Crash ''index out of bounds''))"

definition mark_created :: "nat \<Rightarrow> apply_context \<Rightarrow> abi_fault + apply_context" where
  "mark_created idx cx =
    rbind (at (cx_lifecycle cx) idx) (\<lambda>l.
    rbind (decode_err (lifecycle_created l)) (\<lambda>l'.
    Inr (cx\<lparr>cx_lifecycle := (cx_lifecycle cx)[idx := l']\<rparr>)))"

definition mark_deleted :: "nat \<Rightarrow> apply_context \<Rightarrow> abi_fault + apply_context" where
  "mark_deleted idx cx =
    rbind (at (cx_lifecycle cx) idx) (\<lambda>l.
    rbind (decode_err (lifecycle_deleted l)) (\<lambda>l'.
    rbind (at (cx_resources cx) idx) (\<lambda>r.
    Inr (cx\<lparr>cx_lifecycle := (cx_lifecycle cx)[idx := l'],
            cx_resources := (cx_resources cx)[idx := resource_resize 0 r]\<rparr>))))"

definition put_resource :: "nat \<Rightarrow> resource \<Rightarrow> apply_context \<Rightarrow> apply_context" where
  "put_resource idx r cx = cx\<lparr>cx_resources := (cx_resources cx)[idx := r]\<rparr>"

definition validate_user_create :: "crypto \<Rightarrow> bytes \<Rightarrow> lock_enum \<Rightarrow> u64 \<Rightarrow> u64 \<Rightarrow> abi_fault + bytes" where
  "validate_user_create cr slot_id initial_lock funding min_balance =
    (let ilh = lock_id_hash cr initial_lock in
     if slot_id \<noteq> derive_user_resource cr ilh
     then fail ''create: slot id != derive_user_resource(initial_lock)''
     else if funding < min_balance then fail ''create: funding below policy minimum to create user''
     else Inr ilh)"

text \<open>\<open>view_user(|v| v.lock().unlock(idx, auth))\<close>, with the error for a slot that is no live user.\<close>

definition user_unlock :: "string \<Rightarrow> byte \<Rightarrow> auth_context \<Rightarrow> resource \<Rightarrow> abi_fault + bool" where
  "user_unlock not_live idx auth r =
    (case view_user (\<lambda>v. map_option (\<lambda>l. lock_unlock l idx auth) (user_lock v)) r of
       None \<Rightarrow> fail not_live
     | Some None \<Rightarrow> Inl (Crash ''lock: tag validated'')
     | Some (Some b) \<Rightarrow> Inr b)"

definition checked_sub :: "u64 \<Rightarrow> u64 \<Rightarrow> u64 option" where
  "checked_sub a b = (if b \<le> a then Some (a - b) else None)"

definition checked_add :: "u64 \<Rightarrow> u64 \<Rightarrow> u64 option" where
  "checked_add a b = (if unat a + unat b < 2 ^ 64 then Some (a + b) else None)"

text \<open>The closure of \<open>modify_user\<close> that replaces the balance by a checked sum or difference.\<close>

definition adjust_balance :: "(u64 \<Rightarrow> u64 option) \<Rightarrow> string \<Rightarrow> user_raw \<Rightarrow> (string + unit) \<times> user_raw" where
  "adjust_balance f m v =
    (case f (ur_balance v) of None \<Rightarrow> (Inl m, v) | Some new \<Rightarrow> (Inr (), v\<lparr>ur_balance := new\<rparr>))"

definition adjust_user :: "(u64 \<Rightarrow> u64 option) \<Rightarrow> string \<Rightarrow> string \<Rightarrow> resource \<Rightarrow> abi_fault + resource" where
  "adjust_user f m not_live r =
    (case modify_user (adjust_balance f m) r of
       (None, _) \<Rightarrow> fail not_live
     | (Some (Inl m), _) \<Rightarrow> fail m
     | (Some (Inr _), r') \<Rightarrow> Inr r')"

subsection \<open>Transfer and lock rotation\<close>

definition transfer_plan ::
  "crypto \<Rightarrow> deposit_policy \<Rightarrow> bool \<Rightarrow> resource \<Rightarrow> u64 \<Rightarrow> lock_enum option
    \<Rightarrow> abi_fault + (bytes \<times> lock_enum) option" where
  "transfer_plan cr policy dst_create dst amount dest_init =
    (if dst_create then
       (case dest_init of
          None \<Rightarrow> fail ''transfer: dest does not exist and no dest lock to create it''
        | Some l \<Rightarrow>
            rbind (validate_user_create cr (resource_id dst) l amount (dp_min_create_balance policy)) (\<lambda>ilh.
            Inr (Some (ilh, l))))
     else Inr None)"

definition apply_transfer ::
  "crypto \<Rightarrow> deposit_policy \<Rightarrow> byte \<Rightarrow> byte \<Rightarrow> u64 \<Rightarrow> lock_enum option \<Rightarrow> apply_context
    \<Rightarrow> abi_fault + apply_context" where
  "apply_transfer cr policy source_idx dest_idx amount dest_init cx =
    (if source_idx = dest_idx then fail ''transfer: source and dest must differ''
     else
       rbind (at (cx_lifecycle cx) (unat dest_idx)) (\<lambda>lc.
       rbind (case lc of New \<Rightarrow> Inr True | Live \<Rightarrow> Inr False
              | Deleted \<Rightarrow> fail ''transfer: dest was deleted in this tx'') (\<lambda>dst_create.
       if length (cx_resources cx) \<le> unat source_idx \<or> length (cx_resources cx) \<le> unat dest_idx
       then fail ''transfer: bad indices''
       else let src = cx_resources cx ! unat source_idx; dst = cx_resources cx ! unat dest_idx in
         rbind (user_unlock ''transfer: source not a live user resource'' source_idx (cx_auth cx) src) (\<lambda>ok.
         if \<not> ok then fail ''source: lock not satisfied''
         else
           rbind (transfer_plan cr policy dst_create dst amount dest_init) (\<lambda>create_plan.
           rbind (adjust_user (\<lambda>b. checked_sub b amount) ''source: insufficient balance''
                    ''transfer: source not a live user resource'' src) (\<lambda>src'.
           case create_plan of
             Some (ilh, l) \<Rightarrow>
               rbind (decode_err (init_user amount ilh l dst)) (\<lambda>dst'.
               mark_created (unat dest_idx) (put_resource (unat dest_idx) dst' (put_resource (unat source_idx) src' cx)))
           | None \<Rightarrow>
               rbind (adjust_user (\<lambda>b. checked_add b amount) ''dest: balance overflow''
                        ''transfer: dest not a live user resource'' dst) (\<lambda>dst'.
               Inr (put_resource (unat dest_idx) dst' (put_resource (unat source_idx) src' cx)))))))))"

definition apply_update_user_lock :: "byte \<Rightarrow> lock_enum \<Rightarrow> apply_context \<Rightarrow> abi_fault + apply_context" where
  "apply_update_user_lock user_idx new_lock cx =
    rbind (at (cx_resources cx) (unat user_idx)) (\<lambda>target.
    rbind (user_unlock ''update_user_lock: not a live user resource'' user_idx (cx_auth cx) target) (\<lambda>auth_ok.
    if \<not> auth_ok then fail ''update_user_lock: current lock not satisfied''
    else rbind (decode_err (set_user_lock new_lock target)) (\<lambda>target'.
      Inr (put_resource (unat user_idx) target' cx))))"

subsection \<open>Config\<close>

definition write_new_state :: "u64 \<Rightarrow> bytes \<Rightarrow> lock_enum \<Rightarrow> resource \<Rightarrow> abi_fault + resource" where
  "write_new_state new_min new_covenant_id new_lock target =
    (let new_len = config_total_len new_lock;
         target = (if resource_data target = [] \<or> length (resource_data target) \<noteq> new_len
                   then resource_resize new_len target else target)
     in decode_err (write_into (\<lambda>out. write_config out new_min new_covenant_id new_lock) target))"

definition apply_update :: "crypto \<Rightarrow> byte \<Rightarrow> u64 \<Rightarrow> bytes \<Rightarrow> lock_enum \<Rightarrow> apply_context \<Rightarrow> abi_fault + apply_context" where
  "apply_update cr updater_idx new_min new_covenant_id new_lock cx =
    rbind (at (cx_resources cx) (unat updater_idx)) (\<lambda>target.
    if resource_id target \<noteq> config_resource_id cr then fail ''update: target is not the config resource''
    else
      rbind (at (cx_lifecycle cx) (unat updater_idx)) (\<lambda>lc.
      rbind (case lc of Live \<Rightarrow> Inr () | New \<Rightarrow> fail ''update: config resource must already exist''
             | Deleted \<Rightarrow> fail ''update: config resource is deleted'') (\<lambda>_.
      rbind (decode_err (config_from_bytes (resource_data target))) (\<lambda>cur.
      if new_covenant_id \<noteq> cf_covenant_id cur then fail ''update: covenant_id is immutable after init''
      else
        rbind (ok_or (config_lock cur) (Crash ''lock: tag validated'')) (\<lambda>l.
        if \<not> lock_unlock l updater_idx (cx_auth cx) then fail ''update: lock not satisfied''
        else rbind (write_new_state new_min new_covenant_id new_lock target) (\<lambda>target'.
          Inr (put_resource (unat updater_idx) target' cx)))))))"

definition apply_init :: "crypto \<Rightarrow> byte \<Rightarrow> u64 \<Rightarrow> bytes \<Rightarrow> lock_enum \<Rightarrow> apply_context \<Rightarrow> abi_fault + apply_context" where
  "apply_init cr updater_idx new_min new_covenant_id new_lock cx =
    rbind (at (cx_resources cx) (unat updater_idx)) (\<lambda>target.
    if resource_id target \<noteq> config_resource_id cr then fail ''init: target is not the config resource''
    else
      rbind (at (cx_lifecycle cx) (unat updater_idx)) (\<lambda>lc.
      if lc \<noteq> New then fail ''init: config resource already exists''
      else if \<not> lock_unlock (SchnorrLock GENESIS_SCHNORR_BYTES) updater_idx (cx_auth cx)
      then fail ''init: not authorized by genesis pubkey''
      else rbind (write_new_state new_min new_covenant_id new_lock target) (\<lambda>target'.
        mark_created (unat updater_idx) (put_resource (unat updater_idx) target' cx))))"

subsection \<open>Deposit and withdrawal\<close>

text \<open>The scan for the config resource: the first slot with its id decides.\<close>

definition scan_config :: "crypto \<Rightarrow> (config_raw \<Rightarrow> 'r) \<Rightarrow> resource list \<Rightarrow> 'r option" where
  "scan_config cr f rs =
    (case find (\<lambda>r. resource_id r = config_resource_id cr) rs of
       None \<Rightarrow> None
     | Some r \<Rightarrow> view_config f r)"

datatype credit_kind = Create bytes | CreditExisting u64

definition decide_credit ::
  "crypto \<Rightarrow> deposit_policy \<Rightarrow> credit_target \<Rightarrow> lock_enum \<Rightarrow> u64 \<Rightarrow> lifecycle \<Rightarrow> resource
    \<Rightarrow> abi_fault + credit_kind" where
  "decide_credit cr policy target initial_lock deposit_value lc r =
    (case lc of
       New \<Rightarrow>
         (case ct_create_with target of
            Some _ \<Rightarrow>
              rbind (validate_user_create cr (resource_id r) initial_lock deposit_value
                       (dp_min_create_balance policy)) (\<lambda>ilh. Inr (Create ilh))
          | None \<Rightarrow> fail ''deposit: user does not exist (policy forbids create)'')
     | Live \<Rightarrow>
         (case view_user (\<lambda>v. (ur_balance v, ur_initial_lock_hash v)) r of
            None \<Rightarrow> fail ''deposit: target not a live user resource''
          | Some (cur_balance, stored_ilh) \<Rightarrow>
              if stored_ilh \<noteq> lock_id_hash cr initial_lock
              then fail ''deposit: initial_lock mismatch for existing user''
              else (case checked_add cur_balance deposit_value of
                  None \<Rightarrow> fail ''deposit: balance overflow''
                | Some new \<Rightarrow> Inr (CreditExisting new)))
     | Deleted \<Rightarrow> fail ''deposit: target slot was deleted in this tx'')"

definition apply_credit ::
  "nat \<Rightarrow> u64 \<Rightarrow> lock_enum \<Rightarrow> credit_kind \<Rightarrow> apply_context \<Rightarrow> abi_fault + apply_context" where
  "apply_credit idx deposit_value initial_lock k cx =
    (case k of
       Create ilh \<Rightarrow>
         rbind (mark_created idx cx) (\<lambda>cx.
         rbind (at (cx_resources cx) idx) (\<lambda>r.
         rbind (decode_err (init_user deposit_value ilh initial_lock r)) (\<lambda>r'.
         Inr (put_resource idx r' cx))))
     | CreditExisting new_balance \<Rightarrow>
         rbind (at (cx_resources cx) idx) (\<lambda>r.
         case modify_user (\<lambda>v. ((), v\<lparr>ur_balance := new_balance\<rparr>)) r of
           (None, _) \<Rightarrow> fail ''deposit: target not a live user resource''
         | (Some _, r') \<Rightarrow> Inr (put_resource idx r' cx)))"

definition apply_deposit ::
  "nat \<Rightarrow> crypto \<Rightarrow> deposit_policy \<Rightarrow> byte \<Rightarrow> u32 \<Rightarrow> lock_enum \<Rightarrow> apply_context \<Rightarrow> abi_fault + apply_context" where
  "apply_deposit usize_bits cr policy user_idx output_idx initial_lock cx =
    (if output_idx \<in> set (cx_consumed_outputs cx) then fail ''deposit: output already consumed in this tx''
     else case scan_config cr cf_covenant_id (cx_resources cx) of
       None \<Rightarrow> fail ''deposit: config resource absent or not live''
     | Some covenant_id \<Rightarrow>
         (case parse_output_at_index_v1 usize_bits (tx_rest_preimage (cx_tx cx)) output_idx of
            Inl _ \<Rightarrow> fail ''deposit: bad output_idx / rest_preimage''
          | Inr out \<Rightarrow>
              let body = \<lparr>db_user_idx = user_idx, db_output_idx = output_idx, db_initial_lock = initial_lock\<rparr>;
                  want_spk = dp_deposit_spk policy \<lparr>dj_body = body, dj_covenant_id = covenant_id\<rparr>
              in if od_spk_version out \<noteq> 0 \<or> od_spk out \<noteq> script_slice want_spk
                 then fail ''deposit: funding output SPK != policy deposit_spk''
                 else
                   rbind (decode_err (dp_credit_target policy body)) (\<lambda>target.
                   let idx = unat (ct_user_idx target) in
                   if length (cx_resources cx) \<le> idx then fail ''deposit: credit user_idx out of range''
                   else
                     rbind (at (cx_lifecycle cx) idx) (\<lambda>lc.
                     rbind (decide_credit cr policy target initial_lock (od_value out) lc (cx_resources cx ! idx)) (\<lambda>k.
                     case deposit_set (delegate_entry_spk_hash cr covenant_id) (cx_deposit cx) of
                       Inl e \<Rightarrow> Inl (Fail e)
                     | Inr deposit \<Rightarrow>
                         apply_credit idx (od_value out) initial_lock k
                           (cx\<lparr>cx_deposit := deposit,
                               cx_consumed_outputs := cx_consumed_outputs cx @ [output_idx]\<rparr>))))))"

definition apply_withdraw :: "crypto \<Rightarrow> byte \<Rightarrow> u64 \<Rightarrow> standard_spk \<Rightarrow> apply_context \<Rightarrow> abi_fault + apply_context" where
  "apply_withdraw cr user_idx amount dest cx =
    (case scan_config cr cf_min_withdrawal_amount (cx_resources cx) of
       None \<Rightarrow> fail ''withdraw: config resource absent or not live''
     | Some min_amount \<Rightarrow>
         rbind (at (cx_resources cx) (unat user_idx)) (\<lambda>r.
         rbind (user_unlock ''withdraw: not a live user resource'' user_idx (cx_auth cx) r) (\<lambda>auth_ok.
         if \<not> auth_ok then fail ''withdraw: lock not satisfied''
         else if amount < min_amount then fail ''withdraw: amount below min_withdrawal_amount''
         else case view_user ur_balance r of
           None \<Rightarrow> fail ''withdraw: not a live user resource''
         | Some cur \<Rightarrow>
             (case checked_sub cur amount of
                None \<Rightarrow> fail ''withdraw: insufficient balance''
              | Some new_balance \<Rightarrow>
                  (case modify_user (\<lambda>v. ((), v\<lparr>ur_balance := new_balance\<rparr>)) r of
                     (None, _) \<Rightarrow> fail ''withdraw: not a live user resource''
                   | (Some _, r') \<Rightarrow>
                       (case exit_emit dest amount (cx_exits cx) of
                          Inl _ \<Rightarrow> fail ''withdraw: emit failed''
                        | Inr exits \<Rightarrow> Inr (put_resource (unat user_idx) r' (cx\<lparr>cx_exits := exits\<rparr>))))))))"

subsection \<open>Dispatch and the entry point\<close>

fun apply_action :: "nat \<Rightarrow> crypto \<Rightarrow> deposit_policy \<Rightarrow> action \<Rightarrow> apply_context \<Rightarrow> abi_fault + apply_context" where
  "apply_action usize_bits cr policy (Update i m c l) cx = apply_update cr i m c l cx"
| "apply_action usize_bits cr policy (Init i m c l) cx = apply_init cr i m c l cx"
| "apply_action usize_bits cr policy (Transfer s d a l) cx = apply_transfer cr policy s d a l cx"
| "apply_action usize_bits cr policy (UpdateUserLock i l) cx = apply_update_user_lock i l cx"
| "apply_action usize_bits cr policy (Deposit i out l) cx = apply_deposit usize_bits cr policy i out l cx"
| "apply_action usize_bits cr policy (Withdraw i a dest) cx = apply_withdraw cr i a dest cx"

definition run ::
  "nat \<Rightarrow> crypto \<Rightarrow> deposit_policy \<Rightarrow> transaction \<Rightarrow> resource list \<Rightarrow> exit_sink \<Rightarrow> deposit_sink
    \<Rightarrow> abi_fault + apply_context" where
  "run usize_bits cr policy tx resources exits deposit =
    (let payload = tx_payload tx in
     case decode_ix (pl_ix_data payload) (length resources) of
       Inl e \<Rightarrow> Inl (Fail (error_of_codec e))
     | Inr ix \<Rightarrow>
         let access_prefix_len = length (pl_bytes payload) - length (pl_ix_data payload);
             payload_presig = take (access_prefix_len + ix_end_of_actions ix) (pl_bytes payload)
         in rbind (resolve_signers usize_bits cr (ix_signers ix)
                \<lparr>rc_payload_bytes = pl_bytes payload, rc_current_rest_preimage = tx_rest_preimage tx,
                 rc_resources = resources, rc_payload_presig = payload_presig\<rparr>) (\<lambda>auth.
            fold_r (apply_action usize_bits cr policy) (ix_actions ix)
              (apply_context_new tx resources auth exits deposit)))"

definition main_handler :: "nat \<Rightarrow> crypto \<Rightarrow> handler" where
  "main_handler usize_bits cr tx merge_idx context_hash resources exits deposit =
    rbind (run usize_bits cr (example_deposit_policy cr) tx resources exits deposit) (\<lambda>cx.
    Inr (cx_resources cx, cx_exits cx, cx_deposit cx))"

end
