(* ===== verification/Runtime_Ledger.thy ===== *)
theory Runtime_Ledger
  imports Runtime_Actions
begin

text \<open>
  The runtime program as a ledger.  The typed content of the slots, the exits and the consumed
  funding outputs form an abstract \<open>ledger\<close>; \<open>ledger_step\<close> says what each action may do to
  it, in terms of balances, locks and addresses only.  The byte-level actions of
  \<open>Runtime_Actions\<close> refine it, and the properties of the program (no value is created, no
  balance moves without its lock, addresses stay bound) are proved on the ledger by rule
  induction and carried over.
\<close>

subsection \<open>The ledger\<close>

record ledger_env =
  le_usize_bits :: nat
  le_crypto :: crypto
  le_policy :: deposit_policy
  le_ids :: "bytes list"
  le_auth :: auth_context
  le_rest_preimage :: bytes

record ledger =
  lg_slots :: "slot list"
  lg_exits :: "(standard_spk \<times> u64) list"
  lg_consumed :: "u32 list"

text \<open>The funding output \<open>i\<close> of the transaction pays the covenant's deposit address for this deposit.\<close>

definition funded :: "ledger_env \<Rightarrow> slot list \<Rightarrow> byte \<Rightarrow> u32 \<Rightarrow> lock_enum \<Rightarrow> output_data \<Rightarrow> bool" where
  "funded e slots u i l out \<longleftrightarrow>
    parse_output_at_index_v1 (le_usize_bits e) (le_rest_preimage e) i = Inr out \<and> od_spk_version out = 0 \<and>
    (\<exists>k m c cl. k < length slots \<and> le_ids e ! k = config_resource_id (le_crypto e) \<and> slots ! k = Config m c cl \<and>
      od_spk out = script_slice (dp_deposit_spk (le_policy e)
        \<lparr>dj_body = \<lparr>db_user_idx = u, db_output_idx = i, db_initial_lock = l\<rparr>, dj_covenant_id = c\<rparr>))"

definition credits :: "ledger_env \<Rightarrow> byte \<Rightarrow> u32 \<Rightarrow> lock_enum \<Rightarrow> nat \<Rightarrow> bool" where
  "credits e u i l k \<longleftrightarrow> (\<exists>t. dp_credit_target (le_policy e)
      \<lparr>db_user_idx = u, db_output_idx = i, db_initial_lock = l\<rparr> = Inr t \<and> k = unat (ct_user_idx t))"

definition address_of :: "ledger_env \<Rightarrow> lock_enum \<Rightarrow> bytes" where
  "address_of e l = derive_user_resource (le_crypto e) (lock_id_hash (le_crypto e) l)"

inductive ledger_step :: "ledger_env \<Rightarrow> ledger \<Rightarrow> action \<Rightarrow> ledger \<Rightarrow> bool" for e where
  transfer: "\<lbrakk>s \<noteq> d; unat s < length slots; unat d < length slots;
      slots ! unat s = User b h l; lock_unlock l s (le_auth e); a \<le> b;
      slots ! unat d = User b' h' l'; unat b' + unat a < 2 ^ 64\<rbrakk> \<Longrightarrow>
    ledger_step e \<lparr>lg_slots = slots, lg_exits = xs, lg_consumed = us\<rparr> (Transfer s d a init)
      \<lparr>lg_slots = slots[unat s := User (b - a) h l, unat d := User (b' + a) h' l'], lg_exits = xs, lg_consumed = us\<rparr>"
| transfer_create: "\<lbrakk>s \<noteq> d; unat s < length slots; unat d < length slots;
      slots ! unat s = User b h l; lock_unlock l s (le_auth e); a \<le> b;
      slots ! unat d = Empty; le_ids e ! unat d = address_of e l'; dp_min_create_balance (le_policy e) \<le> a\<rbrakk> \<Longrightarrow>
    ledger_step e \<lparr>lg_slots = slots, lg_exits = xs, lg_consumed = us\<rparr> (Transfer s d a (Some l'))
      \<lparr>lg_slots = slots[unat s := User (b - a) h l, unat d := User a (lock_id_hash (le_crypto e) l') l'],
       lg_exits = xs, lg_consumed = us\<rparr>"
| rotate: "\<lbrakk>unat u < length slots; slots ! unat u = User b h l; lock_unlock l u (le_auth e)\<rbrakk> \<Longrightarrow>
    ledger_step e \<lparr>lg_slots = slots, lg_exits = xs, lg_consumed = us\<rparr> (UpdateUserLock u l')
      \<lparr>lg_slots = slots[unat u := User b h l'], lg_exits = xs, lg_consumed = us\<rparr>"
| deposit: "\<lbrakk>i \<notin> set us; funded e slots u i l out; credits e u i l k; k < length slots;
      slots ! k = User b (lock_id_hash (le_crypto e) l) cl; unat b + unat (od_value out) < 2 ^ 64\<rbrakk> \<Longrightarrow>
    ledger_step e \<lparr>lg_slots = slots, lg_exits = xs, lg_consumed = us\<rparr> (Deposit u i l)
      \<lparr>lg_slots = slots[k := User (b + od_value out) (lock_id_hash (le_crypto e) l) cl],
       lg_exits = xs, lg_consumed = us @ [i]\<rparr>"
| deposit_create: "\<lbrakk>i \<notin> set us; funded e slots u i l out; credits e u i l k; k < length slots;
      slots ! k = Empty; le_ids e ! k = address_of e l; dp_min_create_balance (le_policy e) \<le> od_value out\<rbrakk> \<Longrightarrow>
    ledger_step e \<lparr>lg_slots = slots, lg_exits = xs, lg_consumed = us\<rparr> (Deposit u i l)
      \<lparr>lg_slots = slots[k := User (od_value out) (lock_id_hash (le_crypto e) l) l],
       lg_exits = xs, lg_consumed = us @ [i]\<rparr>"
| withdraw: "\<lbrakk>unat u < length slots; slots ! unat u = User b h l; lock_unlock l u (le_auth e); a \<le> b;
      k < length slots; le_ids e ! k = config_resource_id (le_crypto e); slots ! k = Config m c cl; m \<le> a\<rbrakk> \<Longrightarrow>
    ledger_step e \<lparr>lg_slots = slots, lg_exits = xs, lg_consumed = us\<rparr> (Withdraw u a dest)
      \<lparr>lg_slots = slots[unat u := User (b - a) h l], lg_exits = xs @ [(dest, a)], lg_consumed = us\<rparr>"
| update: "\<lbrakk>unat u < length slots; le_ids e ! unat u = config_resource_id (le_crypto e);
      slots ! unat u = Config m c l; lock_unlock l u (le_auth e)\<rbrakk> \<Longrightarrow>
    ledger_step e \<lparr>lg_slots = slots, lg_exits = xs, lg_consumed = us\<rparr> (Update u m' c l')
      \<lparr>lg_slots = slots[unat u := Config m' c l'], lg_exits = xs, lg_consumed = us\<rparr>"
| init: "\<lbrakk>unat u < length slots; le_ids e ! unat u = config_resource_id (le_crypto e);
      slots ! unat u = Empty; lock_unlock (SchnorrLock GENESIS_SCHNORR_BYTES) u (le_auth e)\<rbrakk> \<Longrightarrow>
    ledger_step e \<lparr>lg_slots = slots, lg_exits = xs, lg_consumed = us\<rparr> (Init u m c l)
      \<lparr>lg_slots = slots[unat u := Config m c l], lg_exits = xs, lg_consumed = us\<rparr>"

inductive ledger_run :: "ledger_env \<Rightarrow> ledger \<Rightarrow> action list \<Rightarrow> ledger \<Rightarrow> bool" for e where
  done_run: "ledger_run e g [] g"
| step_run: "ledger_step e g a g' \<Longrightarrow> ledger_run e g' as g'' \<Longrightarrow> ledger_run e g (a # as) g''"

subsection \<open>Abstraction\<close>

definition slots_of :: "resource list \<Rightarrow> slot list" where
  "slots_of rs = map (\<lambda>r. slot_of (resource_data r)) rs"

definition life_of :: "resource \<Rightarrow> lifecycle" where
  "life_of r = (if resource_data r = [] then New else Live)"

text \<open>The lifecycle states the program tracks are those of the slots' contents; no slot is deleted.\<close>

definition cx_ok :: "apply_context \<Rightarrow> bool" where
  "cx_ok cx \<longleftrightarrow> cx_lifecycle cx = map life_of (cx_resources cx)"

definition abs :: "apply_context \<Rightarrow> (standard_spk \<times> u64) list \<Rightarrow> ledger" where
  "abs cx xs = \<lparr>lg_slots = slots_of (cx_resources cx), lg_exits = xs, lg_consumed = cx_consumed_outputs cx\<rparr>"

definition env_of :: "nat \<Rightarrow> crypto \<Rightarrow> deposit_policy \<Rightarrow> apply_context \<Rightarrow> ledger_env" where
  "env_of usize_bits cr policy cx = \<lparr>le_usize_bits = usize_bits, le_crypto = cr, le_policy = policy,
     le_ids = map resource_id (cx_resources cx), le_auth = cx_auth cx,
     le_rest_preimage = tx_rest_preimage (cx_tx cx)\<rparr>"

text \<open>What the decoder promises of an action over \<open>n\<close> resources.\<close>

fun action_ok :: "nat \<Rightarrow> action \<Rightarrow> bool" where
  "action_ok n (Update i m c l) \<longleftrightarrow> unat i < n \<and> length c = 32 \<and> lock_ok l"
| "action_ok n (Init i m c l) \<longleftrightarrow> unat i < n \<and> length c = 32 \<and> lock_ok l"
| "action_ok n (Transfer s d a init) \<longleftrightarrow> unat s < n \<and> unat d < n \<and> pred_option lock_ok init"
| "action_ok n (UpdateUserLock i l) \<longleftrightarrow> unat i < n \<and> lock_ok l"
| "action_ok n (Deposit i out l) \<longleftrightarrow> unat i < n \<and> lock_ok l"
| "action_ok n (Withdraw i a dest) \<longleftrightarrow> unat i < n \<and> spk_ok dest"

definition sha_32 :: "crypto \<Rightarrow> bool" where
  "sha_32 cr \<longleftrightarrow> (\<forall>m. length (cr_sha256 cr m) = 32)"

subsection \<open>Results of the helpers\<close>

lemma at_Inr [simp]: "at xs i = Inr x \<longleftrightarrow> i < length xs \<and> x = xs ! i"
  by (auto simp: at_def)

lemma fail_Inr [simp]: "fail m \<noteq> Inr x"
  by (simp add: fail_def)

lemma decode_err_Inr [simp]: "decode_err r = Inr x \<longleftrightarrow> r = Inr x"
  by (auto simp: decode_err_def split: sum.splits)

lemma length_lock_id_hash: "sha_32 cr \<Longrightarrow> length (lock_id_hash cr l) = 32"
  by (simp add: sha_32_def lock_id_hash_def sha_with_domain_def sha_parts_with_domain_def)

lemma slot_user_bytes: "length h = 32 \<Longrightarrow> lock_ok l \<Longrightarrow> slot_of (user_bytes b h l) = User b h l"
  by (simp add: slot_of_user)

lemma slot_config_bytes: "length h = 32 \<Longrightarrow> lock_ok l \<Longrightarrow> slot_of (config_bytes b h l) = Config b h l"
  by (simp add: slot_of_config)

lemma slot_Empty: "slot_of bs = Empty \<longleftrightarrow> bs = []"
  by (auto simp: slot_of_def split: sum.splits)

lemma user_unlock_Inr:
  "user_unlock m i auth r = Inr b \<longleftrightarrow>
    (\<exists>bal h l. slot_of (resource_data r) = User bal h l \<and> b = lock_unlock l i auth)"
proof (cases "user_from_bytes (resource_data r)")
  case (Inl e)
  then have "slot_of (resource_data r) \<noteq> User bal h l" for bal h l
    using slot_user_view [of "resource_data r" bal h l] by auto
  with Inl show ?thesis by (simp add: user_unlock_def view_user_eq)
next
  case (Inr u)
  from user_view_slot [OF Inr] obtain l
    where "slot_of (resource_data r) = User (ur_balance u) (ur_initial_lock_hash u) l" "user_lock u = Some l"
    by metis
  with Inr show ?thesis by (auto simp: user_unlock_def view_user_eq)
qed

lemma adjust_user_Inr:
  assumes "adjust_user f m n r = Inr r'"
  obtains b h l new where "slot_of (resource_data r) = User b h l" "f b = Some new"
    "slot_of (resource_data r') = User new h l" "resource_id r' = resource_id r"
proof -
  from assms obtain u u' where u: "user_from_bytes (resource_data r) = Inr u" "adjust_balance f m u = (Inr (), u')"
      and r': "r' = resource_data_mut (\<lambda>_. user_raw_bytes u') (resource_data_mut (\<lambda>d. d) r)"
    unfolding adjust_user_def
    by (auto simp: modify_user_Some split: prod.splits option.splits sum.splits)
  from user_view_slot [OF u(1)] obtain l
    where l: "slot_of (resource_data r) = User (ur_balance u) (ur_initial_lock_hash u) l" "user_lock u = Some l"
    by metis
  from u(2) obtain new where new: "f (ur_balance u) = Some new" "u' = u\<lparr>ur_balance := new\<rparr>"
    by (auto simp: adjust_balance_def split: option.splits)
  have "resource_data r' = user_bytes new (ur_initial_lock_hash u) l"
    using r' new user_view_bytes(1) [OF u(1) l(2)] by simp
  then have "slot_of (resource_data r') = User new (ur_initial_lock_hash u) l"
    using user_view_bytes(2,3) [OF u(1) l(2)] by (simp add: slot_user_bytes)
  with l new r' show thesis using that by simp
qed

lemma set_balance_Some:
  assumes "modify_user (\<lambda>v. ((), v\<lparr>ur_balance := new\<rparr>)) r = (Some x, r')"
    "slot_of (resource_data r) = User b h l"
  shows "slot_of (resource_data r') = User new h l" "resource_id r' = resource_id r"
proof -
  from assms(1) obtain u where u: "user_from_bytes (resource_data r) = Inr u"
      and r': "r' = resource_data_mut (\<lambda>_. user_raw_bytes (u\<lparr>ur_balance := new\<rparr>)) (resource_data_mut (\<lambda>d. d) r)"
    by (auto simp: modify_user_Some)
  from user_view_slot [OF u] assms(2) have l: "user_lock u = Some l" "ur_initial_lock_hash u = h" by auto
  show "slot_of (resource_data r') = User new h l"
    using r' user_view_bytes [OF u l(1)] l(2) by (simp add: slot_user_bytes)
  show "resource_id r' = resource_id r" using r' by simp
qed

lemma init_user_slot:
  assumes "init_user b h l r = Inr r'" "length h = 32" "lock_ok l"
  shows "resource_data r = []" "slot_of (resource_data r') = User b h l" "resource_id r' = resource_id r"
  using assms by (auto simp: init_user_Inr slot_user_bytes)

lemma set_user_lock_slot:
  assumes "set_user_lock l r = Inr r'" "slot_of (resource_data r) = User b h l0" "lock_ok l"
  shows "slot_of (resource_data r') = User b h l" "resource_id r' = resource_id r"
proof -
  from assms(1) obtain u where u: "user_from_bytes (resource_data r) = Inr u"
      and r': "r' = resource_data_mut (\<lambda>_. user_bytes (ur_balance u) (ur_initial_lock_hash u) l)
        (resource_resize (user_total_len l) r)"
    by (auto simp: set_user_lock_Inr)
  have "length h = 32" using assms(2) by (simp add: slot_of_user)
  moreover have "ur_balance u = b" "ur_initial_lock_hash u = h"
    using assms(2) user_view_slot [OF u] by auto
  ultimately
  show "slot_of (resource_data r') = User b h l" "resource_id r' = resource_id r"
    using r' assms(3) by (auto simp: slot_user_bytes)
qed

lemma write_new_state_slot:
  assumes "write_new_state m c l r = Inr r'" "length c = 32" "lock_ok l"
  shows "slot_of (resource_data r') = Config m c l" "resource_id r' = resource_id r"
proof -
  define t where "t = (if resource_data r = [] \<or> length (resource_data r) \<noteq> config_total_len l
    then resource_resize (config_total_len l) r else r)"
  have len: "length (resource_data t) = config_total_len l" by (auto simp: t_def)
  have "r' = resource_data_mut (\<lambda>_. config_bytes m c l) t"
    using assms(1) write_into_config [OF len] unfolding write_new_state_def Let_def t_def by simp
  then show "slot_of (resource_data r') = Config m c l" "resource_id r' = resource_id r"
    using assms(2,3) by (auto simp: slot_config_bytes t_def)
qed

lemma scan_config_Some:
  assumes "scan_config cr f rs = Some v"
  obtains k c l m where "k < length rs" "resource_id (rs ! k) = config_resource_id cr"
    "slot_of (resource_data (rs ! k)) = Config m (cf_covenant_id c) l" "v = f c" "cf_min_withdrawal_amount c = m"
proof -
  from assms obtain r c where r: "find (\<lambda>r. resource_id r = config_resource_id cr) rs = Some r"
      "config_from_bytes (resource_data r) = Inr c" "v = f c"
    by (auto simp: scan_config_def view_config_eq split: option.splits sum.splits)
  from r(1) obtain k where "k < length rs" "resource_id (rs ! k) = config_resource_id cr" "rs ! k = r"
    by (auto simp: find_Some_iff)
  with r config_view_slot [OF r(2)] show thesis using that by metis
qed

subsection \<open>Each action refines its ledger step\<close>

definition linked :: "apply_context \<Rightarrow> (standard_spk \<times> u64) list \<Rightarrow> bool" where
  "linked cx xs \<longleftrightarrow> cx_ok cx \<and> es_buf (cx_exits cx) = concat (map exit_bytes xs) \<and> list_all (\<lambda>x. spk_ok (fst x)) xs"

definition simulated ::
  "nat \<Rightarrow> crypto \<Rightarrow> deposit_policy \<Rightarrow> action \<Rightarrow> apply_context \<Rightarrow> (standard_spk \<times> u64) list \<Rightarrow> apply_context \<Rightarrow> bool" where
  "simulated bits cr policy a cx xs cx' \<longleftrightarrow> (\<exists>xs'.
    ledger_step (env_of bits cr policy cx) (abs cx xs) a (abs cx' xs') \<and> linked cx' xs'
    \<and> env_of bits cr policy cx' = env_of bits cr policy cx)"

lemma length_slots_of [simp]: "length (slots_of rs) = length rs"
  by (simp add: slots_of_def)

lemma slots_of_nth [simp]: "i < length rs \<Longrightarrow> slots_of rs ! i = slot_of (resource_data (rs ! i))"
  by (simp add: slots_of_def)

lemma slots_of_update [simp]: "slots_of (rs[i := r]) = (slots_of rs)[i := slot_of (resource_data r)]"
  by (simp add: slots_of_def map_update)

lemma put_resource_simps [simp]:
  "cx_resources (put_resource i r cx) = (cx_resources cx)[i := r]"
  "cx_tx (put_resource i r cx) = cx_tx cx" "cx_lifecycle (put_resource i r cx) = cx_lifecycle cx"
  "cx_auth (put_resource i r cx) = cx_auth cx" "cx_exits (put_resource i r cx) = cx_exits cx"
  "cx_deposit (put_resource i r cx) = cx_deposit cx"
  "cx_consumed_outputs (put_resource i r cx) = cx_consumed_outputs cx"
  by (simp_all add: put_resource_def)

lemma ids_update:
  "i < length rs \<Longrightarrow> resource_id r = resource_id (rs ! i) \<Longrightarrow> map resource_id (rs[i := r]) = map resource_id rs"
  by (simp add: map_update list_update_same_conv)

lemma env_of_simps [simp]:
  "le_usize_bits (env_of bits cr policy cx) = bits" "le_crypto (env_of bits cr policy cx) = cr"
  "le_policy (env_of bits cr policy cx) = policy" "le_auth (env_of bits cr policy cx) = cx_auth cx"
  "le_ids (env_of bits cr policy cx) = map resource_id (cx_resources cx)"
  "le_rest_preimage (env_of bits cr policy cx) = tx_rest_preimage (cx_tx cx)"
  by (simp_all add: env_of_def)

lemma life_of_nonempty: "slot_of (resource_data r) \<noteq> Empty \<Longrightarrow> life_of r = Live"
  by (simp add: life_of_def slot_Empty)

lemma cx_ok_life: "cx_ok cx \<Longrightarrow> i < length (cx_resources cx) \<Longrightarrow> cx_lifecycle cx ! i = life_of (cx_resources cx ! i)"
  by (simp add: cx_ok_def)

lemma cx_ok_length: "cx_ok cx \<Longrightarrow> length (cx_lifecycle cx) = length (cx_resources cx)"
  by (simp add: cx_ok_def)

lemma life_update:
  "i < length rs \<Longrightarrow> life_of r = life_of (rs ! i) \<Longrightarrow> map life_of (rs[i := r]) = map life_of rs"
  by (simp add: map_update list_update_same_conv)

lemma user_put_ok:
  assumes "cx_ok cx" "i < length (cx_resources cx)"
    "slot_of (resource_data (cx_resources cx ! i)) \<noteq> Empty" "slot_of (resource_data r) \<noteq> Empty"
  shows "cx_ok (put_resource i r cx)"
  using assms by (simp add: cx_ok_def life_update life_of_nonempty)

lemma mark_created_Inr:
  assumes "mark_created i cx = Inr cx'"
  shows "i < length (cx_lifecycle cx) \<and> cx_lifecycle cx ! i = New
    \<and> cx' = cx\<lparr>cx_lifecycle := (cx_lifecycle cx)[i := Live]\<rparr>"
  using assms by (cases "cx_lifecycle cx ! i") (auto simp: mark_created_def)

lemma created_ok:
  assumes "cx_ok cx" "i < length (cx_resources cx)" "slot_of (resource_data r) \<noteq> Empty"
  shows "cx_ok (put_resource i r (cx\<lparr>cx_lifecycle := (cx_lifecycle cx)[i := Live]\<rparr>))"
  using assms by (simp add: cx_ok_def map_update life_of_nonempty)

lemma validate_user_create_Inr:
  "validate_user_create cr i l f m = Inr h \<longleftrightarrow>
    h = lock_id_hash cr l \<and> i = derive_user_resource cr (lock_id_hash cr l) \<and> m \<le> f"
  by (auto simp: validate_user_create_def Let_def)

lemma sim_update_user_lock:
  assumes "apply_update_user_lock u l cx = Inr cx'" "linked cx xs" "lock_ok l"
  shows "simulated bits cr policy (UpdateUserLock u l) cx xs cx'"
proof -
  from assms(1) obtain b h l0 r' where u: "unat u < length (cx_resources cx)"
      "slot_of (resource_data (cx_resources cx ! unat u)) = User b h l0" "lock_unlock l0 u (cx_auth cx)"
      "set_user_lock l (cx_resources cx ! unat u) = Inr r'" "cx' = put_resource (unat u) r' cx"
    by (auto simp: apply_update_user_lock_def user_unlock_Inr split: if_splits)
  note r' = set_user_lock_slot [OF u(4,2) assms(3)]
  have "ledger_step (env_of bits cr policy cx) (abs cx xs) (UpdateUserLock u l) (abs cx' xs)"
    using ledger_step.rotate [of u "slots_of (cx_resources cx)" b h l0 "env_of bits cr policy cx"] u r'
    by (simp add: abs_def)
  moreover have "linked cx' xs"
    using assms(2) u r' user_put_ok [of cx "unat u" r'] by (simp add: linked_def)
  moreover have "env_of bits cr policy cx' = env_of bits cr policy cx"
    using u r' by (simp add: env_of_def ids_update)
  ultimately show ?thesis unfolding simulated_def by blast
qed

lemma sim_update:
  assumes "apply_update cr u m c l cx = Inr cx'" "linked cx xs" "lock_ok l" "length c = 32"
  shows "simulated bits cr policy (Update u m c l) cx xs cx'"
proof -
  from assms(1) obtain cur l0 r' where u: "unat u < length (cx_resources cx)"
      "resource_id (cx_resources cx ! unat u) = config_resource_id cr"
      "config_from_bytes (resource_data (cx_resources cx ! unat u)) = Inr cur" "c = cf_covenant_id cur"
      "config_lock cur = Some l0" "lock_unlock l0 u (cx_auth cx)"
      "write_new_state m c l (cx_resources cx ! unat u) = Inr r'" "cx' = put_resource (unat u) r' cx"
    by (auto simp: apply_update_def split: if_splits)
  from config_view_slot [OF u(3)] u(4,5) obtain m0
    where s: "slot_of (resource_data (cx_resources cx ! unat u)) = Config m0 c l0" by (metis option.inject)
  note r' = write_new_state_slot [OF u(7) assms(4,3)]
  have "ledger_step (env_of bits cr policy cx) (abs cx xs) (Update u m c l) (abs cx' xs)"
    using ledger_step.update [of u "slots_of (cx_resources cx)" "env_of bits cr policy cx" m0 c l0] u r' s
    by (simp add: abs_def)
  moreover have "linked cx' xs"
    using assms(2) u r' s user_put_ok [of cx "unat u" r'] by (simp add: linked_def)
  moreover have "env_of bits cr policy cx' = env_of bits cr policy cx"
    using u r' by (simp add: env_of_def ids_update)
  ultimately show ?thesis unfolding simulated_def by blast
qed

lemma sim_init:
  assumes "apply_init cr u m c l cx = Inr cx'" "linked cx xs" "lock_ok l" "length c = 32"
  shows "simulated bits cr policy (Init u m c l) cx xs cx'"
proof -
  from assms(1) obtain r' where u: "unat u < length (cx_resources cx)"
      "resource_id (cx_resources cx ! unat u) = config_resource_id cr"
      "lock_unlock (SchnorrLock GENESIS_SCHNORR_BYTES) u (cx_auth cx)" "cx_lifecycle cx ! unat u = New"
      "write_new_state m c l (cx_resources cx ! unat u) = Inr r'"
      "mark_created (unat u) (put_resource (unat u) r' cx) = Inr cx'"
    by (auto simp: apply_init_def simp del: lock_unlock.simps split: if_splits)
  note r' = write_new_state_slot [OF u(5) assms(4,3)]
  have ok: "cx_ok cx" using assms(2) by (simp add: linked_def)
  have cx': "cx' = put_resource (unat u) r' (cx\<lparr>cx_lifecycle := (cx_lifecycle cx)[unat u := Live]\<rparr>)"
    using mark_created_Inr [OF u(6)] by (simp add: put_resource_def)
  have empty: "resource_data (cx_resources cx ! unat u) = []"
    using cx_ok_life [OF ok u(1)] u(4) by (auto simp: life_of_def split: if_splits)
  have "ledger_step (env_of bits cr policy cx) (abs cx xs) (Init u m c l) (abs cx' xs)"
    using ledger_step.init [of u "slots_of (cx_resources cx)" "env_of bits cr policy cx"] u(1-3) r' cx' empty
    by (simp add: abs_def slot_Empty del: lock_unlock.simps)
  moreover have "linked cx' xs"
    using assms(2) cx' r' created_ok [OF ok u(1), of r'] by (simp add: linked_def)
  moreover have "env_of bits cr policy cx' = env_of bits cr policy cx"
    using u(1) r' cx' by (simp add: env_of_def ids_update)
  ultimately show ?thesis unfolding simulated_def by blast
qed

lemma checked_sub_Some: "checked_sub a b = Some c \<longleftrightarrow> b \<le> a \<and> c = a - b"
  by (auto simp: checked_sub_def)

lemma checked_add_Some: "checked_add a b = Some c \<longleftrightarrow> unat a + unat b < 2 ^ 64 \<and> c = a + b"
  by (auto simp: checked_add_def)

lemma sim_withdraw:
  assumes "apply_withdraw cr u a dest cx = Inr cx'" "linked cx xs" "spk_ok dest"
  shows "simulated bits cr policy (Withdraw u a dest) cx xs cx'"
proof -
  let ?r = "cx_resources cx ! unat u"
  from assms(1) obtain min_amount cur r' x where w: "scan_config cr cf_min_withdrawal_amount (cx_resources cx) = Some min_amount"
      "unat u < length (cx_resources cx)" "user_unlock ''withdraw: not a live user resource'' u (cx_auth cx) ?r = Inr True"
      "min_amount \<le> a" "view_user ur_balance ?r = Some cur" "a \<le> cur"
      "modify_user (\<lambda>v. ((), v\<lparr>ur_balance := cur - a\<rparr>)) ?r = (Some x, r')"
      "cx' = put_resource (unat u) r' (cx\<lparr>cx_exits := (cx_exits cx)\<lparr>es_buf := es_buf (cx_exits cx) @ spk_encode dest @ wr_u64_le a\<rparr>\<rparr>)"
    unfolding apply_withdraw_def
    by (auto simp: checked_sub_Some exit_emit_def split: option.splits if_splits prod.splits)
  from w(3) obtain b h l where s: "slot_of (resource_data ?r) = User b h l" "lock_unlock l u (cx_auth cx)"
    by (auto simp: user_unlock_Inr)
  from slot_user_view [OF s(1)] obtain v where "user_from_bytes (resource_data ?r) = Inr v" "ur_balance v = b"
    by blast
  with w(5) have cur: "cur = b" by (simp add: view_user_eq)
  note r' = set_balance_Some [OF w(7) s(1)]
  from scan_config_Some [OF w(1)] obtain k c l0 where k: "k < length (cx_resources cx)"
      "resource_id (cx_resources cx ! k) = config_resource_id cr"
      "slot_of (resource_data (cx_resources cx ! k)) = Config min_amount c l0" by blast
  have "ledger_step (env_of bits cr policy cx) (abs cx xs) (Withdraw u a dest) (abs cx' (xs @ [(dest, a)]))"
    using ledger_step.withdraw [of u "slots_of (cx_resources cx)" b h l "env_of bits cr policy cx" a k min_amount c l0]
      w s r' k cur by (simp add: abs_def)
  moreover have "linked cx' (xs @ [(dest, a)])"
    using assms(2,3) w(2,8) s r' user_put_ok [of cx "unat u" r']
    by (simp add: linked_def exit_bytes_def cx_ok_def)
  moreover have "env_of bits cr policy cx' = env_of bits cr policy cx"
    using w r' by (simp add: env_of_def ids_update)
  ultimately show ?thesis unfolding simulated_def by blast
qed

lemma transfer_plan_Inr:
  "transfer_plan cr policy create dst a init = Inr plan \<longleftrightarrow>
    (\<not> create \<and> plan = None) \<or>
    (create \<and> (\<exists>l. init = Some l \<and> plan = Some (lock_id_hash cr l, l)
      \<and> resource_id dst = derive_user_resource cr (lock_id_hash cr l) \<and> dp_min_create_balance policy \<le> a))"
  by (auto simp: transfer_plan_def validate_user_create_Inr split: option.splits)

lemma unat_neq: "(s :: byte) \<noteq> d \<Longrightarrow> unat s \<noteq> unat d"
  by (simp add: word_unat_eq_iff)

lemma debit_slot:
  assumes "adjust_user (\<lambda>b. checked_sub b a) m n r = Inr r'" "slot_of (resource_data r) = User b h l"
  shows "a \<le> b" "slot_of (resource_data r') = User (b - a) h l" "resource_id r' = resource_id r"
proof -
  from adjust_user_Inr [OF assms(1)] obtain b0 h0 l0 new where *: "slot_of (resource_data r) = User b0 h0 l0"
      "checked_sub b0 a = Some new" "slot_of (resource_data r') = User new h0 l0" "resource_id r' = resource_id r"
    by blast
  then show "a \<le> b" "slot_of (resource_data r') = User (b - a) h l" "resource_id r' = resource_id r"
    using assms(2) by (auto simp: checked_sub_Some)
qed

lemma sim_transfer_credit:
  assumes "linked cx xs" "s \<noteq> d" "unat s < length (cx_resources cx)" "unat d < length (cx_resources cx)"
    "slot_of (resource_data (cx_resources cx ! unat s)) = User b h l" "lock_unlock l s (cx_auth cx)"
    "adjust_user (\<lambda>b. checked_sub b a) m1 n1 (cx_resources cx ! unat s) = Inr src'"
    "adjust_user (\<lambda>b. checked_add b a) m2 n2 (cx_resources cx ! unat d) = Inr dst'"
  shows "simulated bits cr policy (Transfer s d a init) cx xs
    (put_resource (unat d) dst' (put_resource (unat s) src' cx))" (is "simulated _ _ _ _ _ _ ?cx'")
proof -
  note src = debit_slot [OF assms(7,5)]
  from adjust_user_Inr [OF assms(8)] obtain b' h' l' where dst:
      "slot_of (resource_data (cx_resources cx ! unat d)) = User b' h' l'" "unat b' + unat a < 2 ^ 64"
      "slot_of (resource_data dst') = User (b' + a) h' l'" "resource_id dst' = resource_id (cx_resources cx ! unat d)"
    by (metis checked_add_Some)
  note ne = unat_neq [OF assms(2)]
  have "ledger_step (env_of bits cr policy cx) (abs cx xs) (Transfer s d a init) (abs ?cx' xs)"
    using ledger_step.transfer [of s d "slots_of (cx_resources cx)" b h l "env_of bits cr policy cx" a b' h' l']
      assms src dst by (simp add: abs_def)
  moreover have "linked ?cx' xs"
    using assms(1,3,4,5) src dst ne user_put_ok [of cx "unat s" src']
      user_put_ok [of "put_resource (unat s) src' cx" "unat d" dst']
    by (simp add: linked_def)
  moreover have "env_of bits cr policy ?cx' = env_of bits cr policy cx"
    using assms(3,4) src dst ne by (simp add: env_of_def ids_update)
  ultimately show ?thesis unfolding simulated_def by blast
qed

lemma sim_transfer_create:
  assumes "linked cx xs" "s \<noteq> d" "unat s < length (cx_resources cx)" "unat d < length (cx_resources cx)"
    "slot_of (resource_data (cx_resources cx ! unat s)) = User b h l" "lock_unlock l s (cx_auth cx)"
    "adjust_user (\<lambda>b. checked_sub b a) m1 n1 (cx_resources cx ! unat s) = Inr src'"
    "init_user a (lock_id_hash cr l') l' (cx_resources cx ! unat d) = Inr dst'" "sha_32 cr" "lock_ok l'"
    "resource_id (cx_resources cx ! unat d) = derive_user_resource cr (lock_id_hash cr l')"
    "dp_min_create_balance policy \<le> a"
    "mark_created (unat d) (put_resource (unat d) dst' (put_resource (unat s) src' cx)) = Inr cx'"
  shows "simulated bits cr policy (Transfer s d a (Some l')) cx xs cx'"
proof -
  note src = debit_slot [OF assms(7,5)]
  note dst = init_user_slot [OF assms(8) length_lock_id_hash [OF assms(9)] assms(10)]
  note ne = unat_neq [OF assms(2)]
  let ?cx1 = "put_resource (unat s) src' cx"
  have ok1: "cx_ok ?cx1"
    using assms(1,3,5) src user_put_ok [of cx "unat s" src'] by (simp add: linked_def)
  have cx': "cx' = put_resource (unat d) dst' (?cx1\<lparr>cx_lifecycle := (cx_lifecycle ?cx1)[unat d := Live]\<rparr>)"
    using mark_created_Inr [OF assms(13)] by (simp add: put_resource_def)
  have "ledger_step (env_of bits cr policy cx) (abs cx xs) (Transfer s d a (Some l')) (abs cx' xs)"
    using ledger_step.transfer_create [of s d "slots_of (cx_resources cx)" b h l "env_of bits cr policy cx" a l']
      assms(2-6,11,12) src dst cx' by (simp add: abs_def slot_Empty address_of_def)
  moreover have "linked cx' xs"
    using assms(1,4) dst cx' created_ok [OF ok1, of "unat d" dst'] by (simp add: linked_def)
  moreover have "env_of bits cr policy cx' = env_of bits cr policy cx"
    using assms(3,4) src dst ne cx' by (simp add: env_of_def ids_update)
  ultimately show ?thesis unfolding simulated_def by blast
qed

lemma sim_transfer:
  assumes "apply_transfer cr policy s d a init cx = Inr cx'" "linked cx xs" "pred_option lock_ok init" "sha_32 cr"
  shows "simulated bits cr policy (Transfer s d a init) cx xs cx'"
proof -
  let ?S = "cx_resources cx ! unat s" and ?D = "cx_resources cx ! unat d"
  from assms(1) obtain create plan src' where t: "s \<noteq> d" "unat s < length (cx_resources cx)"
      "unat d < length (cx_resources cx)"
      "user_unlock ''transfer: source not a live user resource'' s (cx_auth cx) ?S = Inr True"
      "transfer_plan cr policy create ?D a init = Inr plan"
      "adjust_user (\<lambda>b. checked_sub b a) ''source: insufficient balance''
                    ''transfer: source not a live user resource'' ?S = Inr src'"
      and fin: "(case plan of
             Some (ilh, l) \<Rightarrow>
               rbind (decode_err (init_user a ilh l ?D)) (\<lambda>dst'.
               mark_created (unat d) (put_resource (unat d) dst' (put_resource (unat s) src' cx)))
           | None \<Rightarrow>
               rbind (adjust_user (\<lambda>b. checked_add b a) ''dest: balance overflow''
                        ''transfer: dest not a live user resource'' ?D) (\<lambda>dst'.
               Inr (put_resource (unat d) dst' (put_resource (unat s) src' cx)))) = Inr cx'"
    unfolding apply_transfer_def by (auto simp: Let_def not_le split: if_splits)
  from t(4) obtain b h l where src: "slot_of (resource_data ?S) = User b h l" "lock_unlock l s (cx_auth cx)"
    by (auto simp: user_unlock_Inr)
  show ?thesis
  proof (cases plan)
    case None
    with fin obtain dst' where "adjust_user (\<lambda>b. checked_add b a) ''dest: balance overflow''
        ''transfer: dest not a live user resource'' ?D = Inr dst'"
        "cx' = put_resource (unat d) dst' (put_resource (unat s) src' cx)" by auto
    then show ?thesis using sim_transfer_credit [OF assms(2) t(1-3) src t(6)] by simp
  next
    case (Some p)
    then obtain l' where l': "init = Some l'" "p = (lock_id_hash cr l', l')"
        "resource_id ?D = derive_user_resource cr (lock_id_hash cr l')" "dp_min_create_balance policy \<le> a"
      using t(5) by (auto simp: transfer_plan_Inr)
    with fin Some obtain dst' where d: "init_user a (lock_id_hash cr l') l' ?D = Inr dst'"
        "mark_created (unat d) (put_resource (unat d) dst' (put_resource (unat s) src' cx)) = Inr cx'" by auto
    have "lock_ok l'" using assms(3) l'(1) by simp
    then show ?thesis
      using sim_transfer_create [OF assms(2) t(1-3) src t(6) d(1) assms(4) _ l'(3,4) d(2)] l'(1) by simp
  qed
qed

lemma decide_credit_Inr:
  assumes "decide_credit cr policy t l v lc r = Inr k" "lc = life_of r"
  obtains (create) "resource_data r = []" "k = Create (lock_id_hash cr l)"
      "resource_id r = derive_user_resource cr (lock_id_hash cr l)" "dp_min_create_balance policy \<le> v"
    | (credit) b cl where "slot_of (resource_data r) = User b (lock_id_hash cr l) cl"
      "unat b + unat v < 2 ^ 64" "k = CreditExisting (b + v)"
proof (cases lc)
  case New
  then have "resource_data r = []" using assms(2) by (auto simp: life_of_def split: if_splits)
  with New assms(1) show thesis using create
    by (auto simp: decide_credit_def validate_user_create_Inr split: option.splits)
next
  case Live
  with assms(1) obtain u where u: "user_from_bytes (resource_data r) = Inr u"
      "ur_initial_lock_hash u = lock_id_hash cr l" "unat (ur_balance u) + unat v < 2 ^ 64"
      "k = CreditExisting (ur_balance u + v)"
    by (auto simp: decide_credit_def view_user_eq checked_add_Some split: option.splits sum.splits if_splits)
  from user_view_slot [OF u(1)] obtain cl
    where "slot_of (resource_data r) = User (ur_balance u) (ur_initial_lock_hash u) cl" by blast
  with u show thesis using credit by auto
next
  case Deleted
  with assms(1) show thesis by (simp add: decide_credit_def)
qed

lemma case_sum_Inr:
  "(case r of Inl e \<Rightarrow> f e | Inr x \<Rightarrow> g x) = Inr y \<longleftrightarrow>
    (\<exists>e. r = Inl e \<and> f e = Inr y) \<or> (\<exists>x. r = Inr x \<and> g x = Inr y)"
  by (cases r) auto

lemma apply_deposit_Inr:
  assumes "apply_deposit bits cr policy u i l cx = Inr cx'"
  shows "\<exists>c out t k dep. i \<notin> set (cx_consumed_outputs cx)
    \<and> scan_config cr cf_covenant_id (cx_resources cx) = Some c
    \<and> parse_output_at_index_v1 bits (tx_rest_preimage (cx_tx cx)) i = Inr out \<and> od_spk_version out = 0
    \<and> od_spk out = script_slice (dp_deposit_spk policy
        \<lparr>dj_body = \<lparr>db_user_idx = u, db_output_idx = i, db_initial_lock = l\<rparr>, dj_covenant_id = c\<rparr>)
    \<and> dp_credit_target policy \<lparr>db_user_idx = u, db_output_idx = i, db_initial_lock = l\<rparr> = Inr t
    \<and> unat (ct_user_idx t) < length (cx_resources cx)
    \<and> decide_credit cr policy t l (od_value out) (cx_lifecycle cx ! unat (ct_user_idx t))
        (cx_resources cx ! unat (ct_user_idx t)) = Inr k
    \<and> apply_credit (unat (ct_user_idx t)) (od_value out) l k
        (cx\<lparr>cx_deposit := dep, cx_consumed_outputs := cx_consumed_outputs cx @ [i]\<rparr>) = Inr cx'"
proof -
  from assms have i: "i \<notin> set (cx_consumed_outputs cx)" by (auto simp: apply_deposit_def)
  from assms i obtain c where c: "scan_config cr cf_covenant_id (cx_resources cx) = Some c"
    by (cases "scan_config cr cf_covenant_id (cx_resources cx)") (simp_all add: apply_deposit_def)
  from assms i c obtain out where out: "parse_output_at_index_v1 bits (tx_rest_preimage (cx_tx cx)) i = Inr out"
    by (cases "parse_output_at_index_v1 bits (tx_rest_preimage (cx_tx cx)) i") (simp_all add: apply_deposit_def)
  define body where "body = \<lparr>db_user_idx = u, db_output_idx = i, db_initial_lock = l\<rparr>"
  from assms i c out have spk: "od_spk_version out = 0"
      "od_spk out = script_slice (dp_deposit_spk policy \<lparr>dj_body = body, dj_covenant_id = c\<rparr>)"
    by (auto simp: apply_deposit_def Let_def body_def split: if_splits)
  from assms i c out spk obtain t k where t: "dp_credit_target policy body = Inr t"
      "unat (ct_user_idx t) < length (cx_resources cx)"
      "decide_credit cr policy t l (od_value out) (cx_lifecycle cx ! unat (ct_user_idx t))
        (cx_resources cx ! unat (ct_user_idx t)) = Inr k"
      and rest: "(case deposit_set (delegate_entry_spk_hash cr c) (cx_deposit cx) of
         Inl e \<Rightarrow> Inl (Fail e)
       | Inr deposit \<Rightarrow> apply_credit (unat (ct_user_idx t)) (od_value out) l k
           (cx\<lparr>cx_deposit := deposit, cx_consumed_outputs := cx_consumed_outputs cx @ [i]\<rparr>)) = Inr cx'"
    by (auto simp: apply_deposit_def Let_def not_le simp flip: body_def split: if_splits)
  from rest obtain dep where "apply_credit (unat (ct_user_idx t)) (od_value out) l k
      (cx\<lparr>cx_deposit := dep, cx_consumed_outputs := cx_consumed_outputs cx @ [i]\<rparr>) = Inr cx'"
    by (auto simp: case_sum_Inr)
  with i c out spk t show ?thesis unfolding body_def by blast
qed

lemma sim_deposit:
  assumes "apply_deposit bits cr policy u i l cx = Inr cx'" "linked cx xs" "lock_ok l" "sha_32 cr"
  shows "simulated bits cr policy (Deposit u i l) cx xs cx'"
proof -
  from apply_deposit_Inr [OF assms(1)] obtain c out t k dep where dp: "i \<notin> set (cx_consumed_outputs cx)"
    "scan_config cr cf_covenant_id (cx_resources cx) = Some c"
    "parse_output_at_index_v1 bits (tx_rest_preimage (cx_tx cx)) i = Inr out" "od_spk_version out = 0"
    "od_spk out = script_slice (dp_deposit_spk policy
        \<lparr>dj_body = \<lparr>db_user_idx = u, db_output_idx = i, db_initial_lock = l\<rparr>, dj_covenant_id = c\<rparr>)"
    "dp_credit_target policy \<lparr>db_user_idx = u, db_output_idx = i, db_initial_lock = l\<rparr> = Inr t"
    "unat (ct_user_idx t) < length (cx_resources cx)"
    "decide_credit cr policy t l (od_value out) (cx_lifecycle cx ! unat (ct_user_idx t))
        (cx_resources cx ! unat (ct_user_idx t)) = Inr k"
    "apply_credit (unat (ct_user_idx t)) (od_value out) l k
        (cx\<lparr>cx_deposit := dep, cx_consumed_outputs := cx_consumed_outputs cx @ [i]\<rparr>) = Inr cx'"
    by blast
  define j where "j = unat (ct_user_idx t)"
  define cx1 where "cx1 = cx\<lparr>cx_deposit := dep, cx_consumed_outputs := cx_consumed_outputs cx @ [i]\<rparr>"
  note j = dp(7) [folded j_def] and cr = dp(9) [folded j_def cx1_def]
  have ok: "cx_ok cx" "cx_ok cx1" using assms(2) by (simp_all add: linked_def cx1_def cx_ok_def)
  have fundd: "funded (env_of bits cr policy cx) (slots_of (cx_resources cx)) u i l out"
  proof -
    from scan_config_Some [OF dp(2)] obtain k m cl where "k < length (cx_resources cx)"
        "resource_id (cx_resources cx ! k) = config_resource_id cr"
        "slot_of (resource_data (cx_resources cx ! k)) = Config m c cl" by blast
    then show ?thesis using dp(3-5) unfolding funded_def
      by (auto intro!: exI [of _ k] exI [of _ m] exI [of _ c] exI [of _ cl])
  qed
  have creds: "credits (env_of bits cr policy cx) u i l j" using dp(6) by (simp add: credits_def j_def)

  from dp(8) [folded j_def] cx_ok_life [OF ok(1) j] show ?thesis
  proof (cases rule: decide_credit_Inr)
    case create
    from cr create(2) obtain cx2 r' where c2: "mark_created j cx1 = Inr cx2"
        "init_user (od_value out) (lock_id_hash cr l) l (cx_resources cx2 ! j) = Inr r'" "cx' = put_resource j r' cx2"
      by (auto simp: apply_credit_def)
    have cx2: "cx2 = cx1\<lparr>cx_lifecycle := (cx_lifecycle cx1)[j := Live]\<rparr>" using mark_created_Inr [OF c2(1)] by simp
    have r: "cx_resources cx2 ! j = cx_resources cx ! j" by (simp add: cx2 cx1_def)
    note r' = init_user_slot [OF c2(2) [unfolded r] length_lock_id_hash [OF assms(4)] assms(3)]
    have "ledger_step (env_of bits cr policy cx) (abs cx xs) (Deposit u i l) (abs cx' xs)"
      using ledger_step.deposit_create [OF _ fundd creds, of "cx_consumed_outputs cx"] dp(1) j create r' c2(3)
      by (simp add: abs_def slot_Empty address_of_def cx2 cx1_def)
    moreover have "linked cx' xs"
      using assms(2) r' c2(3) created_ok [OF ok(2), of j r'] j by (simp add: linked_def cx2 cx1_def)
    moreover have "env_of bits cr policy cx' = env_of bits cr policy cx"
      using j r' c2(3) by (simp add: env_of_def ids_update cx2 cx1_def)
    ultimately show ?thesis unfolding simulated_def by blast
  next
    case (credit b cl)
    have r: "cx_resources cx1 ! j = cx_resources cx ! j" by (simp add: cx1_def)
    from cr credit(3) obtain x r' where c2:
        "modify_user (\<lambda>v. ((), v\<lparr>ur_balance := b + od_value out\<rparr>)) (cx_resources cx ! j) = (Some x, r')"
        "cx' = put_resource j r' cx1"
      by (auto simp: apply_credit_def r split: prod.splits option.splits)
    note r' = set_balance_Some [OF c2(1) credit(1)]
    have "ledger_step (env_of bits cr policy cx) (abs cx xs) (Deposit u i l) (abs cx' xs)"
      using ledger_step.deposit [OF _ fundd creds, of "cx_consumed_outputs cx" b cl] dp(1) j credit r' c2(2)
      by (simp add: abs_def cx1_def)
    moreover have "linked cx' xs"
      using assms(2) r' c2(2) credit user_put_ok [OF ok(2), of j r'] j by (simp add: linked_def cx1_def)
    moreover have "env_of bits cr policy cx' = env_of bits cr policy cx"
      using j r' c2(2) by (simp add: env_of_def ids_update cx1_def)
    ultimately show ?thesis unfolding simulated_def by blast
  qed
qed

lemma action_simulated:
  assumes "apply_action bits cr policy a cx = Inr cx'" "linked cx xs" "action_ok (length (cx_resources cx)) a" "sha_32 cr"
  shows "simulated bits cr policy a cx xs cx'"
  using assms
  by (cases a) (auto intro: sim_update sim_init sim_transfer sim_update_user_lock sim_deposit sim_withdraw)

lemma env_length: "env_of bits cr policy cx' = env_of bits cr policy cx \<Longrightarrow> length (cx_resources cx') = length (cx_resources cx)"
  by (drule arg_cong [of _ _ "\<lambda>e. length (le_ids e)"]) simp

lemma actions_simulated:
  assumes "fold_r (apply_action bits cr policy) as cx = Inr cx'" "linked cx xs"
    "list_all (action_ok (length (cx_resources cx))) as" "sha_32 cr"
  shows "\<exists>xs'. ledger_run (env_of bits cr policy cx) (abs cx xs) as (abs cx' xs') \<and> linked cx' xs'
    \<and> env_of bits cr policy cx' = env_of bits cr policy cx"
  using assms(1-3)
proof (induction as arbitrary: cx xs)
  case Nil
  then show ?case by (auto intro: ledger_run.intros)
next
  case (Cons a as)
  from Cons.prems(1) obtain cx1 where cx1: "apply_action bits cr policy a cx = Inr cx1"
      "fold_r (apply_action bits cr policy) as cx1 = Inr cx'" by auto
  have "simulated bits cr policy a cx xs cx1"
    using action_simulated [OF cx1(1) Cons.prems(2) _ assms(4)] Cons.prems(3) by simp
  then obtain xs1 where s: "ledger_step (env_of bits cr policy cx) (abs cx xs) a (abs cx1 xs1)" "linked cx1 xs1"
      "env_of bits cr policy cx1 = env_of bits cr policy cx" unfolding simulated_def by blast
  have "list_all (action_ok (length (cx_resources cx1))) as"
    using Cons.prems(3) env_length [OF s(3)] by simp
  from Cons.IH [OF cx1(2) s(2) this] s show ?case by (auto intro: ledger_run.intros)
qed

subsection \<open>The decoder's promises\<close>

lemma read_resource_idx_Inr: "read_resource_idx f n buf = Inr (i, rest) \<longleftrightarrow> buf = i # rest \<and> unat i < n"
  by (auto simp: read_resource_idx_def rd_byte_Inr not_le split: if_splits)

lemma decode_action_ok: "decode_action n buf = Inr (a, rest) \<Longrightarrow> action_ok n a"
  unfolding decode_action_def decode_config_body_def decode_transfer_def decode_update_user_lock_def
    decode_deposit_def decode_withdraw_def
  by (auto simp: rd_byte_Inr read_resource_idx_Inr decode_lock_Inr rd_array_Inr spk_wire.dec_iff case_sum_Inr
      split: if_splits)

lemma rd_times_all: "rd_times n d buf = Inr (xs, rest) \<Longrightarrow> (\<And>b x r. d b = Inr (x, r) \<Longrightarrow> P x) \<Longrightarrow> list_all P xs"
  by (induction n arbitrary: buf xs) (auto split: prod.splits)

lemma decode_signers_sorted:
  "decode_signers n k prev buf = Inr (es, rest) \<Longrightarrow>
    sorted (map fst es) \<and> list_all (\<lambda>e. unat (fst e) < n) es \<and> (\<forall>p e. prev = Some p \<longrightarrow> e \<in> set es \<longrightarrow> p \<le> fst e)"
proof (induction k arbitrary: prev buf es)
  case (Suc k)
  from Suc.prems obtain e buf' es' where e: "es = e # es'" "unat (fst e) < n"
      "decode_signers n k (Some (fst e)) buf' = Inr (es', rest)"
      "case prev of Some p \<Rightarrow> p \<le> fst e | None \<Rightarrow> True"
    by (auto simp: not_le not_less split: if_splits prod.splits option.splits)
  from Suc.IH [OF e(3)] e show ?case by (auto split: option.splits)
qed simp

lemma decode_ix_Inr:
  assumes "decode_ix orig n = Inr ix"
  shows "sorted (map fst (ix_signers ix))" "list_all (\<lambda>s. unat (fst s) < n) (ix_signers ix)"
    "list_all (action_ok n) (ix_actions ix)" "ix_end_of_actions ix \<le> length orig"
proof -
  from assms obtain k b1 es b2 as b3 where ix: "decode_signers n k None b1 = Inr (es, b2)"
      "rd_many ''ix.actions'' (decode_action n) b2 = Inr (as, b3)"
      "ix = \<lparr>ix_signers = es, ix_actions = as, ix_end_of_actions = length orig - length b3\<rparr>"
    by (auto simp: decode_ix_def)
  from decode_signers_sorted [OF ix(1)] ix(3)
  show "sorted (map fst (ix_signers ix))" "list_all (\<lambda>s. unat (fst s) < n) (ix_signers ix)"
    "ix_end_of_actions ix \<le> length orig" by auto
  from ix(2) obtain m b where "rd_times m (decode_action n) b = Inr (as, b3)"
    by (auto simp: rd_many_def)
  then show "list_all (action_ok n) (ix_actions ix)"
    using rd_times_all [of m "decode_action n" b as b3 "action_ok n"] decode_action_ok ix(3) by auto
qed

subsection \<open>Properties of ledger runs\<close>

inductive_cases ledger_stepE: "ledger_step e g a g'"

text \<open>Value held by the users, in exact arithmetic.\<close>

fun slot_value :: "slot \<Rightarrow> nat" where
  "slot_value (User b h l) = unat b"
| "slot_value _ = 0"

definition held :: "slot list \<Rightarrow> nat" where
  "held slots = sum_list (map slot_value slots)"

definition exited :: "(standard_spk \<times> u64) list \<Rightarrow> nat" where
  "exited xs = sum_list (map (\<lambda>x. unat (snd x)) xs)"

text \<open>The value of a funding output of the transaction.\<close>

definition output_value :: "ledger_env \<Rightarrow> u32 \<Rightarrow> nat" where
  "output_value e i =
    (case parse_output_at_index_v1 (le_usize_bits e) (le_rest_preimage e) i of Inr out \<Rightarrow> unat (od_value out) | Inl _ \<Rightarrow> 0)"

definition deposited :: "ledger_env \<Rightarrow> u32 list \<Rightarrow> nat" where
  "deposited e us = sum_list (map (output_value e) us)"

lemma held_update: "i < length slots \<Longrightarrow> held (slots[i := s]) + slot_value (slots ! i) = held slots + slot_value s"
  unfolding held_def
proof (induction slots arbitrary: i)
  case (Cons t slots)
  then show ?case by (cases i) (use Cons.IH in force)+
qed simp

lemma held_update2:
  assumes "i < length slots" "j < length slots" "i \<noteq> j"
  shows "held (slots[i := s, j := t]) + slot_value (slots ! i) + slot_value (slots ! j)
    = held slots + slot_value s + slot_value t"
  using held_update [of i slots s] held_update [of j "slots[i := s]" t] assms by simp

lemma unat_sub64: "(a :: u64) \<le> b \<Longrightarrow> unat (b - a) = unat b - unat a"
  by (rule unat_sub)

lemma unat_add64: "unat (a :: u64) + unat b < 2 ^ 64 \<Longrightarrow> unat (a + b) = unat a + unat b"
  by (simp add: unat_word_ariths)

text \<open>One step neither creates nor destroys value.\<close>

lemma step_conserves:
  assumes "ledger_step e g a g'"
  shows "held (lg_slots g') + exited (lg_exits g') + deposited e (lg_consumed g)
    = held (lg_slots g) + exited (lg_exits g) + deposited e (lg_consumed g')"
  using assms
proof (cases rule: ledger_step.cases)
  case (transfer s d slots b h l a b' h' l' xs us init)
  then show ?thesis
    using held_update2 [of "unat s" slots "unat d" "User (b - a) h l" "User (b' + a) h' l'"] unat_neq [of s d]
      unat_sub64 [of a b] unat_add64 [of b' a] by (simp add: word_le_nat_alt)
next
  case (transfer_create s d slots b h l a l' xs us)
  then show ?thesis
    using held_update2 [of "unat s" slots "unat d" "User (b - a) h l" "User a (lock_id_hash (le_crypto e) l') l'"]
      unat_neq [of s d] unat_sub64 [of a b] by (simp add: word_le_nat_alt)
next
  case (rotate u slots b h l xs us l')
  then show ?thesis using held_update [of "unat u" slots "User b h l'"] by simp
next
  case (deposit i us slots u l out k b cl xs)
  then have "output_value e i = unat (od_value out)" by (simp add: funded_def output_value_def)
  then show ?thesis
    using deposit held_update [of k slots "User (b + od_value out) (lock_id_hash (le_crypto e) l) cl"]
      unat_add64 [of b "od_value out"] by (simp add: deposited_def)
next
  case (deposit_create i us slots u l out k xs)
  then have "output_value e i = unat (od_value out)" by (simp add: funded_def output_value_def)
  then show ?thesis
    using deposit_create held_update [of k slots "User (od_value out) (lock_id_hash (le_crypto e) l) l"]
    by (simp add: deposited_def)
next
  case (withdraw u slots b h l a k m c cl xs us dest)
  then show ?thesis
    using held_update [of "unat u" slots "User (b - a) h l"] unat_sub64 [of a b]
    by (simp add: exited_def word_le_nat_alt)
next
  case (update u slots m c l xs us m' l')
  then show ?thesis using held_update [of "unat u" slots "Config m' c l'"] by simp
next
  case (init u slots xs us m c l)
  then show ?thesis using held_update [of "unat u" slots "Config m c l"] by simp
qed

lemma run_conserves_value:
  "ledger_run e g as g' \<Longrightarrow>
    held (lg_slots g') + exited (lg_exits g') + deposited e (lg_consumed g)
    = held (lg_slots g) + exited (lg_exits g) + deposited e (lg_consumed g')"
proof (induction rule: ledger_run.induct)
  case (step_run g a g' as g'')
  then show ?case using step_conserves [OF step_run(1)] by simp
qed simp

lemma step_consumed_distinct: "ledger_step e g a g' \<Longrightarrow> distinct (lg_consumed g) \<Longrightarrow> distinct (lg_consumed g')"
  by (cases rule: ledger_step.cases) auto

lemma run_consumed_distinct: "ledger_run e g as g' \<Longrightarrow> distinct (lg_consumed g) \<Longrightarrow> distinct (lg_consumed g')"
  by (induction rule: ledger_run.induct) (auto dest: step_consumed_distinct)

text \<open>A user whose lock is not opened keeps its lock and address and loses nothing.\<close>

definition guarded :: "ledger_env \<Rightarrow> nat \<Rightarrow> u64 \<Rightarrow> bytes \<Rightarrow> lock_enum \<Rightarrow> ledger \<Rightarrow> bool" where
  "guarded e i b h l g \<longleftrightarrow> i < length (lg_slots g) \<and> i < 256 \<and> \<not> lock_unlock l (word_of_nat i) (le_auth e)
    \<and> (\<exists>b'. b \<le> b' \<and> lg_slots g ! i = User b' h l)"

lemma byte_index: "i < 256 \<Longrightarrow> i = unat u \<longleftrightarrow> word_of_nat i = (u :: byte)"
  by (auto simp: unat_of_nat)

lemma le_add_no_overflow: "unat (a :: u64) + unat b < 2 ^ 64 \<Longrightarrow> a \<le> a + b"
  by (simp add: word_le_nat_alt unat_add64)

lemma step_guarded: "ledger_step e g a g' \<Longrightarrow> guarded e i b h l g \<Longrightarrow> guarded e i b h l g'"
proof (cases rule: ledger_step.cases, assumption, goal_cases)
  case (1 s d slots b1 h1 l1 a b' h' l' xs us init)
  then show ?case
    using le_add_no_overflow [of b' a] byte_index [of i s]
    by (auto simp: guarded_def nth_list_update intro: order_trans)
next
  case (2 s d slots b1 h1 l1 a l' xs us)
  then show ?case using byte_index [of i s] by (auto simp: guarded_def nth_list_update)
next
  case (3 u slots b1 h1 l1 xs us l')
  then show ?case using byte_index [of i u] by (auto simp: guarded_def nth_list_update)
next
  case (4 i' us slots u l' out k b1 cl xs)
  then show ?case
    using le_add_no_overflow [of b1 "od_value out"] by (auto simp: guarded_def nth_list_update intro: order_trans)
next
  case (5 i' us slots u l' out k xs)
  then show ?case by (auto simp: guarded_def nth_list_update)
next
  case (6 u slots b1 h1 l1 a k m c cl xs us dest)
  then show ?case using byte_index [of i u] by (auto simp: guarded_def nth_list_update)
next
  case (7 u slots m c l1 xs us m' l')
  then show ?case by (auto simp: guarded_def nth_list_update)
next
  case (8 u slots xs us m c l1)
  then show ?case by (auto simp: guarded_def nth_list_update)
qed

lemma run_guarded: "ledger_run e g as g' \<Longrightarrow> guarded e i b h l g \<Longrightarrow> guarded e i b h l g'"
  by (induction rule: ledger_run.induct) (auto dest: step_guarded)

text \<open>Every user slot sits at the address derived from its initial lock hash; a config keeps its covenant.\<close>

definition bound :: "ledger_env \<Rightarrow> slot list \<Rightarrow> bool" where
  "bound e slots \<longleftrightarrow> (\<forall>i b h l. i < length slots \<longrightarrow> slots ! i = User b h l \<longrightarrow>
    le_ids e ! i = derive_user_resource (le_crypto e) h)"

lemma bound_update:
  "bound e slots \<Longrightarrow> (\<And>b h l. s = User b h l \<Longrightarrow> le_ids e ! i = derive_user_resource (le_crypto e) h) \<Longrightarrow>
    bound e (slots[i := s])"
proof (unfold bound_def, intro allI impI)
  fix j b h l
  assume *: "\<forall>i b h l. i < length slots \<longrightarrow> slots ! i = User b h l \<longrightarrow>
      le_ids e ! i = derive_user_resource (le_crypto e) h"
    and s: "\<And>b h l. s = User b h l \<Longrightarrow> le_ids e ! i = derive_user_resource (le_crypto e) h"
    and j: "j < length (slots[i := s])" "slots[i := s] ! j = User b h l"
  show "le_ids e ! j = derive_user_resource (le_crypto e) h"
  proof (cases "j = i")
    case True
    then show ?thesis using s [of b h l] j by simp
  next
    case False
    then have "slots ! j = User b h l" using j by simp
    then show ?thesis using * j by simp
  qed
qed

lemma bound_slot: "bound e slots \<Longrightarrow> i < length slots \<Longrightarrow> slots ! i = User b h l \<Longrightarrow>
    le_ids e ! i = derive_user_resource (le_crypto e) h"
  by (simp add: bound_def)

lemma step_bound: "ledger_step e g a g' \<Longrightarrow> bound e (lg_slots g) \<Longrightarrow> bound e (lg_slots g')"
  by (cases rule: ledger_step.cases) (auto intro!: bound_update simp: bound_slot address_of_def)

lemma run_bound: "ledger_run e g as g' \<Longrightarrow> bound e (lg_slots g) \<Longrightarrow> bound e (lg_slots g')"
  by (induction rule: ledger_run.induct) (auto dest: step_bound)

lemma step_covenant:
  "ledger_step e g a g' \<Longrightarrow> i < length (lg_slots g) \<Longrightarrow> lg_slots g ! i = Config m c l \<Longrightarrow>
    i < length (lg_slots g') \<and> (\<exists>m' l'. lg_slots g' ! i = Config m' c l')"
  by (cases rule: ledger_step.cases) (auto simp: nth_list_update)

lemma run_covenant:
  "ledger_run e g as g' \<Longrightarrow> i < length (lg_slots g) \<Longrightarrow> lg_slots g ! i = Config m c l \<Longrightarrow>
    \<exists>m' l'. lg_slots g' ! i = Config m' c l'"
proof (induction arbitrary: m l rule: ledger_run.induct)
  case (step_run g a g' as g'')
  then show ?case using step_covenant [OF step_run(1)] by blast
qed blast

end
