(* ===== verification/Runtime_Spec.thy ===== *)
theory Runtime_Spec
  imports Runtime_Ledger
begin

text \<open>
  Properties of the runtime program's entry point \<open>run\<close>
  (\<open>zk/backend/risc0/runtime-processor/src/runtime.rs\<close>): it refines the ledger, conserves value,
  never touches a balance whose lock is closed, keeps addresses and the covenant bound, never
  panics, and grants authority only for valid signatures or spent outputs.
\<close>

named_theorems safe_intros
named_theorems calm_intros

subsection \<open>What a run resolves\<close>

definition fresh :: "resource list \<Rightarrow> bool" where
  "fresh rs \<longleftrightarrow> list_all (\<lambda>r. r_is_new r \<longleftrightarrow> resource_data r = []) rs"

definition run_context :: "transaction \<Rightarrow> resource list \<Rightarrow> decoded_ix \<Rightarrow> resolve_context" where
  "run_context tx rs ix =
    \<lparr>rc_payload_bytes = pl_bytes (tx_payload tx), rc_current_rest_preimage = tx_rest_preimage tx,
     rc_resources = rs,
     rc_payload_presig = take (length (pl_bytes (tx_payload tx)) - length (pl_ix_data (tx_payload tx))
       + ix_end_of_actions ix) (pl_bytes (tx_payload tx))\<rparr>"

definition run_env :: "nat \<Rightarrow> crypto \<Rightarrow> deposit_policy \<Rightarrow> transaction \<Rightarrow> resource list \<Rightarrow> auth_context \<Rightarrow> ledger_env" where
  "run_env bits cr policy tx rs auth = \<lparr>le_usize_bits = bits, le_crypto = cr, le_policy = policy,
     le_ids = map resource_id rs, le_auth = auth, le_rest_preimage = tx_rest_preimage tx\<rparr>"

lemma run_unfold:
  "run bits cr policy tx rs exits dep =
    (case decode_ix (pl_ix_data (tx_payload tx)) (length rs) of
       Inl e \<Rightarrow> Inl (Fail (error_of_codec e))
     | Inr ix \<Rightarrow> rbind (resolve_signers bits cr (ix_signers ix) (run_context tx rs ix)) (\<lambda>auth.
         fold_r (apply_action bits cr policy) (ix_actions ix) (apply_context_new tx rs auth exits dep)))"
  by (simp add: run_def run_context_def Let_def split: sum.split)

lemma new_linked: "fresh rs \<Longrightarrow> linked (apply_context_new tx rs auth exit_sink_new dep) []"
  by (auto simp: linked_def cx_ok_def apply_context_new_def exit_sink_new_def fresh_def list_all_iff
      lifecycle_from_resource_def life_of_def)

lemma new_env: "env_of bits cr policy (apply_context_new tx rs auth exits dep) = run_env bits cr policy tx rs auth"
  by (simp add: env_of_def run_env_def apply_context_new_def)

lemma new_resources: "cx_resources (apply_context_new tx rs auth exits dep) = rs"
  by (simp add: apply_context_new_def)

lemma linked_exits: "linked cx xs \<Longrightarrow> exits_iter (es_buf (cx_exits cx)) = Inr xs"
  by (simp add: linked_def exits_iter_def exit_wire.entries_round_trip)

text \<open>A run that decodes \<open>ix\<close>, resolves \<open>auth\<close>, emits \<open>xs\<close> and ends in \<open>cx\<close> is a run of the ledger.\<close>

definition ledger_result ::
  "nat \<Rightarrow> crypto \<Rightarrow> deposit_policy \<Rightarrow> transaction \<Rightarrow> resource list \<Rightarrow> decoded_ix \<Rightarrow> auth_context
    \<Rightarrow> (standard_spk \<times> u64) list \<Rightarrow> apply_context \<Rightarrow> bool" where
  "ledger_result bits cr policy tx rs ix auth xs cx \<longleftrightarrow>
    decode_ix (pl_ix_data (tx_payload tx)) (length rs) = Inr ix
    \<and> resolve_signers bits cr (ix_signers ix) (run_context tx rs ix) = Inr auth
    \<and> ledger_run (run_env bits cr policy tx rs auth)
       \<lparr>lg_slots = slots_of rs, lg_exits = [], lg_consumed = []\<rparr> (ix_actions ix)
       \<lparr>lg_slots = slots_of (cx_resources cx), lg_exits = xs, lg_consumed = cx_consumed_outputs cx\<rparr>
    \<and> exits_iter (es_buf (cx_exits cx)) = Inr xs
    \<and> map resource_id (cx_resources cx) = map resource_id rs"

lemma run_simulated:
  assumes "run bits cr policy tx rs exit_sink_new dep = Inr cx" "fresh rs" "sha_32 cr"
  shows "\<exists>ix auth xs. ledger_result bits cr policy tx rs ix auth xs cx"
proof -
  from assms(1) obtain ix where ix: "decode_ix (pl_ix_data (tx_payload tx)) (length rs) = Inr ix"
    by (auto simp: run_unfold case_sum_Inr)
  with assms(1) obtain auth where auth: "resolve_signers bits cr (ix_signers ix) (run_context tx rs ix) = Inr auth"
      "fold_r (apply_action bits cr policy) (ix_actions ix) (apply_context_new tx rs auth exit_sink_new dep) = Inr cx"
    by (auto simp: run_unfold)
  let ?cx0 = "apply_context_new tx rs auth exit_sink_new dep"
  have "list_all (action_ok (length (cx_resources ?cx0))) (ix_actions ix)"
    using decode_ix_Inr(3) [OF ix] by (simp add: new_resources)
  from actions_simulated [OF auth(2) new_linked [OF assms(2)] this assms(3)]
  obtain xs where xs: "ledger_run (run_env bits cr policy tx rs auth) (abs ?cx0 []) (ix_actions ix) (abs cx xs)"
      "linked cx xs" "env_of bits cr policy cx = env_of bits cr policy ?cx0"
    unfolding new_env by blast
  from arg_cong [OF xs(3), of le_ids] have "map resource_id (cx_resources cx) = map resource_id rs"
    by (simp add: new_resources)
  moreover have "abs ?cx0 [] = \<lparr>lg_slots = slots_of rs, lg_exits = [], lg_consumed = []\<rparr>"
    by (simp add: abs_def apply_context_new_def)
  ultimately have "ledger_result bits cr policy tx rs ix auth xs cx"
    using ix auth(1) xs(1) linked_exits [OF xs(2)] by (simp add: ledger_result_def abs_def)
  then show ?thesis by blast
qed

lemma ledger_resultD:
  assumes "ledger_result bits cr policy tx rs ix auth xs cx"
  shows "decode_ix (pl_ix_data (tx_payload tx)) (length rs) = Inr ix"
    "resolve_signers bits cr (ix_signers ix) (run_context tx rs ix) = Inr auth"
    "ledger_run (run_env bits cr policy tx rs auth)
       \<lparr>lg_slots = slots_of rs, lg_exits = [], lg_consumed = []\<rparr> (ix_actions ix)
       \<lparr>lg_slots = slots_of (cx_resources cx), lg_exits = xs, lg_consumed = cx_consumed_outputs cx\<rparr>"
    "exits_iter (es_buf (cx_exits cx)) = Inr xs" "length (cx_resources cx) = length rs"
  using assms by (auto simp: ledger_result_def dest: map_eq_imp_length_eq)

text \<open>C5: Refinement.  A successful run of the program is a run of the ledger: the typed contents
  of the slots before and after, the exits read back from the sink and the consumed funding
  outputs are related by the decoded actions, each doing what its ledger step allows, under the
  authority resolved from the signers.\<close>

theorem run_refines_ledger:
  assumes "run bits cr policy tx rs exit_sink_new dep = Inr cx" and "fresh rs" and "sha_32 cr"
  shows "\<exists>ix auth xs. decode_ix (pl_ix_data (tx_payload tx)) (length rs) = Inr ix
    \<and> resolve_signers bits cr (ix_signers ix) (run_context tx rs ix) = Inr auth
    \<and> ledger_run (run_env bits cr policy tx rs auth)
       \<lparr>lg_slots = slots_of rs, lg_exits = [], lg_consumed = []\<rparr> (ix_actions ix)
       \<lparr>lg_slots = slots_of (cx_resources cx), lg_exits = xs, lg_consumed = cx_consumed_outputs cx\<rparr>
    \<and> exits_iter (es_buf (cx_exits cx)) = Inr xs"
proof -
  from run_simulated [OF assms] obtain ix auth xs
    where r: "ledger_result bits cr policy tx rs ix auth xs cx" by blast
  show ?thesis by (intro exI conjI) (rule ledger_resultD [OF r])+
qed

text \<open>C2: Conservation.  A successful run creates and destroys no value: what the users hold
  afterwards plus what left as exits equals what they held before plus the values of the funding
  outputs it consumed, in exact arithmetic, and no funding output is consumed twice.\<close>

theorem run_conserves:
  assumes "run bits cr policy tx rs exit_sink_new dep = Inr cx" and "fresh rs" and "sha_32 cr"
  shows "distinct (cx_consumed_outputs cx) \<and> (\<exists>xs. exits_iter (es_buf (cx_exits cx)) = Inr xs
    \<and> held (slots_of (cx_resources cx)) + exited xs
      = held (slots_of rs) + deposited (run_env bits cr policy tx rs auth) (cx_consumed_outputs cx))"
proof -
  from run_simulated [OF assms] obtain ix auth' xs
    where r: "ledger_result bits cr policy tx rs ix auth' xs cx" by blast
  have "output_value (run_env bits cr policy tx rs auth) = output_value (run_env bits cr policy tx rs auth')"
    by (intro ext) (simp add: output_value_def run_env_def)
  then have "deposited (run_env bits cr policy tx rs auth) = deposited (run_env bits cr policy tx rs auth')"
    by (intro ext) (simp add: deposited_def)
  then have "held (slots_of (cx_resources cx)) + exited xs
      = held (slots_of rs) + deposited (run_env bits cr policy tx rs auth) (cx_consumed_outputs cx)"
    using run_conserves_value [OF ledger_resultD(3) [OF r]]
    by (simp add: exited_def deposited_def [of _ "[]"])
  with ledger_resultD(4) [OF r] run_consumed_distinct [OF ledger_resultD(3) [OF r]] show ?thesis by simp
qed

text \<open>C7: No debit without the lock.  A user whose current lock the resolved authority does not
  open ends a successful run with the same lock, the same address and at least its balance.\<close>

theorem closed_lock_protects:
  assumes "run bits cr policy tx rs exit_sink_new dep = Inr cx" and "fresh rs" and "sha_32 cr"
    and "decode_ix (pl_ix_data (tx_payload tx)) (length rs) = Inr ix"
    and "resolve_signers bits cr (ix_signers ix) (run_context tx rs ix) = Inr auth"
    and "unat i < length rs" and "slot_of (resource_data (rs ! unat i)) = User b h l"
    and "\<not> lock_unlock l i auth"
  shows "\<exists>b'. b \<le> b' \<and> slot_of (resource_data (cx_resources cx ! unat i)) = User b' h l"
proof -
  from run_simulated [OF assms(1-3)] obtain ix' auth' xs
    where r: "ledger_result bits cr policy tx rs ix' auth' xs cx" by blast
  have "ix' = ix" using ledger_resultD(1) [OF r] assms(4) by simp
  moreover from this have "auth' = auth" using ledger_resultD(2) [OF r] assms(5) by simp
  ultimately have r: "ledger_result bits cr policy tx rs ix auth xs cx" using r by simp
  have "guarded (run_env bits cr policy tx rs auth) (unat i) b h l
      \<lparr>lg_slots = slots_of rs, lg_exits = [], lg_consumed = []\<rparr>"
    using assms(6-8) unat_byte_bound [of i] by (simp add: guarded_def run_env_def)
  from run_guarded [OF ledger_resultD(3) [OF r] this] show ?thesis
    using assms(6) ledger_resultD(5) [OF r] by (auto simp: guarded_def)
qed

text \<open>C18: Binding.  When every user record sits at the address derived from its initial lock hash,
  a successful run keeps it so, whatever users it creates, and a config keeps its covenant id.\<close>

theorem run_keeps_bindings:
  assumes "run bits cr policy tx rs exit_sink_new dep = Inr cx" and "fresh rs" and "sha_32 cr"
    and "bound (run_env bits cr policy tx rs auth) (slots_of rs)"
  shows "bound (run_env bits cr policy tx rs auth) (slots_of (cx_resources cx))
    \<and> (\<forall>i m c l. i < length rs \<longrightarrow> slot_of (resource_data (rs ! i)) = Config m c l \<longrightarrow>
      (\<exists>m' l'. slot_of (resource_data (cx_resources cx ! i)) = Config m' c l'))"
proof -
  from run_simulated [OF assms(1-3)] obtain ix auth' xs
    where r: "ledger_result bits cr policy tx rs ix auth' xs cx" by blast
  have "bound (run_env bits cr policy tx rs auth') = bound (run_env bits cr policy tx rs auth)"
    by (intro ext) (simp add: bound_def run_env_def)
  then have "bound (run_env bits cr policy tx rs auth) (slots_of (cx_resources cx))"
    using run_bound [OF ledger_resultD(3) [OF r]] assms(4) by simp
  moreover have "\<exists>m' l'. slot_of (resource_data (cx_resources cx ! i)) = Config m' c l'"
    if "i < length rs" "slot_of (resource_data (rs ! i)) = Config m c l" for i m c l
    using run_covenant [OF ledger_resultD(3) [OF r], of i m c l] that ledger_resultD(5) [OF r] by simp
  ultimately show ?thesis by blast
qed

subsection \<open>No panics\<close>

definition safe :: "abi_fault + 'a \<Rightarrow> bool" where
  "safe r \<longleftrightarrow> (\<forall>m. r \<noteq> Inl (Crash m))"

definition calm :: "fault + 'a \<Rightarrow> bool" where
  "calm r \<longleftrightarrow> (\<forall>m. r \<noteq> Inl (Panic m))"

lemma safe_simps [safe_intros]:
  "safe (Inr x)" "safe (fail m)" "safe (Inl (Fail e))" "safe (decode_err r)"
  by (simp_all add: safe_def fail_def decode_err_def split: sum.splits)

lemma safe_at [safe_intros]: "i < length xs \<Longrightarrow> safe (at xs i)"
  by (simp add: safe_def at_def)

lemma safe_rbind [safe_intros]: "safe r \<Longrightarrow> (\<And>x. r = Inr x \<Longrightarrow> safe (f x)) \<Longrightarrow> safe (rbind r f)"
  by (cases r) (auto simp: safe_def)

lemma safe_if [safe_intros]: "(b \<Longrightarrow> safe x) \<Longrightarrow> (\<not> b \<Longrightarrow> safe y) \<Longrightarrow> safe (if b then x else y)"
  by simp

lemma safe_option [safe_intros]:
  "safe x \<Longrightarrow> (\<And>v. r = Some v \<Longrightarrow> safe (f v)) \<Longrightarrow> safe (case r of None \<Rightarrow> x | Some v \<Rightarrow> f v)"
  by (cases r) auto

lemma safe_sum [safe_intros]:
  "(\<And>v. r = Inl v \<Longrightarrow> safe (f v)) \<Longrightarrow> (\<And>v. r = Inr v \<Longrightarrow> safe (g v)) \<Longrightarrow> safe (case r of Inl v \<Rightarrow> f v | Inr v \<Rightarrow> g v)"
  by (cases r) auto

lemma safe_prod [safe_intros]: "(\<And>a b. p = (a, b) \<Longrightarrow> safe (f a b)) \<Longrightarrow> safe (case p of (a, b) \<Rightarrow> f a b)"
  by (cases p) auto

lemma safe_Let [safe_intros]: "safe (f x) \<Longrightarrow> safe (let y = x in f y)"
  by simp

lemma safe_user_unlock [safe_intros]: "safe (user_unlock m i auth r)"
proof (cases "user_from_bytes (resource_data r)")
  case (Inr u)
  from user_view_slot [OF Inr] obtain l where "user_lock u = Some l" by blast
  with Inr show ?thesis by (simp add: user_unlock_def view_user_eq safe_def)
qed (simp add: user_unlock_def view_user_eq safe_simps)

lemma safe_adjust_user [safe_intros]: "safe (adjust_user f m n r)"
  unfolding adjust_user_def by (auto simp: safe_simps split: prod.splits option.splits sum.splits)

lemma safe_mark_created [safe_intros]: "i < length (cx_lifecycle cx) \<Longrightarrow> safe (mark_created i cx)"
  unfolding mark_created_def by (intro safe_intros)

lemma safe_transfer_plan [safe_intros]: "safe (transfer_plan cr policy c d a i)"
  unfolding transfer_plan_def validate_user_create_def by (intro safe_intros)

lemma safe_write_new_state [safe_intros]: "safe (write_new_state m c l r)"
  unfolding write_new_state_def by (intro safe_intros)

lemma safe_transfer:
  assumes "cx_ok cx" "unat d < length (cx_resources cx)"
  shows "safe (apply_transfer cr policy s d a i cx)"
proof -
  have "safe (case lc of New \<Rightarrow> Inr True | Live \<Rightarrow> Inr False | Deleted \<Rightarrow> fail m)" for lc m
    by (cases lc) (simp_all add: safe_simps)
  then show ?thesis unfolding apply_transfer_def using assms
    by (intro safe_intros) (auto simp: cx_ok_length)
qed

lemma safe_update_user_lock: "unat u < length (cx_resources cx) \<Longrightarrow> safe (apply_update_user_lock u l cx)"
  unfolding apply_update_user_lock_def by (intro safe_intros)

lemma safe_update:
  assumes "cx_ok cx" "unat u < length (cx_resources cx)"
  shows "safe (apply_update cr u m c l cx)"
proof -
  have life: "safe (case lc of Live \<Rightarrow> Inr () | New \<Rightarrow> fail m1 | Deleted \<Rightarrow> fail m2)" for lc m1 m2
    by (cases lc) (simp_all add: safe_simps)
  have lock: "safe (ok_or (config_lock v) x)" if "config_from_bytes bs = Inr v" for bs v x
    using config_rec.view_lock_safe [OF that] by (auto simp: safe_def)
  show ?thesis unfolding apply_update_def using assms
    by (intro safe_intros life) (auto simp: cx_ok_length intro: lock)
qed

lemma safe_init: "cx_ok cx \<Longrightarrow> unat u < length (cx_resources cx) \<Longrightarrow> safe (apply_init cr u m c l cx)"
  unfolding apply_init_def by (intro safe_intros) (auto simp: cx_ok_length)

lemma safe_decide_credit [safe_intros]: "safe (decide_credit cr policy t l v lc r)"
proof -
  have "safe (validate_user_create cr i l f m)" for i f m
    unfolding validate_user_create_def by (intro safe_intros)
  then show ?thesis unfolding decide_credit_def by (cases lc) (auto intro!: safe_intros)
qed

lemma safe_apply_credit:
  assumes "i < length (cx_resources cx)" "i < length (cx_lifecycle cx)"
  shows "safe (apply_credit i v l k cx)"
proof -
  have "i < length (cx_resources cx')" if "mark_created i cx = Inr cx'" for cx'
    using mark_created_Inr [OF that] assms by auto
  then show ?thesis unfolding apply_credit_def using assms
    by (cases k) (auto intro!: safe_intros)
qed

lemma safe_deposit: "cx_ok cx \<Longrightarrow> safe (apply_deposit bits cr policy u i l cx)"
  unfolding apply_deposit_def
  by (intro safe_intros safe_apply_credit) (auto simp: cx_ok_length)

lemma safe_withdraw: "unat u < length (cx_resources cx) \<Longrightarrow> safe (apply_withdraw cr u a d cx)"
  unfolding apply_withdraw_def by (intro safe_intros) auto

lemma safe_action:
  "cx_ok cx \<Longrightarrow> action_ok (length (cx_resources cx)) a \<Longrightarrow> safe (apply_action bits cr policy a cx)"
  by (cases a) (auto intro: safe_transfer safe_update_user_lock safe_update safe_init safe_deposit safe_withdraw)

lemma safe_actions:
  assumes "linked cx xs" "list_all (action_ok (length (cx_resources cx))) as" "sha_32 cr"
  shows "safe (fold_r (apply_action bits cr policy) as cx)"
  using assms(1,2)
proof (induction as arbitrary: cx xs)
  case Nil
  then show ?case by (simp add: safe_simps)
next
  case (Cons a as)
  have "safe (fold_r (apply_action bits cr policy) as cx1)" if a: "apply_action bits cr policy a cx = Inr cx1" for cx1
  proof -
    have "simulated bits cr policy a cx xs cx1"
      using action_simulated [OF a Cons.prems(1) _ assms(3)] Cons.prems(2) by simp
    then obtain xs1 where "linked cx1 xs1" "env_of bits cr policy cx1 = env_of bits cr policy cx"
      unfolding simulated_def by blast
    then show ?thesis using Cons.IH [of cx1 xs1] Cons.prems(2) env_length [of bits cr policy cx1 cx] by simp
  qed
  moreover have "safe (apply_action bits cr policy a cx)"
    using Cons.prems by (intro safe_action) (simp_all add: linked_def)
  ultimately show ?case by (simp add: safe_rbind)
qed

lemma calm_simps [calm_intros]: "calm (Inr x)" "calm (Inl (Err e))" "calm (lift_err r)"
  by (cases r; simp add: calm_def)+

lemma calm_ok_or [calm_intros]: "calm (ok_or r (Err e))" "r \<noteq> None \<Longrightarrow> calm (ok_or r x)"
  by (cases r; auto simp: calm_def)+

lemma calm_rbind [calm_intros]: "calm r \<Longrightarrow> (\<And>x. calm (f x)) \<Longrightarrow> calm (rbind r f)"
  by (cases r) (auto simp: calm_def)

lemma calm_if [calm_intros]: "calm x \<Longrightarrow> calm y \<Longrightarrow> calm (if b then x else y)"
  by simp

lemma calm_sum [calm_intros]:
  "(\<And>v. r = Inl v \<Longrightarrow> calm (f v)) \<Longrightarrow> (\<And>v. r = Inr v \<Longrightarrow> calm (g v)) \<Longrightarrow> calm (case r of Inl v \<Rightarrow> f v | Inr v \<Rightarrow> g v)"
  by (cases r) auto

lemma calm_Let [calm_intros]: "calm (f x) \<Longrightarrow> calm (let y = x in f y)"
  by simp

lemma calm_read_lock [calm_intros]: "calm (read_lock i ctx)"
  unfolding read_lock_def
  by (intro calm_intros) (blast dest: config_rec.view_lock_safe user_rec.view_lock_safe)+

lemma calm_read_keys [calm_intros]:
  "calm (read_schnorr_lock_pubkey i ctx)" "calm (read_multisig_lock_pubkey_at i pk ctx)"
proof -
  have "calm (case l of SchnorrLock k \<Rightarrow> Inr k | _ \<Rightarrow> Inl (Err e))" for l e
    by (cases l) (simp_all add: calm_simps)
  then show "calm (read_schnorr_lock_pubkey i ctx)"
    unfolding read_schnorr_lock_pubkey_def by (intro calm_rbind calm_read_lock) blast
  show "calm (read_multisig_lock_pubkey_at i pk ctx)"
    unfolding read_multisig_lock_pubkey_at_def
  proof (intro calm_rbind calm_read_lock)
    fix l
    show "calm (case l of
      MultisigLock threshold pubkeys \<Rightarrow>
        if multisig_n_pubkeys pubkeys \<le> pk
        then Inl (Err (Decode ''signer.multisig_schnorr: pubkey_idx out of range''))
        else ok_or (chunk_at (unat pk * 32) 32 pubkeys)
               (Err (Decode ''signer.multisig_schnorr: pubkey slice oob''))
    | _ \<Rightarrow> Inl (Err (Decode ''signer.multisig_schnorr: target resource is not a Multisig lock'')))"
      by (cases l) (auto intro: calm_intros)
  qed
qed

lemma calm_resolve:
  "calm (schnorr_sig_ptr_resolve cr off i ctx)" "calm (genesis_schnorr_sig_ptr_resolve cr off i ctx)"
  "calm (prev_tx_v1_witness_resolve bits cr w ctx)" "calm (multisig_schnorr_sig_ptr_resolve cr pk off i ctx)"
  "calm (multisig_prev_tx_v1_witness_resolve bits cr w ctx)"
  unfolding schnorr_sig_ptr_resolve_def genesis_schnorr_sig_ptr_resolve_def prev_tx_v1_witness_resolve_def
    multisig_schnorr_sig_ptr_resolve_def multisig_prev_tx_v1_witness_resolve_def
  by (intro calm_intros)+

lemma safe_abi_of_fault: "calm r \<Longrightarrow> safe (abi_of_fault r)"
  by (auto simp: calm_def safe_def abi_of_fault_def split: sum.splits fault.splits)

lemma safe_resolve_signers: "safe (resolve_signers bits cr ss ctx)"
proof -
  have step: "safe (resolve_signer bits cr ctx s auth)" for s auth
    unfolding resolve_signer_def push_schnorr_def push_multisig_def
    by (auto intro!: safe_rbind safe_abi_of_fault calm_resolve safe_simps split: prod.splits signer_enum.splits)
  have "safe (fold_r (resolve_signer bits cr ctx) ss auth)" for auth
    by (induction ss arbitrary: auth) (auto intro: safe_rbind step safe_simps)
  then show ?thesis by (simp add: resolve_signers_def)
qed


subsection \<open>Authority is backed by signatures or spent outputs\<close>

text \<open>The payload carries a valid signature of \<open>k\<close> over the signed message of this transaction.\<close>

definition signed_by :: "crypto \<Rightarrow> resolve_context \<Rightarrow> bytes \<Rightarrow> bool" where
  "signed_by cr ctx k \<longleftrightarrow>
    (\<exists>off sig. chunk_at off 64 (rc_payload_bytes ctx) = Some sig \<and> cr_schnorr cr k sig (sig_msg cr ctx))"

text \<open>An input of this transaction spends a pay-to-key output of \<open>k\<close>.\<close>

definition spent_by :: "nat \<Rightarrow> crypto \<Rightarrow> resolve_context \<Rightarrow> bytes \<Rightarrow> bool" where
  "spent_by bits cr ctx k \<longleftrightarrow> (\<exists>i prev j rest digest out.
    parse_input_outpoint_at bits (rc_current_rest_preimage ctx) i = Inr (prev, j)
    \<and> tx_id_v1_from_digest cr digest rest = prev \<and> parse_output_at_index_v1 bits rest j = Inr out
    \<and> extract_p2pk_pubkey (od_spk out) = Some k)"

definition backed :: "nat \<Rightarrow> crypto \<Rightarrow> resolve_context \<Rightarrow> bytes \<Rightarrow> bool" where
  "backed bits cr ctx k \<longleftrightarrow> signed_by cr ctx k \<or> spent_by bits cr ctx k"

definition auth_backed :: "nat \<Rightarrow> crypto \<Rightarrow> resolve_context \<Rightarrow> auth_context \<Rightarrow> bool" where
  "auth_backed bits cr ctx auth \<longleftrightarrow>
    (\<forall>e \<in> set (ac_schnorr auth). backed bits cr ctx (su_pubkey (snd e)))
    \<and> (\<forall>e \<in> set (ac_multisig auth). \<forall>k \<in> set (mu_pubkeys (snd e)). backed bits cr ctx k)"

lemma lift_err_Inr: "lift_err r = Inr x \<longleftrightarrow> r = Inr x"
  by (cases r) auto

lemma signed_byI:
  "read_sig_at_offset off ctx = Inr sig \<Longrightarrow> cr_schnorr cr k sig (sig_msg cr ctx) \<Longrightarrow> signed_by cr ctx k"
  unfolding read_sig_at_offset_def signed_by_def
  by (cases "chunk_at (unat off) 64 (rc_payload_bytes ctx)") auto

lemma recover_witness_spent: "recover_witness_pubkey bits cr w ctx = Inr k \<Longrightarrow> spent_by bits cr ctx k"
proof -
  assume "recover_witness_pubkey bits cr w ctx = Inr k"
  then obtain rest digest where "recover_prev_tx_v1_p2pk_pubkey bits cr (rc_current_rest_preimage ctx)
      (wp_input_idx w) rest digest = Inr (Some k)"
    by (auto simp: recover_witness_pubkey_def Let_def ok_or_def split: option.splits if_splits)
  then obtain prev j out where
      "parse_input_outpoint_at bits (rc_current_rest_preimage ctx) (ucast (wp_input_idx w)) = Inr (prev, j)"
      "tx_id_v1_from_digest cr digest rest = prev" "parse_output_at_index_v1 bits rest j = Inr out"
      "extract_p2pk_pubkey (od_spk out) = Some k"
    by (auto simp: recover_prev_tx_v1_p2pk_pubkey_def split: if_splits)
  then show ?thesis unfolding spent_by_def by blast
qed

lemma resolve_schnorr_backed:
  "schnorr_sig_ptr_resolve cr off i ctx = Inr u \<Longrightarrow> backed bits cr ctx (su_pubkey u)"
  "genesis_schnorr_sig_ptr_resolve cr off i ctx = Inr u \<Longrightarrow> backed bits cr ctx (su_pubkey u)"
  "prev_tx_v1_witness_resolve bits cr w ctx = Inr u \<Longrightarrow> backed bits cr ctx (su_pubkey u)"
  unfolding backed_def
  by (auto simp: schnorr_sig_ptr_resolve_def genesis_schnorr_sig_ptr_resolve_def prev_tx_v1_witness_resolve_def
      lift_err_Inr split: if_splits intro: signed_byI recover_witness_spent)

lemma resolve_multisig_backed:
  "multisig_schnorr_sig_ptr_resolve cr pk off i ctx = Inr u' \<Longrightarrow> k \<in> set (mu_pubkeys u') \<Longrightarrow> backed bits cr ctx k"
  "multisig_prev_tx_v1_witness_resolve bits cr w ctx = Inr u' \<Longrightarrow> k \<in> set (mu_pubkeys u') \<Longrightarrow> backed bits cr ctx k"
  unfolding backed_def
  by (auto simp: multisig_schnorr_sig_ptr_resolve_def multisig_prev_tx_v1_witness_resolve_def
      lift_err_Inr split: if_splits intro: signed_byI recover_witness_spent)

lemma abi_of_fault_Inr: "abi_of_fault r = Inr x \<longleftrightarrow> r = Inr x"
  by (auto simp: abi_of_fault_def split: sum.splits fault.splits)

lemma append_contrib_keys:
  assumes "e \<in> set (append_multisig_contrib i u b)" "k \<in> set (mu_pubkeys (snd e))"
  shows "k \<in> set (mu_pubkeys u) \<or> (\<exists>e' \<in> set b. k \<in> set (mu_pubkeys (snd e')))"
proof (cases "b \<noteq> [] \<and> fst (last b) = i")
  case True
  with assms have "e \<in> set (butlast b) \<or> k \<in> set (mu_pubkeys (snd (last b))) \<or> k \<in> set (mu_pubkeys u)"
    by (auto simp: append_multisig_contrib_def)
  then show ?thesis using True assms(2) by (metis in_set_butlastD last_in_set)
next
  case False
  with assms show ?thesis by (auto simp: append_multisig_contrib_def split: if_splits)
qed

lemma push_backed:
  "push_schnorr i auth r = Inr auth' \<Longrightarrow> auth_backed bits cr ctx auth \<Longrightarrow>
    (\<And>u. r = Inr u \<Longrightarrow> backed bits cr ctx (su_pubkey u)) \<Longrightarrow> auth_backed bits cr ctx auth'"
  "push_multisig i auth r' = Inr auth' \<Longrightarrow> auth_backed bits cr ctx auth \<Longrightarrow>
    (\<And>u k. r' = Inr u \<Longrightarrow> k \<in> set (mu_pubkeys u) \<Longrightarrow> backed bits cr ctx k) \<Longrightarrow> auth_backed bits cr ctx auth'"
  by (auto simp: push_schnorr_def push_multisig_def abi_of_fault_Inr auth_backed_def dest!: append_contrib_keys)

lemma resolve_signer_backed:
  assumes "resolve_signer bits cr ctx s auth = Inr auth'" "auth_backed bits cr ctx auth"
  shows "auth_backed bits cr ctx auth'"
  using assms
  by (auto simp: resolve_signer_def split: prod.splits signer_enum.splits
      elim!: push_backed dest: resolve_schnorr_backed resolve_multisig_backed)

lemma resolve_signers_backed: "resolve_signers bits cr ss ctx = Inr auth \<Longrightarrow> auth_backed bits cr ctx auth"
  unfolding resolve_signers_def
  by (erule fold_r_invariant [where P = "auth_backed bits cr ctx"])
    (auto simp: auth_backed_def auth_default_def dest: resolve_signer_backed [unfolded auth_backed_def])

lemma slice_subset: "set (slice_for_resource b i) \<subseteq> set b"
  by (auto simp: slice_for_resource_def Let_def dest: in_set_dropD in_set_takeD)

fun keys_backed :: "nat \<Rightarrow> crypto \<Rightarrow> resolve_context \<Rightarrow> lock_enum \<Rightarrow> bool" where
  "keys_backed bits cr ctx (SchnorrLock k) = backed bits cr ctx k"
| "keys_backed bits cr ctx (MultisigLock t ks) \<longleftrightarrow>
    (\<exists>K \<subseteq> set (iter_pubkeys ks). unat t \<le> card K \<and> (\<forall>k \<in> K. backed bits cr ctx k))"
| "keys_backed bits cr ctx UnlockedLock = True"

lemma unlock_backed:
  assumes "auth_backed bits cr ctx auth" "lock_ok l" "lock_unlock l i auth"
  shows "keys_backed bits cr ctx l"
proof (cases l)
  case (SchnorrLock k)
  define s where "s = slice_for_resource (ac_schnorr auth) i"
  have "length s = 1" "su_pubkey (snd (s ! 0)) = k"
    using assms(3) SchnorrLock by (auto simp: schnorr_try_unlock_def Let_def s_def split: if_splits)
  moreover from this have "s ! 0 \<in> set (ac_schnorr auth)"
    using slice_subset [of "ac_schnorr auth" i] nth_mem [of 0 s] by (auto simp: s_def)
  ultimately show ?thesis using assms(1) SchnorrLock by (auto simp: auth_backed_def)
next
  case (MultisigLock t ks)
  define s where "s = slice_for_resource (ac_multisig auth) i"
  define C where "C = mu_pubkeys (snd (s ! 0))"
  have walk: "length s = 1" "sorted_wrt (<) C" "merge_walk t (iter_pubkeys ks) C 0"
    using assms(3) MultisigLock
    by (auto simp: multisig_try_unlock_def Let_def s_def C_def is_strictly_ascending_sorted split: if_splits)
  note ok = multisig_lock_okD [OF assms(2) [unfolded MultisigLock]]
  have "unat t \<le> card (set (iter_pubkeys ks) \<inter> set C)"
    using merge_walk_count [OF ok(4) walk(2), of 0 t] walk(3) ok(3) by simp
  moreover have "s ! 0 \<in> set (ac_multisig auth)"
    using walk(1) slice_subset [of "ac_multisig auth" i] nth_mem [of 0 s] by (auto simp: s_def)
  ultimately show ?thesis using assms(1) MultisigLock
    by (auto simp: auth_backed_def C_def intro!: exI [of _ "set (iter_pubkeys ks) \<inter> set C"])
qed simp

text \<open>C9: Authority.  A lock that the resolved signers open is backed: a single-key lock by a valid
  signature of its key over this transaction or by a spent output that pays the key, a multisig
  lock by that many distinct keys of its own, each so backed.\<close>

theorem unlock_needs_authority:
  assumes "resolve_signers bits cr ss ctx = Inr auth" and "lock_ok l" and "lock_unlock l i auth"
  shows "keys_backed bits cr ctx l"
  using unlock_backed [OF resolve_signers_backed [OF assms(1)] assms(2,3)] .

end
