(* ===== verification/Runtime_Demo.thy ===== *)
theory Runtime_Demo
  imports Runtime_Spec "HOL-Library.Code_Target_Nat"
begin

text \<open>
  A concrete transaction of the runtime program, with toy primitives: a config, a signed user that
  pays a new user and withdraws, a deposit to the new user, and a bystander whose lock stays
  closed.  The witnesses of the properties of \<open>run\<close> evaluate it.
\<close>

definition demo_hash :: "bytes \<Rightarrow> bytes" where
  "demo_hash m = take 32 (rev m @ replicate 32 0)"

definition demo_crypto :: crypto where
  "demo_crypto = \<lparr>cr_sha256 = demo_hash, cr_blake3 = (\<lambda>k m. demo_hash (k @ m)), cr_blake2b = demo_hash,
     cr_schnorr = (\<lambda>k s m. take 32 s = k)\<rparr>"

definition demo_key :: "byte \<Rightarrow> bytes" where "demo_key b = replicate 32 b"
definition demo_covenant :: bytes where "demo_covenant = replicate 32 9"

definition demo_resource :: "bytes \<Rightarrow> bytes \<Rightarrow> resource" where
  "demo_resource i d = \<lparr>r_access_metadata = am_write i, r_backing = d, r_promoted = None, r_index = 0,
     r_is_new = (d = []), r_dirty = False\<rparr>"

definition demo_user :: "u64 \<Rightarrow> lock_enum \<Rightarrow> resource" where
  "demo_user b l = demo_resource (derive_user_resource demo_crypto (lock_id_hash demo_crypto l))
     (user_bytes b (lock_id_hash demo_crypto l) l)"

definition demo_resources :: "resource list" where
  "demo_resources =
    [demo_resource (config_resource_id demo_crypto) (config_bytes 500 demo_covenant UnlockedLock),
     demo_user 5000 (SchnorrLock (demo_key 4)),
     demo_resource (derive_user_resource demo_crypto (lock_id_hash demo_crypto UnlockedLock)) [],
     demo_user 77 (SchnorrLock (demo_key 5))]"

definition demo_actions :: bytes where
  "demo_actions = wr_u32_le 3 @
    [0x03, 1, 2] @ wr_u64_le 1500 @ [1] @ lock_encode UnlockedLock @
    [0x05, 2] @ wr_u32_le 0 @ lock_encode UnlockedLock @
    [0x06, 1] @ wr_u64_le 700 @ spk_encode (PubKey (demo_key 7))"

definition demo_ix :: bytes where
  "demo_ix = wr_u32_le 1 @ [1, 0x01] @ wr_u32_le (word_of_nat (10 + length demo_actions)) @ demo_actions
     @ demo_key 4 @ replicate 32 0"

definition demo_rest :: bytes where
  "demo_rest = wr_u16_le 1 @ wr_u64_le 0 @ wr_u64_le 1 @ wr_u64_le 300 @ wr_u16_le 0 @ wr_u64_le 35
     @ script_slice (to_script_bytes (ScriptHash (delegate_entry_spk_hash demo_crypto demo_covenant))) @ [0]"

definition demo_tx :: transaction where
  "demo_tx = \<lparr>tx_payload = \<lparr>pl_bytes = demo_ix, pl_access_metadata = [], pl_ix_data = demo_ix\<rparr>,
     tx_rest_preimage = demo_rest\<rparr>"

definition demo_run :: "abi_fault + apply_context" where
  "demo_run = run 32 demo_crypto (example_deposit_policy demo_crypto) demo_tx demo_resources
     exit_sink_new deposit_sink_new"

lemma demo_ok: "is_ok demo_run"
  by code_simp

definition demo_final :: apply_context where
  "demo_final = (case demo_run of Inr cx \<Rightarrow> cx | Inl _ \<Rightarrow>
     apply_context_new demo_tx [] auth_default exit_sink_new deposit_sink_new)"

definition demo_decoded :: decoded_ix where
  "demo_decoded = (case decode_ix demo_ix 4 of Inr ix \<Rightarrow> ix | Inl _ \<Rightarrow>
     \<lparr>ix_signers = [], ix_actions = [], ix_end_of_actions = 0\<rparr>)"

definition demo_auth :: auth_context where
  "demo_auth = (case resolve_signers 32 demo_crypto (ix_signers demo_decoded)
     (run_context demo_tx demo_resources demo_decoded) of Inr a \<Rightarrow> a | Inl _ \<Rightarrow> auth_default)"

lemma demo_runs:
  "run 32 demo_crypto (example_deposit_policy demo_crypto) demo_tx demo_resources exit_sink_new deposit_sink_new
    = Inr demo_final"
  using demo_ok by (simp add: demo_run_def demo_final_def is_ok_iff) (metis sum.simps(6))

lemma demo_decodes: "decode_ix (pl_ix_data (tx_payload demo_tx)) (length demo_resources) = Inr demo_decoded"
proof -
  have "is_ok (decode_ix demo_ix 4)" by code_simp
  moreover have "length demo_resources = 4" by (simp add: demo_resources_def)
  ultimately show ?thesis by (auto simp: demo_decoded_def demo_tx_def is_ok_iff)
qed

lemma demo_resolves:
  "resolve_signers 32 demo_crypto (ix_signers demo_decoded) (run_context demo_tx demo_resources demo_decoded)
    = Inr demo_auth"
proof -
  have "is_ok (resolve_signers 32 demo_crypto (ix_signers demo_decoded)
     (run_context demo_tx demo_resources demo_decoded))" by code_simp
  then show ?thesis by (auto simp: demo_auth_def is_ok_iff)
qed

lemma demo_fresh: "fresh demo_resources"
  by (simp add: fresh_def demo_resources_def demo_user_def demo_resource_def resource_data_def)

lemma demo_sha: "sha_32 demo_crypto"
  by (simp add: sha_32_def demo_crypto_def demo_hash_def min_def)

lemma demo_unlocks:
  "lock_unlock (SchnorrLock (demo_key 4)) 1 demo_auth" "\<not> lock_unlock (SchnorrLock (demo_key 5)) 3 demo_auth"
  by code_simp+

lemma demo_slot: "slot_of (resource_data (demo_resources ! 3)) =
    User 77 (lock_id_hash demo_crypto (SchnorrLock (demo_key 5))) (SchnorrLock (demo_key 5))"
  by (simp add: demo_resources_def demo_user_def demo_resource_def resource_data_def slot_user_bytes
      length_lock_id_hash demo_sha demo_key_def)

theorem run_refines_ledger_witness:
  "\<exists>ix auth xs. decode_ix (pl_ix_data (tx_payload demo_tx)) (length demo_resources) = Inr ix
    \<and> resolve_signers 32 demo_crypto (ix_signers ix) (run_context demo_tx demo_resources ix) = Inr auth
    \<and> ledger_run (run_env 32 demo_crypto (example_deposit_policy demo_crypto) demo_tx demo_resources auth)
       \<lparr>lg_slots = slots_of demo_resources, lg_exits = [], lg_consumed = []\<rparr> (ix_actions ix)
       \<lparr>lg_slots = slots_of (cx_resources demo_final), lg_exits = xs,
        lg_consumed = cx_consumed_outputs demo_final\<rparr>
    \<and> exits_iter (es_buf (cx_exits demo_final)) = Inr xs"
  using run_refines_ledger [OF demo_runs demo_fresh demo_sha] .

theorem run_conserves_witness:
  "distinct (cx_consumed_outputs demo_final) \<and> (\<exists>xs. exits_iter (es_buf (cx_exits demo_final)) = Inr xs
    \<and> held (slots_of (cx_resources demo_final)) + exited xs
      = held (slots_of demo_resources) + deposited (run_env 32 demo_crypto (example_deposit_policy demo_crypto)
          demo_tx demo_resources auth_default) (cx_consumed_outputs demo_final))"
  using run_conserves [OF demo_runs demo_fresh demo_sha] .

theorem closed_lock_protects_witness:
  "\<exists>b'. 77 \<le> b' \<and> slot_of (resource_data (cx_resources demo_final ! 3)) =
    User b' (lock_id_hash demo_crypto (SchnorrLock (demo_key 5))) (SchnorrLock (demo_key 5))"
proof -
  have "unat (3 :: byte) = 3" by simp
  moreover have "unat (3 :: byte) < length demo_resources" by (simp add: demo_resources_def)
  ultimately show ?thesis
    using closed_lock_protects [OF demo_runs demo_fresh demo_sha demo_decodes demo_resolves, of 3]
      demo_slot demo_unlocks(2) by metis
qed

theorem run_keeps_bindings_witness:
  "bound (run_env 32 demo_crypto (example_deposit_policy demo_crypto) demo_tx demo_resources demo_auth)
     (slots_of (cx_resources demo_final))"
proof -
  have "bound (run_env 32 demo_crypto (example_deposit_policy demo_crypto) demo_tx demo_resources demo_auth)
      (slots_of demo_resources)"
    unfolding bound_def run_env_def slots_of_def demo_resources_def demo_user_def demo_resource_def
    by (auto simp: resource_data_def nth_Cons' slot_user_bytes slot_config_bytes length_lock_id_hash demo_sha
        demo_key_def demo_covenant_def slot_of_def [of "[]"] resource_id_def am_write_def split: if_splits)
  from run_keeps_bindings [OF demo_runs demo_fresh demo_sha this] show ?thesis by blast
qed


theorem unlock_needs_authority_witness:
  "keys_backed 32 demo_crypto (run_context demo_tx demo_resources demo_decoded) (SchnorrLock (demo_key 4))"
  using unlock_needs_authority [OF demo_resolves, of "SchnorrLock (demo_key 4)" 1] demo_unlocks(1)
  by (simp add: demo_key_def)

end
