(* ===== verification/Tx_Journal.thy ===== *)
theory Tx_Journal
  imports ABI_Transaction "HOL-Library.Code_Target_Nat"
begin

text \<open>
  What a transaction proof says: the journal that \<open>process_transaction\<close> writes decodes to the
  inputs and the outcome it was written for, and agrees with the storage operations streamed to
  the host.
\<close>

subsection \<open>Wire formats of the journal\<close>

fun orc_bytes :: "output_resource_commitment \<Rightarrow> bytes" where
  "orc_bytes (Changed h) = 0x01 # h"
| "orc_bytes Unchanged = [0x00]"

fun orc_ok :: "output_resource_commitment \<Rightarrow> bool" where
  "orc_ok (Changed h) \<longleftrightarrow> length h = 32"
| "orc_ok Unchanged \<longleftrightarrow> True"

interpretation orc_wire: abi_codec orc_bytes orc_decode orc_ok
proof unfold_locales
  fix buf c rest
  show "orc_decode buf = Inr (c, rest) \<longleftrightarrow> orc_ok c \<and> buf = orc_bytes c @ rest"
    by (cases buf; cases c) (auto simp: orc_decode_def rd_array_Inr)
next
  show "orc_ok c \<Longrightarrow> orc_bytes c \<noteq> []" for c by (cases c) auto
qed

fun op_bytes :: "bytes option \<Rightarrow> bytes" where
  "op_bytes (Some d) = 1 # write_blob d"
| "op_bytes None = [0]"

interpretation op_wire: wire_codec op_bytes storage_op_decode "\<lambda>p. case p of Some d \<Rightarrow> length d < 2 ^ 32 | None \<Rightarrow> True"
proof unfold_locales
  fix p rest
  show "case p of Some d \<Rightarrow> length d < 2 ^ 32 | None \<Rightarrow> True \<Longrightarrow> storage_op_decode (op_bytes p @ rest) = Inr (p, rest)"
    by (cases p) (auto simp: storage_op_decode_def rd_bool_def)
qed

definition irc_of :: "(bytes \<Rightarrow> bytes) \<Rightarrow> resource \<Rightarrow> input_resource_commitment" where
  "irc_of hash_data r = \<lparr>irc_resource_index = r_index r, irc_resource_id = resource_id r,
     irc_hash = data_hash hash_data (resource_data r)\<rparr>"

definition irc_bytes :: "input_resource_commitment \<Rightarrow> bytes" where
  "irc_bytes c = wr_u32_le (irc_resource_index c) @ irc_resource_id c @ irc_hash c"

lemma irc_cast_bytes:
  "length (irc_resource_id c) = 32 \<Longrightarrow> irc_cast (irc_bytes c) = Inr c"
  using word_bytes_bound(2) [of "irc_resource_index c"]
  by (cases c) (simp add: irc_cast_def irc_bytes_def wr_u32_le_def le_nat_le_bytes)

lemma irc_encode_bytes: "irc_encode hash_data w r = w @ irc_bytes (irc_of hash_data r)"
  by (simp add: irc_encode_def irc_bytes_def irc_of_def)

subsection \<open>What a journal commits to\<close>

text \<open>The storage operation of a resource, and the commitment that stands for it.\<close>

definition op_of :: "resource \<Rightarrow> bytes option" where
  "op_of r = (if r_dirty r then Some (resource_data r) else None)"

definition op_commitment :: "(bytes \<Rightarrow> bytes) \<Rightarrow> bytes option \<Rightarrow> output_resource_commitment" where
  "op_commitment hash_data p = (case p of Some d \<Rightarrow> Changed (data_hash hash_data d) | None \<Rightarrow> Unchanged)"

definition commitment_of_inputs :: "(bytes \<Rightarrow> bytes) \<Rightarrow> tx_inputs \<Rightarrow> input_commitment" where
  "commitment_of_inputs hash_data i =
    \<lparr>ic_version = in_version i, ic_tx_id = in_tx_id i, ic_merge_idx = in_merge_idx i,
     ic_execution_context = map_option (\<lambda>e. \<lparr>ec_context_hash = ei_context_hash e,
       ec_resources = map (irc_of hash_data) (ei_resources e)\<rparr>) (in_execution_input i)\<rparr>"

definition result_ok :: "abi_error + effects \<Rightarrow> bool" where
  "result_ok r = (case r of
     Inr e \<Rightarrow> length (es_buf (ef_exits e)) < 2 ^ 32 \<and> length (ef_deposit_spk_hash e) = 32
       \<and> list_all (\<lambda>r. length (resource_data r) < 2 ^ 32) (ef_resources e)
   | Inl err \<Rightarrow> error_ok err)"

definition inputs_ok :: "tx_inputs \<Rightarrow> bool" where
  "inputs_ok i \<longleftrightarrow> length (in_tx_id i) = 32 \<and> (in_version i = V1 \<longleftrightarrow> in_execution_input i \<noteq> None)
    \<and> (case in_execution_input i of None \<Rightarrow> True
       | Some e \<Rightarrow> length (ei_context_hash e) = 32 \<and> length (ei_resources e) < 2 ^ 32
           \<and> list_all (\<lambda>r. length (resource_id r) = 32) (ei_resources e))"

lemma orc_encode_bytes: "orc_encode hash_data r = orc_bytes (op_commitment hash_data (op_of r))"
  by (simp add: orc_encode_def op_commitment_def op_of_def)

lemma storage_op_encode_bytes: "storage_op_encode r = op_bytes (op_of r)"
  by (simp add: storage_op_encode_def op_of_def)

lemma length_data_hash: "\<forall>d. length (hash_data d) = 32 \<Longrightarrow> length (data_hash hash_data d) = 32"
  by (simp add: data_hash_def EMPTY_HASH_def split: list.splits)

lemma op_commitment_ok: "\<forall>d. length (hash_data d) = 32 \<Longrightarrow> orc_ok (op_commitment hash_data p)"
  by (simp add: op_commitment_def length_data_hash split: option.splits)

lemma output_commitment_round_trip:
  assumes "result_ok r"
  shows "output_commitment_decode (output_commitment_encode hash_data r) = Inr (case r of
      Inr e \<Rightarrow> Success (es_buf (ef_exits e)) (ef_deposit_spk_hash e) (concat (map (orc_encode hash_data) (ef_resources e)))
    | Inl err \<Rightarrow> Failure err)"
proof (cases r)
  case (Inl err)
  then show ?thesis
    using assms error_wire.dec_enc [of err "[]"]
    by (simp add: output_commitment_decode_def output_commitment_encode_def result_ok_def)
next
  case (Inr e)
  then show ?thesis
    using assms by (simp add: output_commitment_decode_def output_commitment_encode_def result_ok_def rd_array_append)
qed

lemma orcs_round_trip:
  assumes "\<forall>d. length (hash_data d) = 32"
  shows "output_resource_commitments (concat (map (orc_encode hash_data) rs)) = Inr (map (\<lambda>r. op_commitment hash_data (op_of r)) rs)"
  using orc_wire.entries_round_trip [of "map (\<lambda>r. op_commitment hash_data (op_of r)) rs"] op_commitment_ok [OF assms]
  by (simp add: output_resource_commitments_def orc_encode_bytes [abs_def] comp_def list_all_iff)

lemma outputs_round_trip:
  assumes "result_ok r"
  shows "outputs_decode (outputs_encode r) (case r of Inr e \<Rightarrow> length (ef_resources e) | Inl _ \<Rightarrow> n)
    = (case r of Inr e \<Rightarrow> Inr (map op_of (ef_resources e)) | Inl err \<Rightarrow> Inl err)"
proof (cases r)
  case (Inl err)
  then show ?thesis
    using assms error_wire.dec_enc [of err "[]"] by (simp add: outputs_decode_def outputs_encode_def result_ok_def)
next
  case (Inr e)
  have "rd_times (length (map op_of (ef_resources e))) storage_op_decode (concat (map op_bytes (map op_of (ef_resources e))) @ [])
      = Inr (map op_of (ef_resources e), [])"
    by (rule op_wire.times_round_trip) (use assms Inr in \<open>auto simp: result_ok_def op_of_def list_all_iff\<close>)
  then show ?thesis
    using Inr by (simp add: outputs_decode_def outputs_encode_def storage_op_encode_bytes [abs_def] comp_def)
qed

lemma input_commitment_round_trip:
  assumes hd: "\<forall>d. length (hash_data d) = 32" and i: "inputs_ok i"
    and len: "length (input_commitment_encode hash_data i) < 2 ^ usize_bits"
  shows "input_commitment_decode usize_bits (input_commitment_encode hash_data i @ rest) = Inr (commitment_of_inputs hash_data i, rest)"
proof (cases "in_execution_input i")
  case None
  then show ?thesis
    using i by (simp add: input_commitment_decode_def input_commitment_encode_def inputs_ok_def commitment_of_inputs_def)
next
  case (Some e)
  let ?cs = "map (irc_of hash_data) (ei_resources e)"
  have ctx: "execution_context_encode hash_data e = ei_context_hash e @ write_slice irc_bytes ?cs"
    using encode_many_concat [of "irc_encode hash_data" "\<lambda>r. irc_bytes (irc_of hash_data r)" "ei_resources e" "ei_context_hash e"]
    by (simp add: execution_context_encode_def irc_encode_bytes write_many_def write_slice_def comp_def)
  have l: "length (irc_bytes c) = 68" if "c \<in> set ?cs" for c
    using that i Some length_data_hash [OF hd]
    by (auto simp: inputs_ok_def irc_bytes_def irc_of_def wr_u32_le_def list_all_iff)
  have "length (concat (map irc_bytes ?cs)) = length (map irc_bytes ?cs) * 68"
    by (rule length_concat_const) (use l in auto)
  then have sz: "length ?cs * 68 < 2 ^ usize_bits"
    using len Some by (simp add: input_commitment_encode_def ctx write_slice_def)
  have "rd_slice_as usize_bits 68 irc_cast ''resources'' (write_slice irc_bytes ?cs @ rest) = Inr (?cs, rest)"
    by (rule rd_slice_as_write_slice [OF _ sz l]) (use i Some in \<open>auto simp: inputs_ok_def irc_cast_bytes irc_of_def list_all_iff\<close>)
  then show ?thesis
    using i Some by (simp add: input_commitment_decode_def input_commitment_encode_def inputs_ok_def
        execution_context_decode_def ctx commitment_of_inputs_def)
qed

subsection \<open>Decoded inputs\<close>

lemma chunks_length: "length xs = n * sz \<Longrightarrow> x \<in> set (chunks sz n xs) \<Longrightarrow> length x = sz"
proof (induction n arbitrary: xs)
  case (Suc n)
  then show ?case using Suc.IH [of "drop sz xs"] by auto
qed simp

lemma am_decode_slice_ids:
  assumes "am_decode_slice usize_bits cast_error buf = Inr (ams, rest)"
  shows "length ams < 2 ^ 32 \<and> list_all (\<lambda>a. length (am_resource_id a) = 32) ams"
proof -
  have s: "rd_slice_as usize_bits 33 (am_cast cast_error) ''access_metadata'' buf = Inr (ams, rest)"
    using assms by (auto simp: am_decode_slice_def split: if_splits)
  then obtain bs where bs: "length ams < 2 ^ 32" "length bs = length ams * 33"
      "map_r (am_cast cast_error) (chunks 33 (length ams) bs) = Inr ams"
    using rd_slice_as_Inr by blast
  have "length (am_resource_id (ams ! i)) = 32" if i: "i < length ams" for i
  proof -
    obtain t where t: "\<lparr>am_resource_id = take 32 (chunks 33 (length ams) bs ! i), am_access_type = t\<rparr> = ams ! i"
      using map_r_nth [OF bs(3), of i] i by (auto simp: am_cast_def split: sum.splits)
    show ?thesis
      unfolding t [symmetric] using chunks_length [OF bs(2), of "chunks 33 (length ams) bs ! i"] i by simp
  qed
  then show ?thesis using bs(1) by (simp add: list_all_length)
qed

lemma resources_decode_ids:
  "resources_decode ams buf = Inr (rs, rest) \<Longrightarrow> map r_access_metadata rs = ams"
  by (induction ams arbitrary: buf rs) (auto simp: resource_decode_def)

lemma inputs_decode_ok:
  assumes "inputs_decode usize_bits cast_error buf = Inr i"
  shows "inputs_ok i"
proof -
  have e: "length (ei_context_hash e) = 32 \<and> length (ei_resources e) < 2 ^ 32 \<and> list_all (\<lambda>r. length (resource_id r) = 32) (ei_resources e)"
    if "execution_input_decode usize_bits cast_error b = Inr e" for b e
    using that
    by (auto simp: execution_input_decode_def transaction_decode_def payload_decode_def rd_array_Inr
        resource_id_def list_all_iff dest!: am_decode_slice_ids resources_decode_ids)
  from assms show ?thesis
    using e by (auto simp: inputs_decode_def inputs_ok_def rd_array_Inr split: if_splits)
qed

subsection \<open>Property\<close>

text \<open>C14: when the guest returns for a decoded input, the journal it committed decodes to exactly
  the version, transaction id, merge index and per-resource input commitments of that input; for a
  successful run the per-resource output commitments of the journal are the commitments of the
  storage operations streamed to the host, one per resource and in order, and for a failed run
  journal and stream carry the same error; the id of a supported transaction is the id derived
  from its bytes.\<close>

theorem journal_agrees:
  assumes "inputs_decode usize_bits cast_error buf = Inr i" "run_handler cr f i = Inr r" "result_ok r"
    and "\<forall>d. length (hash_data d) = 32"
    and "process_transaction usize_bits cast_error cr hash_data f buf = Inr (journal, stream)"
    and "length journal < 2 ^ usize_bits"
  shows "\<exists>je. journal_entries_decode usize_bits journal = Inr je
    \<and> je_input_commitment je = commitment_of_inputs hash_data i
    \<and> (case r of
         Inr e \<Rightarrow> \<exists>ops orcs. je_output_commitment je = Success (es_buf (ef_exits e)) (ef_deposit_spk_hash e) orcs
           \<and> outputs_decode stream (length (ef_resources e)) = Inr ops
           \<and> output_resource_commitments orcs = Inr (map (op_commitment hash_data) ops)
       | Inl err \<Rightarrow> je_output_commitment je = Failure err \<and> outputs_decode stream 0 = Inl err)
    \<and> (case in_execution_input i of Some e \<Rightarrow> in_tx_id i = transaction_id cr (ei_tx e) | None \<Rightarrow> in_version i \<noteq> V1)"
proof -
  let ?ic = "input_commitment_encode hash_data i" and ?oc = "output_commitment_encode hash_data r"
  have j: "journal = ?ic @ ?oc" "stream = outputs_encode r"
    using assms(1,2,5) by (auto simp: process_transaction_def)
  have ok: "inputs_ok i" using assms(1) by (rule inputs_decode_ok)
  have "input_commitment_decode usize_bits journal = Inr (commitment_of_inputs hash_data i, ?oc)"
    unfolding j by (rule input_commitment_round_trip [OF assms(4) ok]) (use assms(6) j in simp)
  moreover note output_commitment_round_trip [OF assms(3), of hash_data]
  moreover have "case in_execution_input i of Some e \<Rightarrow> in_tx_id i = transaction_id cr (ei_tx e) | None \<Rightarrow> in_version i \<noteq> V1"
    using ok assms(2) by (auto simp: inputs_ok_def run_handler_def split: option.splits if_splits)
  ultimately show ?thesis
    using outputs_round_trip [OF assms(3), of 0] orcs_round_trip [OF assms(4)] j(2)
    by (cases r) (auto simp: journal_entries_decode_def comp_def)
qed

definition plain_crypto :: crypto where
  "plain_crypto = \<lparr>cr_sha256 = (\<lambda>_. replicate 32 0), cr_blake3 = (\<lambda>_ _. replicate 32 0),
     cr_blake2b = (\<lambda>_. replicate 32 0), cr_schnorr = (\<lambda>_ _ _. False)\<rparr>"

definition clear_handler :: handler where
  "clear_handler = (\<lambda>_ _ _ rs exits deposit. Inr (map (resource_resize 0) rs, exits, deposit))"

definition small_input :: bytes where
  "small_input = wr_u16_le V1 @ replicate 32 0 @ wr_u32_le 3 @ replicate 32 4
    @ transaction_encode (write_slice am_bytes [am_write (replicate 32 5)]) [] @ resource_encode (0, [9])"

definition small_resource :: resource where
  "small_resource = \<lparr>r_access_metadata = am_write (replicate 32 5), r_backing = [9], r_promoted = None,
     r_index = 0, r_is_new = False, r_dirty = False\<rparr>"

theorem journal_agrees_witness:
  "\<exists>journal stream je orcs.
    process_transaction 64 '''' plain_crypto (\<lambda>d. replicate 32 7) clear_handler small_input = Inr (journal, stream)
    \<and> journal_entries_decode 64 journal = Inr je
    \<and> je_output_commitment je = Success [] ZERO_HASH orcs
    \<and> output_resource_commitments orcs = Inr [Changed EMPTY_HASH]
    \<and> outputs_decode stream 1 = Inr [Some []]"
proof -
  let ?p = "process_transaction 64 '''' plain_crypto (\<lambda>d. replicate 32 7) clear_handler small_input"
  have d: "map_sum id (\<lambda>i. (in_version i, in_tx_id i, in_merge_idx i, map_option ei_resources (in_execution_input i)))
        (inputs_decode 64 '''' small_input) = Inr (V1, replicate 32 0, 3, Some [small_resource])"
    by code_simp
  then obtain i e where i: "inputs_decode 64 '''' small_input = Inr i" "in_version i = V1"
      "in_tx_id i = replicate 32 0" "in_execution_input i = Some e" "ei_resources e = [small_resource]"
    by (cases "inputs_decode 64 '''' small_input") auto
  have r: "run_handler plain_crypto clear_handler i = Inr (Inr \<lparr>ef_exits = exit_sink_new, ef_deposit_spk_hash = ZERO_HASH,
      ef_resources = [resource_resize 0 small_resource]\<rparr>)" (is "_ = Inr (Inr ?e)")
    using i by (simp add: run_handler_def clear_handler_def transaction_id_def tx_id_v1_def tx_id_v1_from_digest_def
        plain_crypto_def deposit_get_def deposit_sink_new_def)
  have ok: "result_ok (Inr ?e)" by (simp add: result_ok_def exit_sink_new_def ZERO_HASH_def)
  obtain journal stream where p: "?p = Inr (journal, stream)" using i(1) r by (simp add: process_transaction_def)
  have len: "map_sum id (\<lambda>(j, _). length j < 2 ^ 64) ?p = Inr True" by code_simp
  have "resource_data (resource_resize 0 small_resource) = []" by (simp add: resize_data)
  moreover have "r_dirty (resource_resize 0 small_resource)"
    by (simp add: resize_dirty small_resource_def resource_data_def)
  ultimately have ops: "outputs_decode stream 1 = Inr [Some []]"
    using p i(1) r outputs_round_trip [OF ok] by (auto simp: process_transaction_def op_of_def)
  show ?thesis
    using journal_agrees [OF i(1) r ok _ p] len p ops
    by (auto simp: exit_sink_new_def op_commitment_def data_hash_def)
qed

end
