(* ===== verification/Batch_Verifier.thy ===== *)
theory Batch_Verifier
  imports Tx_Journal SMT_Sound
begin

text \<open>
  The batch processor of the guest ABI (\<open>zk/abi/src/batch_processor\<close>): decoding of the batch
  input, verification of the transaction journals of one block against the resource proof, and the
  batch transition journal.

  A panic is a string on the left; the message is that of one of the panics of the run.
  Verification of a journal against an image by the zkVM is an argument \<open>accepts\<close>: the run
  goes on only for accepted journals.  The functions of the L1 sequencing commitment are the fields
  of the record \<open>seq_lib\<close>; \<open>H\<close> is the hash of the state tree.
\<close>

definition expect :: "string \<Rightarrow> 'e + 'a \<Rightarrow> string + 'a" where
  "expect msg r = (case r of Inl _ \<Rightarrow> Inl msg | Inr x \<Rightarrow> Inr x)"

lemma expect_Inr [simp]: "expect msg r = Inr x \<longleftrightarrow> r = Inr x"
  by (cases r) (simp_all add: expect_def)

record seq_lib =
  sl_context_hash :: "u64 \<Rightarrow> u64 \<Rightarrow> u64 \<Rightarrow> hash"
  sl_activity_leaf :: "bytes \<Rightarrow> u16 \<Rightarrow> u32 \<Rightarrow> hash"
  sl_activity_digest :: "hash list \<Rightarrow> hash"
  sl_lane_tip_next :: "hash \<Rightarrow> hash \<Rightarrow> hash \<Rightarrow> hash \<Rightarrow> hash"

type_synonym acceptance = "bytes \<Rightarrow> bytes \<Rightarrow> bool"

subsection \<open>Inputs\<close>

record bp_batch =
  bb_blue_score :: u64
  bb_daa_score :: u64
  bb_prev_timestamp :: u64
  bb_prev_seq_commit :: hash
  bb_prev_lane_tip :: hash
  bb_prev_lane_blue_score :: u64
  bb_lane_expired :: bool
  bb_tx_journals :: bytes

definition bp_batch_decode :: "bp_batch reader" where
  "bp_batch_decode buf =
    rbind (rd_le_u64 ''blue_score'' buf) (\<lambda>(blue_score, buf).
    rbind (rd_le_u64 ''daa_score'' buf) (\<lambda>(daa_score, buf).
    rbind (rd_le_u64 ''prev_timestamp'' buf) (\<lambda>(prev_timestamp, buf).
    rbind (rd_array 32 ''prev_seq_commit'' buf) (\<lambda>(prev_seq_commit, buf).
    rbind (rd_array 32 ''prev_lane_tip'' buf) (\<lambda>(prev_lane_tip, buf).
    rbind (rd_le_u64 ''prev_lane_blue_score'' buf) (\<lambda>(prev_lane_blue_score, buf).
    rbind (rd_bool ''lane_expired'' buf) (\<lambda>(lane_expired, buf).
    rbind (rd_blob ''tx_journals'' buf) (\<lambda>(tx_journals, buf).
    Inr (\<lparr>bb_blue_score = blue_score, bb_daa_score = daa_score, bb_prev_timestamp = prev_timestamp,
      bb_prev_seq_commit = prev_seq_commit, bb_prev_lane_tip = prev_lane_tip,
      bb_prev_lane_blue_score = prev_lane_blue_score, bb_lane_expired = lane_expired,
      bb_tx_journals = tx_journals\<rparr>, buf)))))))))"

text \<open>The host's encoder; the block metadata are the first seven fields of a batch record.  The
  length of the journals is summed in 32 bits.\<close>

definition bp_batch_encode :: "bp_batch \<Rightarrow> bytes list \<Rightarrow> bytes" where
  "bp_batch_encode m tx_journals =
    wr_u64_le (bb_blue_score m) @ wr_u64_le (bb_daa_score m) @ wr_u64_le (bb_prev_timestamp m)
    @ bb_prev_seq_commit m @ bb_prev_lane_tip m @ wr_u64_le (bb_prev_lane_blue_score m)
    @ [of_bool (bb_lane_expired m)]
    @ wr_u32_le (sum_list (map (\<lambda>j. 4 + word_of_nat (length j)) tx_journals))
    @ concat (map write_blob tx_journals)"

record batch_pins =
  bi_tx_image_id :: bytes
  bi_covenant_id :: bytes
  bi_deposit_spk_hash :: bytes
  bi_lane_key :: hash

record bp_inputs = batch_pins +
  bi_proof :: smt_proof
  bi_batch :: bp_batch

definition bp_inputs_decode :: "nat \<Rightarrow> bytes \<Rightarrow> abi_error + bp_inputs" where
  "bp_inputs_decode usize_bits buf =
    rbind (abi (rd_array 32 ''tx_image_id'' buf)) (\<lambda>(tx_image_id, buf).
    rbind (abi (rd_array 32 ''covenant_id'' buf)) (\<lambda>(covenant_id, buf).
    rbind (abi (rd_array 32 ''deposit_spk_hash'' buf)) (\<lambda>(deposit_spk_hash, buf).
    rbind (abi (rd_array 32 ''lane_key'' buf)) (\<lambda>(lane_key, buf).
    rbind (abi (rd_blob ''proof'' buf)) (\<lambda>(proof_bytes, buf).
    rbind (abi (proof_decode usize_bits proof_bytes)) (\<lambda>proof.
    rbind (abi (bp_batch_decode buf)) (\<lambda>(batch, _).
    Inr \<lparr>bi_tx_image_id = tx_image_id, bi_covenant_id = covenant_id, bi_deposit_spk_hash = deposit_spk_hash,
      bi_lane_key = lane_key, bi_proof = proof, bi_batch = batch\<rparr>)))))))"

definition bp_inputs_encode :: "batch_pins \<Rightarrow> bytes \<Rightarrow> bp_batch \<Rightarrow> bytes list \<Rightarrow> bytes" where
  "bp_inputs_encode pins proof_bytes m tx_journals =
    bi_tx_image_id pins @ bi_covenant_id pins @ bi_deposit_spk_hash pins @ bi_lane_key pins
    @ write_blob proof_bytes @ bp_batch_encode m tx_journals"

subsection \<open>The transition journal\<close>

record batch_transition =
  bt_prev_state :: hash
  bt_prev_lane_tip :: hash
  bt_prev_lane_blue_score :: u64
  bt_new_state :: hash
  bt_new_lane_tip :: hash
  bt_new_lane_blue_score :: u64
  bt_lane_key :: hash
  bt_covenant_id :: bytes
  bt_tx_image_id :: bytes
  bt_deposit_spk_hash :: bytes
  bt_lane_expired :: byte
  bt_exits :: bytes

definition batch_transition_encode :: "batch_transition \<Rightarrow> bytes" where
  "batch_transition_encode t =
    bt_prev_state t @ bt_prev_lane_tip t @ wr_u64_le (bt_prev_lane_blue_score t)
    @ bt_new_state t @ bt_new_lane_tip t @ wr_u64_le (bt_new_lane_blue_score t)
    @ bt_lane_key t @ bt_covenant_id t @ bt_tx_image_id t @ bt_deposit_spk_hash t
    @ [bt_lane_expired t] @ bt_exits t"

subsection \<open>The verifier\<close>

record bp_verifier =
  v_inputs :: bp_inputs
  v_latest :: "hash list"
  v_exits :: exit_sink
  v_deposit :: bytes

definition bp_new :: "nat \<Rightarrow> bytes \<Rightarrow> string + bp_verifier" where
  "bp_new usize_bits input_bytes =
    rbind (expect ''decode batch inputs'' (bp_inputs_decode usize_bits input_bytes)) (\<lambda>inputs.
    rbind (expect ''canonical proof keys'' (check_sorted_queried_keys (bi_proof inputs))) (\<lambda>_.
    rbind (map_r (\<lambda>m. rbind (expect ''called Result::unwrap() on an Err value'' m) (\<lambda>m. Inr (member_value_hash m)))
        (pf_members (bi_proof inputs))) (\<lambda>latest.
    Inr \<lparr>v_inputs = inputs, v_latest = latest, v_exits = exit_sink_new, v_deposit = ZERO_HASH\<rparr>)))"

definition carry_deposit_hash :: "string \<Rightarrow> bytes \<Rightarrow> bytes \<Rightarrow> string + bytes" where
  "carry_deposit_hash msg tx_hash carry =
    (if tx_hash = ZERO_HASH then Inr carry
     else if carry = ZERO_HASH then Inr tx_hash
     else if carry = tx_hash then Inr carry
     else Inl msg)"

definition assert_declared_deposit_hash :: "bytes \<Rightarrow> bytes \<Rightarrow> string + unit" where
  "assert_declared_deposit_hash carry declared =
    (if carry = ZERO_HASH then Inr ()
     else guard_r (carry = declared) ''batch deposit_spk_hash does not match the declared pin'')"

definition verified_batch_idx ::
  "smt_proof \<Rightarrow> hash list \<Rightarrow> input_resource_commitment \<Rightarrow> string + nat" where
  "verified_batch_idx p latest r =
    (let batch_idx = unat (irc_resource_index r) in
     rbind (guard_r (batch_idx < length latest) ''index out of bounds'') (\<lambda>_.
     rbind (guard_r (irc_hash r = latest ! batch_idx) ''resource hash mismatch'') (\<lambda>_.
     rbind (expect ''member'' (pf_member p batch_idx)) (\<lambda>m.
     rbind (guard_r (irc_resource_id r = m_key m) ''resource_id mismatch'') (\<lambda>_.
     Inr batch_idx)))))"

definition verified_journal ::
  "nat \<Rightarrow> acceptance \<Rightarrow> bytes \<Rightarrow> bytes \<Rightarrow> u32 option \<Rightarrow> string + (journal_entries \<times> u32 option)" where
  "verified_journal usize_bits accepts image_id journal_bytes last_merge_idx =
    rbind (guard_r (accepts image_id journal_bytes) ''verify journal'') (\<lambda>_.
    rbind (expect ''tx journal'' (journal_entries_decode usize_bits journal_bytes)) (\<lambda>entries.
    let merge_idx = ic_merge_idx (je_input_commitment entries) in
    rbind (guard_r (case last_merge_idx of Some prev \<Rightarrow> prev < merge_idx | None \<Rightarrow> True)
        ''merge_idx not increasing'') (\<lambda>_.
    rbind (case ic_execution_context (je_input_commitment entries) of
             Some _ \<Rightarrow> Inr ()
           | None \<Rightarrow>
              (case je_output_commitment entries of
                 Failure (Guest code) \<Rightarrow>
                   guard_r (code = error_code_u32 VersionIncompatible)
                     ''missing execution_context with non-version-incompat error''
               | _ \<Rightarrow> Inl ''missing execution_context with non-error output'')) (\<lambda>_.
    Inr (entries, Some merge_idx)))))"

text \<open>Exits are decoded and emitted again, one by one.\<close>

definition emit_exits :: "bytes \<Rightarrow> exit_sink \<Rightarrow> string + exit_sink" where
  "emit_exits exits sink =
    rbind (expect ''decode exit entry'' (exits_iter exits)) (\<lambda>es.
    fold_r (\<lambda>(dest, amount) s. expect ''emit exit'' (exit_emit dest amount s)) es sink)"

text \<open>The loop over the declared resources; \<open>outputs\<close> is what the iterator over the output
  commitments has left, for a successful transaction.\<close>

fun verify_resources ::
  "smt_proof \<Rightarrow> input_resource_commitment list \<Rightarrow> hash list \<Rightarrow> bytes option
    \<Rightarrow> string + (hash list \<times> bytes option)" where
  "verify_resources p [] latest outputs = Inr (latest, outputs)"
| "verify_resources p (r # rs) latest outputs =
    rbind (verified_batch_idx p latest r) (\<lambda>batch_idx.
    case outputs of
      None \<Rightarrow> verify_resources p rs latest None
    | Some buf \<Rightarrow>
        (case entries_next orc_decode buf of
           None \<Rightarrow> Inl ''output for input resource''
         | Some (Inl _) \<Rightarrow> Inl ''called Result::unwrap() on an Err value''
         | Some (Inr (output, buf)) \<Rightarrow>
             verify_resources p rs
               (case output of Changed h \<Rightarrow> latest[batch_idx := h] | _ \<Rightarrow> latest) (Some buf)))"

definition verify_executed ::
  "hash \<Rightarrow> execution_context \<Rightarrow> output_commitment \<Rightarrow> bp_verifier \<Rightarrow> string + bp_verifier" where
  "verify_executed context_hash exec_ctx output v =
    rbind (guard_r (ec_context_hash exec_ctx = context_hash) ''context_hash does not match'') (\<lambda>_.
    rbind (case output of
             Success exits deposit_spk_hash resources \<Rightarrow>
               rbind (carry_deposit_hash ''two distinct deposit_spk_hash values in one batch'' deposit_spk_hash (v_deposit v)) (\<lambda>deposit.
               rbind (emit_exits exits (v_exits v)) (\<lambda>sink.
               Inr (v\<lparr>v_deposit := deposit, v_exits := sink\<rparr>, Some resources)))
           | Failure _ \<Rightarrow> Inr (v, None)) (\<lambda>(v, outputs).
    rbind (verify_resources (bi_proof (v_inputs v)) (ec_resources exec_ctx) (v_latest v) outputs) (\<lambda>(latest, outputs).
    rbind (guard_r (case outputs of Some buf \<Rightarrow> entries_next orc_decode buf = None | None \<Rightarrow> True)
        ''more output commitments than input resources'') (\<lambda>_.
    Inr (v\<lparr>v_latest := latest\<rparr>)))))"

definition verify_tx ::
  "nat \<Rightarrow> acceptance \<Rightarrow> seq_lib \<Rightarrow> hash \<Rightarrow> bytes \<Rightarrow> bp_verifier \<times> u32 option \<times> hash list
    \<Rightarrow> string + (bp_verifier \<times> u32 option \<times> hash list)" where
  "verify_tx usize_bits accepts L context_hash journal st =
    (let (v, last_merge_idx, lane_activity) = st in
     rbind (verified_journal usize_bits accepts (bi_tx_image_id (v_inputs v)) journal last_merge_idx) (\<lambda>(entries, last_merge_idx).
     let ic = je_input_commitment entries in
     rbind (case ic_execution_context ic of
              Some exec_ctx \<Rightarrow> verify_executed context_hash exec_ctx (je_output_commitment entries) v
            | None \<Rightarrow> Inr v) (\<lambda>v.
     Inr (v, last_merge_idx,
          lane_activity @ [sl_activity_leaf L (ic_tx_id ic) (ic_version ic) (ic_merge_idx ic)]))))"

definition verified_activity_digest ::
  "nat \<Rightarrow> acceptance \<Rightarrow> seq_lib \<Rightarrow> hash \<Rightarrow> bp_verifier \<Rightarrow> string + (bp_verifier \<times> hash)" where
  "verified_activity_digest usize_bits accepts L context_hash v =
    rbind (expect ''decode tx_journal'' (journals_iter (bb_tx_journals (bi_batch (v_inputs v))))) (\<lambda>js.
    rbind (fold_r (verify_tx usize_bits accepts L context_hash) js (v, None, [])) (\<lambda>(v, _, lane_activity).
    Inr (v, sl_activity_digest L lane_activity)))"

definition verify_batch ::
  "nat \<Rightarrow> acceptance \<Rightarrow> seq_lib \<Rightarrow> bp_verifier \<Rightarrow> string + (bp_verifier \<times> hash \<times> u64)" where
  "verify_batch usize_bits accepts L v =
    (let batch = bi_batch (v_inputs v) in
     if bb_tx_journals batch = [] then Inr (v, bb_prev_lane_tip batch, bb_prev_lane_blue_score batch)
     else
       let context_hash = sl_context_hash L (bb_prev_timestamp batch) (bb_daa_score batch) (bb_blue_score batch) in
       rbind (verified_activity_digest usize_bits accepts L context_hash v) (\<lambda>(v, activity_digest).
       rbind (assert_declared_deposit_hash (v_deposit v) (bi_deposit_spk_hash (v_inputs v))) (\<lambda>_.
       Inr (v, sl_lane_tip_next L
              (if bb_lane_expired batch then bb_prev_seq_commit batch else bb_prev_lane_tip batch)
              (bi_lane_key (v_inputs v)) activity_digest context_hash,
            bb_blue_score batch))))"

definition commit_batch_transition ::
  "hasher \<Rightarrow> bp_verifier \<Rightarrow> hash \<Rightarrow> u64 \<Rightarrow> string + batch_transition" where
  "commit_batch_transition H v new_lane_tip new_lane_blue_score =
    (let i = v_inputs v in
     rbind (expect ''compute_roots'' (compute_roots H (bi_proof i) (\<lambda>q. v_latest v ! q))) (\<lambda>(prev_root, new_root).
     Inr \<lparr>bt_prev_state = prev_root, bt_prev_lane_tip = bb_prev_lane_tip (bi_batch i),
       bt_prev_lane_blue_score = bb_prev_lane_blue_score (bi_batch i),
       bt_new_state = new_root, bt_new_lane_tip = new_lane_tip, bt_new_lane_blue_score = new_lane_blue_score,
       bt_lane_key = bi_lane_key i, bt_covenant_id = bi_covenant_id i, bt_tx_image_id = bi_tx_image_id i,
       bt_deposit_spk_hash = v_deposit v, bt_lane_expired = of_bool (bb_lane_expired (bi_batch i)),
       bt_exits = es_buf (v_exits v)\<rparr>))"

text \<open>The guest's entry point (\<open>zk/backend/risc0/batch-processor/src/main.rs\<close>).\<close>

definition process_batch ::
  "nat \<Rightarrow> acceptance \<Rightarrow> seq_lib \<Rightarrow> hasher \<Rightarrow> bytes \<Rightarrow> string + batch_transition" where
  "process_batch usize_bits accepts L H inputs =
    rbind (bp_new usize_bits inputs) (\<lambda>v.
    rbind (verify_batch usize_bits accepts L v) (\<lambda>(v, new_lane_tip, new_lane_blue_score).
    commit_batch_transition H v new_lane_tip new_lane_blue_score))"

end
