(* ===== verification/Merkle_Builder.thy ===== *)
theory Merkle_Builder
  imports SMT_Base
begin

text \<open>
  The streaming builder of dense Merkle trees (\<open>core/merkle-tree/src\<close>): a fixed stack of
  complete subtrees, one per level, that absorbs one leaf hash at a time, and the padding of the
  right edge with empty-subtree hashes that yields the root.

  The hash is an argument (domain and parts); \<open>max_depth\<close> is the const generic
  \<open>MAX_DEPTH\<close>.  The leaf counter is a \<open>u32\<close> and wraps; levels never exceed the
  length of the stack and are natural numbers.
\<close>

record node_tags =
  nt_leaf :: bytes
  nt_branch :: bytes
  nt_empty :: bytes

record streaming_builder =
  sb_stack :: "(nat \<times> hash) list"
  sb_stack_len :: nat
  sb_leaf_count :: u32

definition mt_new :: "nat \<Rightarrow> streaming_builder" where
  "mt_new max_depth =
    \<lparr>sb_stack = replicate max_depth (0, replicate 32 0), sb_stack_len = 0, sb_leaf_count = 0\<rparr>"

text \<open>\<open>usize::BITS - x.leading_zeros()\<close>: the number of significant bits.\<close>

fun significant_bits :: "nat \<Rightarrow> nat" where
  "significant_bits x = (if x = 0 then 0 else Suc (significant_bits (x div 2)))"

declare significant_bits.simps [simp del]

definition required_depth :: "nat \<Rightarrow> nat \<Rightarrow> nat" where
  "required_depth max_depth n = (if n \<le> 1 then 1 else min (significant_bits (n - 1)) max_depth)"

definition mt_hash_leaf :: "hasher \<Rightarrow> node_tags \<Rightarrow> bytes \<Rightarrow> hash" where
  "mt_hash_leaf H T payload = H (nt_leaf T) [payload]"

definition mt_hash_leaf_parts :: "hasher \<Rightarrow> node_tags \<Rightarrow> bytes list \<Rightarrow> hash" where
  "mt_hash_leaf_parts H T parts = H (nt_leaf T) parts"

definition mt_hash_branch :: "hasher \<Rightarrow> node_tags \<Rightarrow> hash \<Rightarrow> hash \<Rightarrow> hash" where
  "mt_hash_branch H T left right = H (nt_branch T) [left, right]"

definition mt_hash_empty :: "hasher \<Rightarrow> node_tags \<Rightarrow> hash" where
  "mt_hash_empty H T = H (nt_empty T) [[]]"

definition compute_empty_hashes :: "hasher \<Rightarrow> node_tags \<Rightarrow> nat \<Rightarrow> hash list" where
  "compute_empty_hashes H T max_depth =
    (let table = replicate max_depth (replicate 32 0) in
     if max_depth = 0 then table
     else fold (\<lambda>level table. table[level := mt_hash_branch H T (table ! (level - 1)) (table ! (level - 1))])
            [1..<max_depth] (table[0 := mt_hash_empty H T]))"

text \<open>The merge loop of \<open>add_leaf_hash\<close>: the remaining stack length, the level and the hash.\<close>

fun merge_top ::
  "hasher \<Rightarrow> node_tags \<Rightarrow> (nat \<times> hash) list \<Rightarrow> nat \<Rightarrow> nat \<Rightarrow> hash \<Rightarrow> nat \<times> nat \<times> hash" where
  "merge_top H T stack 0 lvl current = (0, lvl, current)"
| "merge_top H T stack (Suc n) lvl current =
    (let (top_level, top_hash) = stack ! n in
     if top_level \<noteq> lvl then (Suc n, lvl, current)
     else merge_top H T stack n (lvl + 1) (mt_hash_branch H T top_hash current))"

definition add_leaf_hash ::
  "hasher \<Rightarrow> node_tags \<Rightarrow> hash \<Rightarrow> streaming_builder \<Rightarrow> string + streaming_builder" where
  "add_leaf_hash H T h b =
    (let (n, lvl, current) = merge_top H T (sb_stack b) (sb_stack_len b) 0 h in
     if n < length (sb_stack b)
     then Inr \<lparr>sb_stack = (sb_stack b)[n := (lvl, current)], sb_stack_len = n + 1,
               sb_leaf_count = sb_leaf_count b + 1\<rparr>
     else Inl ''index out of bounds'')"

definition add_leaf :: "hasher \<Rightarrow> node_tags \<Rightarrow> bytes \<Rightarrow> streaming_builder \<Rightarrow> string + streaming_builder" where
  "add_leaf H T payload b = add_leaf_hash H T (mt_hash_leaf H T payload) b"

definition add_leaf_parts ::
  "hasher \<Rightarrow> node_tags \<Rightarrow> bytes list \<Rightarrow> streaming_builder \<Rightarrow> string + streaming_builder" where
  "add_leaf_parts H T parts b = add_leaf_hash H T (mt_hash_leaf_parts H T parts) b"

definition leaf_count :: "streaming_builder \<Rightarrow> u32" where
  "leaf_count b = sb_leaf_count b"

text \<open>The inner padding loop of \<open>finalize\<close>: lifts \<open>h\<close> by \<open>n\<close> levels from \<open>level\<close>.\<close>

fun lift_padding ::
  "hasher \<Rightarrow> node_tags \<Rightarrow> hash list \<Rightarrow> nat \<Rightarrow> nat \<Rightarrow> hash \<Rightarrow> string + hash" where
  "lift_padding H T empty_hashes 0 lvl h = Inr h"
| "lift_padding H T empty_hashes (Suc n) lvl h =
    (if lvl < length empty_hashes
     then lift_padding H T empty_hashes n (lvl + 1) (mt_hash_branch H T h (empty_hashes ! lvl))
     else Inl ''index out of bounds'')"

definition finalize_step ::
  "hasher \<Rightarrow> node_tags \<Rightarrow> hash list \<Rightarrow> nat \<times> hash \<Rightarrow> (nat \<times> hash) option \<Rightarrow> string + (nat \<times> hash) option" where
  "finalize_step H T empty_hashes e acc =
    (case acc of
       None \<Rightarrow> Inr (Some e)
     | Some (result_level, result_hash) \<Rightarrow>
         rbind (lift_padding H T empty_hashes (fst e - result_level) result_level result_hash) (\<lambda>lifted.
         Inr (Some (max result_level (fst e) + 1, mt_hash_branch H T (snd e) lifted))))"

definition mt_finalize ::
  "hasher \<Rightarrow> node_tags \<Rightarrow> hash list \<Rightarrow> streaming_builder \<Rightarrow> string + hash" where
  "mt_finalize H T empty_hashes b =
    (if sb_leaf_count b = 0 then
       (if empty_hashes = [] then Inl ''index out of bounds'' else Inr (empty_hashes ! 0))
     else if sb_leaf_count b = 1 then
       (if sb_stack b = [] \<or> empty_hashes = [] then Inl ''index out of bounds''
        else Inr (mt_hash_branch H T (snd (sb_stack b ! 0)) (empty_hashes ! 0)))
     else rbind (fold_r (finalize_step H T empty_hashes) (rev (take (sb_stack_len b) (sb_stack b))) None) (\<lambda>acc.
       Inr (case acc of Some (_, result_hash) \<Rightarrow> result_hash | None \<Rightarrow> replicate 32 0)))"

subsection \<open>The dense tree\<close>

text \<open>The root of the tree of a given depth whose leaves are \<open>hs\<close>, padded by empty leaves.\<close>

fun dense_root :: "hasher \<Rightarrow> node_tags \<Rightarrow> nat \<Rightarrow> hash list \<Rightarrow> hash" where
  "dense_root H T 0 hs = (case hs of [] \<Rightarrow> mt_hash_empty H T | h # _ \<Rightarrow> h)"
| "dense_root H T (Suc d) hs =
    mt_hash_branch H T (dense_root H T d (take (2 ^ d) hs)) (dense_root H T d (drop (2 ^ d) hs))"

text \<open>A stack that holds \<open>hs\<close>: complete subtrees of consecutive blocks, levels descending.\<close>

definition block_ok :: "hasher \<Rightarrow> node_tags \<Rightarrow> nat \<times> hash \<Rightarrow> hash list \<Rightarrow> bool" where
  "block_ok H T e b \<longleftrightarrow> length b = 2 ^ fst e \<and> snd e = dense_root H T (fst e) b"

definition packed :: "hasher \<Rightarrow> node_tags \<Rightarrow> (nat \<times> hash) list \<Rightarrow> hash list \<Rightarrow> bool" where
  "packed H T st hs \<longleftrightarrow>
    (\<exists>blocks. hs = concat blocks \<and> list_all2 (block_ok H T) st blocks) \<and> sorted_wrt (>) (map fst st)"

definition builder_holds :: "hasher \<Rightarrow> node_tags \<Rightarrow> nat \<Rightarrow> streaming_builder \<Rightarrow> hash list \<Rightarrow> bool" where
  "builder_holds H T max_depth b hs \<longleftrightarrow>
    length (sb_stack b) = max_depth \<and> sb_stack_len b \<le> max_depth
    \<and> packed H T (take (sb_stack_len b) (sb_stack b)) hs \<and> unat (sb_leaf_count b) = length hs"

subsection \<open>Depths\<close>

lemma significant_bits_le: "significant_bits x \<le> d \<longleftrightarrow> x < 2 ^ d"
proof (induction x arbitrary: d rule: significant_bits.induct)
  case (1 x)
  have s: "significant_bits x = (if x = 0 then 0 else Suc (significant_bits (x div 2)))"
    by (rule significant_bits.simps)
  show ?case
  proof (cases d)
    case (Suc e)
    then show ?thesis using 1 [of e] by (cases "x = 0") (auto simp: s significant_bits.simps [of 0])
  qed (simp add: s)
qed

lemma significant_bits_eqI: "2 ^ d \<le> x \<Longrightarrow> x < 2 ^ Suc d \<Longrightarrow> significant_bits x = Suc d"
  using significant_bits_le [of x d] significant_bits_le [of x "Suc d"] by simp

lemma descending_length: "sorted_wrt (>) (x # xs) \<Longrightarrow> length xs \<le> (x :: nat)"
proof (induction xs arbitrary: x)
  case (Cons y ys)
  then have "length ys \<le> y" "y < x" by simp_all
  then show ?case by simp
qed simp

subsection \<open>The stack\<close>

lemma block_ok_branch:
  assumes "block_ok H T (l, g) b" "block_ok H T (l, h) c"
  shows "block_ok H T (Suc l, mt_hash_branch H T g h) (b @ c)"
  using assms by (simp add: block_ok_def)

lemma packed_Nil [simp]: "packed H T [] hs \<longleftrightarrow> hs = []"
  by (simp add: packed_def)

lemma packed_Cons:
  "packed H T (e # st) hs \<longleftrightarrow>
    (\<exists>b hs'. hs = b @ hs' \<and> block_ok H T e b \<and> packed H T st hs' \<and> (\<forall>x \<in> set st. fst x < fst e))"
proof
  assume "\<exists>b hs'. hs = b @ hs' \<and> block_ok H T e b \<and> packed H T st hs' \<and> (\<forall>x \<in> set st. fst x < fst e)"
  then obtain b blocks where "hs = concat (b # blocks)" "list_all2 (block_ok H T) (e # st) (b # blocks)"
      "sorted_wrt (>) (map fst (e # st))"
    by (auto simp: packed_def)
  then show "packed H T (e # st) hs" unfolding packed_def by blast
qed (fastforce simp: packed_def list_all2_Cons1)

lemma packed_snoc:
  "packed H T (st @ [e]) hs \<longleftrightarrow>
    (\<exists>hs' b. hs = hs' @ b \<and> packed H T st hs' \<and> block_ok H T e b \<and> (\<forall>x \<in> set st. fst e < fst x))"
  by (induction st arbitrary: hs) (auto simp: packed_Cons, (metis append_assoc)+)

lemma packed_bounds: "packed H T (e # st) hs \<Longrightarrow> 2 ^ fst e + (if st = [] then 0 else 1) \<le> length hs \<and> length hs < 2 ^ Suc (fst e)"
proof (induction st arbitrary: e hs)
  case (Cons x st)
  then obtain b hs' where s: "hs = b @ hs'" "length b = 2 ^ fst e" "packed H T (x # st) hs'" "fst x < fst e"
    by (auto simp: packed_Cons [of _ _ e] block_ok_def)
  have "length hs' < 2 ^ Suc (fst x)" "2 ^ fst x \<le> length hs'" using Cons.IH [OF s(3)] by auto
  moreover have "(2 :: nat) ^ Suc (fst x) \<le> 2 ^ fst e" using s(4) by (intro power_increasing) simp_all
  moreover have "(0 :: nat) < 2 ^ fst x" by simp
  ultimately show ?case using s(1,2) by (simp del: zero_less_power)
qed (auto simp: packed_Cons block_ok_def)

lemma merge_top_packed:
  assumes "merge_top H T stack n l c = (m, l', c')" "n \<le> length stack" "packed H T (take n stack) hs"
    "block_ok H T (l, c) b" "\<forall>x \<in> set (take n stack). l \<le> fst x"
  shows "m \<le> n \<and> packed H T (take m stack @ [(l', c')]) (hs @ b)"
  using assms
proof (induction n arbitrary: l c hs b)
  case (Suc n)
  obtain tl th where top: "stack ! n = (tl, th)" by (cases "stack ! n")
  have tk: "take (Suc n) stack = take n stack @ [(tl, th)]"
    using Suc.prems(2) top by (simp add: take_Suc_conv_app_nth)
  obtain hs' b' where s: "hs = hs' @ b'" "packed H T (take n stack) hs'" "block_ok H T (tl, th) b'"
      "\<forall>x \<in> set (take n stack). tl < fst x"
    using Suc.prems(3) unfolding tk packed_snoc by auto
  show ?case
  proof (cases "tl = l")
    case True
    have "block_ok H T (Suc l, mt_hash_branch H T th c) (b' @ b)"
      using block_ok_branch s(3) Suc.prems(4) True by blast
    moreover have "merge_top H T stack n (Suc l) (mt_hash_branch H T th c) = (m, l', c')"
      using Suc.prems(1) top True by simp
    ultimately show ?thesis using Suc.IH [OF _ _ s(2)] Suc.prems(2) s(1,4) True by fastforce
  next
    case False
    then have m: "m = Suc n" "l' = l" "c' = c" using Suc.prems(1) top by auto
    have "\<forall>x \<in> set (take (Suc n) stack). l < fst x" using Suc.prems(5) False s(4) unfolding tk by force
    then show ?thesis using Suc.prems(3,4) m by (auto simp: packed_snoc)
  qed
qed (auto simp: packed_Cons)

lemma add_leaf_hash_holds:
  assumes b: "builder_holds H T max_depth b hs" and n: "length hs < 2 ^ max_depth" "length hs + 1 < 2 ^ 32"
    and d: "0 < max_depth"
  shows "\<exists>b'. add_leaf_hash H T h b = Inr b' \<and> builder_holds H T max_depth b' (hs @ [h])"
proof -
  let ?st = "sb_stack b"
  obtain m l c where mt: "merge_top H T ?st (sb_stack_len b) 0 h = (m, l, c)" by (metis prod_cases3)
  have p: "m \<le> sb_stack_len b" "packed H T (take m ?st @ [(l, c)]) (hs @ [h])"
    using merge_top_packed [OF mt, of hs "[h]"] b by (auto simp: builder_holds_def block_ok_def)
  have m: "m < max_depth"
  proof (cases "take m ?st")
    case (Cons e st)
    then have pk: "packed H T (e # st @ [(l, c)]) (hs @ [h])" using p(2) by simp
    then have "sorted_wrt (>) (fst e # map fst (st @ [(l, c)]))" by (auto simp: packed_def)
    then have "length (map fst (st @ [(l, c)])) \<le> fst e" by (rule descending_length)
    moreover have "(2 :: nat) ^ fst e < 2 ^ max_depth"
      by (rule le_less_trans [OF _ n(1)]) (use packed_bounds [OF pk] in simp)
    moreover have "length (take m ?st) = m" using p(1) b by (simp add: builder_holds_def)
    ultimately show ?thesis using Cons by simp
  qed (use b p d in \<open>auto simp: builder_holds_def\<close>)
  have "unat (sb_leaf_count b + 1) = length (hs @ [h])"
    using b n(2) by (simp add: builder_holds_def unat_word_ariths)
  then show ?thesis
    using m p mt b by (simp add: add_leaf_hash_def builder_holds_def take_Suc_conv_app_nth)
qed

lemma add_leaves_hold:
  assumes "builder_holds H T max_depth b hs" "length (hs @ xs) \<le> 2 ^ max_depth" "length (hs @ xs) < 2 ^ 32" "0 < max_depth"
  shows "\<exists>b'. fold_r (add_leaf_hash H T) xs b = Inr b' \<and> builder_holds H T max_depth b' (hs @ xs)"
  using assms
proof (induction xs arbitrary: b hs)
  case (Cons x xs)
  obtain b' where b': "add_leaf_hash H T x b = Inr b'" "builder_holds H T max_depth b' (hs @ [x])"
    using add_leaf_hash_holds [OF Cons.prems(1)] Cons.prems by fastforce
  then show ?case using Cons.IH [OF b'(2)] Cons.prems by simp
qed simp

lemma mt_new_holds: "builder_holds H T max_depth (mt_new max_depth) []"
  by (simp add: builder_holds_def mt_new_def)

subsection \<open>Padding\<close>

lemma empty_hashes_correct:
  "length (compute_empty_hashes H T n) = n
    \<and> (\<forall>l < n. compute_empty_hashes H T n ! l = dense_root H T l [])"
proof (cases "n = 0")
  case False
  define f where "f = (\<lambda>l table. table[l := mt_hash_branch H T (table ! (l - 1)) (table ! (l - 1))])"
  define t0 where "t0 = (replicate n (replicate 32 0))[0 := mt_hash_empty H T]"
  have "length (fold f [1..<k] t0) = n \<and> (\<forall>l < k. fold f [1..<k] t0 ! l = dense_root H T l [])"
    if "1 \<le> k" "k \<le> n" for k
    using that
  proof (induction k rule: dec_induct)
    case base
    then show ?case by (simp add: t0_def)
  next
    case (step k)
    then show ?case by (cases k) (auto simp: f_def nth_list_update less_Suc_eq)
  qed
  from this [of n] show ?thesis using False
    by (simp add: compute_empty_hashes_def Let_def f_def t0_def)
qed (simp add: compute_empty_hashes_def)

lemma lift_padding_correct:
  assumes "length es = n" "\<forall>l < n. es ! l = dense_root H T l []" "l + k \<le> n" "length hs \<le> 2 ^ l"
  shows "lift_padding H T es k l (dense_root H T l hs) = Inr (dense_root H T (l + k) hs)"
  using assms(3,4)
proof (induction k arbitrary: l)
  case (Suc k)
  then have "mt_hash_branch H T (dense_root H T l hs) (es ! l) = dense_root H T (Suc l) hs"
    using assms(2) by simp
  moreover have "length hs \<le> 2 ^ Suc l" using Suc.prems(2) by simp
  ultimately show ?case using Suc.IH [of "Suc l"] Suc.prems(1) assms(1) by simp
qed simp

lemma finalize_fold:
  assumes es: "length es = n" "\<forall>l < n. es ! l = dense_root H T l []"
    and "packed H T (e # st) hs" "fst e \<le> n"
  shows "\<exists>l. fold_r (finalize_step H T es) (rev (e # st)) None = Inr (Some (l, dense_root H T l hs))
    \<and> l = (if st = [] then fst e else Suc (fst e)) \<and> length hs \<le> 2 ^ l"
  using assms(3,4)
proof (induction st arbitrary: e hs)
  case Nil
  then show ?case by (cases e) (auto simp: packed_Cons block_ok_def finalize_step_def)
next
  case (Cons x st)
  obtain b hs' where s: "hs = b @ hs'" "block_ok H T e b" "packed H T (x # st) hs'" "fst x < fst e"
    using Cons.prems(1) by (auto simp: packed_Cons [of _ _ e])
  obtain l where l: "fold_r (finalize_step H T es) (rev (x # st)) None = Inr (Some (l, dense_root H T l hs'))"
      "l = (if st = [] then fst x else Suc (fst x))" "length hs' \<le> 2 ^ l"
    using Cons.IH [OF s(3)] Cons.prems(2) s(4) by auto
  then have le: "l \<le> fst e" using s(4) by auto
  have "lift_padding H T es (fst e - l) l (dense_root H T l hs') = Inr (dense_root H T (fst e) hs')"
    using lift_padding_correct [OF es, of l "fst e - l" hs'] l(3) le Cons.prems(2) by simp
  moreover have "dense_root H T (Suc (fst e)) hs = mt_hash_branch H T (snd e) (dense_root H T (fst e) hs')"
    using s(1,2) by (simp add: block_ok_def)
  ultimately have "finalize_step H T es e (Some (l, dense_root H T l hs'))
      = Inr (Some (Suc (fst e), dense_root H T (Suc (fst e)) hs))"
    using le by (simp add: finalize_step_def max_def del: dense_root.simps)
  moreover have "length hs \<le> 2 ^ Suc (fst e)" using packed_bounds [OF Cons.prems(1)] by simp
  moreover have "fold_r (finalize_step H T es) (rev (e # x # st)) None
      = rbind (fold_r (finalize_step H T es) (rev (x # st)) None) (fold_r (finalize_step H T es) [e])"
    unfolding rev.simps(2) [of e] by (rule fold_r_append)
  ultimately show ?case
    unfolding l(1) by (simp del: dense_root.simps rev.simps)
qed

lemma required_depth_packed:
  assumes "packed H T (e # st) hs" "2 \<le> length hs" "length hs \<le> 2 ^ max_depth"
  shows "required_depth max_depth (length hs) = (if st = [] then fst e else Suc (fst e)) \<and> fst e \<le> max_depth"
proof (cases "st = []")
  case True
  then have n: "length hs = 2 ^ fst e" using assms(1) by (auto simp: packed_Cons block_ok_def)
  then obtain k where k: "fst e = Suc k" using assms(2) by (cases "fst e") auto
  have "significant_bits (length hs - 1) = Suc k" by (rule significant_bits_eqI) (use n k in auto)
  moreover have "fst e \<le> max_depth" using n assms(3) by (simp add: power_increasing_iff)
  ultimately show ?thesis using True k assms(2) by (simp add: required_depth_def)
next
  case False
  have b: "2 ^ fst e + 1 \<le> length hs" "length hs < 2 ^ Suc (fst e)"
    using packed_bounds [OF assms(1)] False by auto
  have "significant_bits (length hs - 1) = Suc (fst e)" by (rule significant_bits_eqI) (use b in auto)
  moreover have "(2 :: nat) ^ fst e < 2 ^ max_depth" using b(1) assms(3) by linarith
  then have "fst e < max_depth" by simp
  ultimately show ?thesis using False assms(2) by (simp add: required_depth_def)
qed

lemma finalize_holds:
  assumes "builder_holds H T max_depth b hs" "hs \<noteq> []" "length hs \<le> 2 ^ max_depth" "0 < max_depth"
  shows "mt_finalize H T (compute_empty_hashes H T max_depth) b
    = Inr (dense_root H T (required_depth max_depth (length hs)) hs)"
proof -
  let ?es = "compute_empty_hashes H T max_depth"
  obtain e st where st: "take (sb_stack_len b) (sb_stack b) = e # st" "packed H T (e # st) hs"
    using assms(1,2) by (cases "take (sb_stack_len b) (sb_stack b)") (auto simp: builder_holds_def)
  have c: "unat (sb_leaf_count b) = length hs" using assms(1) by (simp add: builder_holds_def)
  then have c0: "sb_leaf_count b \<noteq> 0" using assms(2) by auto
  note es = empty_hashes_correct [of H T max_depth]
  then have ne: "?es \<noteq> []" "?es ! 0 = mt_hash_empty H T" using assms(4) by auto
  show ?thesis
  proof (cases "length hs = 1")
    case True
    then have "sb_leaf_count b = 1" using c by (metis unat_1 word_unat_eq_iff)
    moreover have "sb_stack b \<noteq> [] \<and> sb_stack b ! 0 = e" using st(1) by (cases "sb_stack b"; cases "sb_stack_len b") auto
    moreover have "hs = [snd e]"
      using st(2) True packed_bounds [OF st(2)] by (cases hs; cases "fst e"; cases st) (auto simp: packed_Cons block_ok_def)
    ultimately show ?thesis using ne c0 by (simp add: mt_finalize_def required_depth_def)
  next
    case False
    then have c1: "sb_leaf_count b \<noteq> 1" "2 \<le> length hs" using c assms(2) by (auto simp: Suc_le_eq numeral_2_eq_2 neq_Nil_conv)
    note rd = required_depth_packed [OF st(2) c1(2) assms(3)]
    then show ?thesis
      using finalize_fold [of ?es max_depth H T e st hs] es st c0 c1(1) by (auto simp: mt_finalize_def)
  qed
qed

subsection \<open>Property\<close>

lemma required_depth_fits:
  assumes "n \<le> 2 ^ max_depth" "0 < max_depth"
  shows "n \<le> 2 ^ required_depth max_depth n"
proof (cases "n \<le> 1")
  case False
  have "n - 1 < 2 ^ significant_bits (n - 1)" using significant_bits_le [of "n - 1" "significant_bits (n - 1)"] by simp
  then have "n \<le> 2 ^ significant_bits (n - 1)" by linarith
  then show ?thesis using False assms by (simp add: required_depth_def min_def)
qed (simp add: required_depth_def)

text \<open>C21: adding up to \<open>2 ^ max_depth\<close> leaf hashes to a new builder never leaves the stack;
  the root it then finalizes is the root of the dense tree over exactly those leaves, padded with
  empty leaves to the smallest sufficient depth.\<close>

theorem merkle_root_correct:
  assumes "0 < max_depth" "length hs \<le> 2 ^ max_depth" "length hs < 2 ^ 32"
  shows "\<exists>b. fold_r (add_leaf_hash H T) hs (mt_new max_depth) = Inr b
    \<and> unat (leaf_count b) = length hs
    \<and> mt_finalize H T (compute_empty_hashes H T max_depth) b
        = Inr (if hs = [] then mt_hash_empty H T
               else dense_root H T (required_depth max_depth (length hs)) hs)
    \<and> length hs \<le> 2 ^ required_depth max_depth (length hs)"
proof -
  obtain b where b: "fold_r (add_leaf_hash H T) hs (mt_new max_depth) = Inr b" "builder_holds H T max_depth b hs"
    using add_leaves_hold [OF mt_new_holds, of hs max_depth] assms by auto
  then have c: "unat (leaf_count b) = length hs" by (simp add: builder_holds_def leaf_count_def)
  have "mt_finalize H T (compute_empty_hashes H T max_depth) b = Inr (mt_hash_empty H T)" if "hs = []"
    using that c empty_hashes_correct [of H T max_depth] assms(1)
    by (auto simp: mt_finalize_def leaf_count_def unat_eq_0)
  then show ?thesis using b c finalize_holds [OF b(2) _ assms(2,1)] required_depth_fits [OF assms(2,1)] by auto
qed

theorem merkle_root_correct_witness:
  "\<exists>b. fold_r (add_leaf_hash (\<lambda>d ps. d @ concat ps) \<lparr>nt_leaf = [0], nt_branch = [1], nt_empty = [2]\<rparr>)
        [[7], [8], [9]] (mt_new 8) = Inr b
    \<and> mt_finalize (\<lambda>d ps. d @ concat ps) \<lparr>nt_leaf = [0], nt_branch = [1], nt_empty = [2]\<rparr>
        (compute_empty_hashes (\<lambda>d ps. d @ concat ps) \<lparr>nt_leaf = [0], nt_branch = [1], nt_empty = [2]\<rparr> 8) b
      = Inr [1, 1, 7, 8, 1, 9, 2]"
  using merkle_root_correct [of 8 "[[7], [8], [9]]" "\<lambda>d ps. d @ concat ps"
      "\<lparr>nt_leaf = [0], nt_branch = [1], nt_empty = [2]\<rparr>"]
  by (fastforce simp: required_depth_def significant_bits.simps mt_hash_branch_def mt_hash_empty_def
      simp del: fold_r.simps)

end
