(* ===== verification/Permission_Script.thy ===== *)
theory Permission_Script
  imports Merkle_Builder Runtime_Actions
begin

text \<open>
  The exit commitment of a bundle (\<open>zk/backend/risc0/api/src\<close>): the redeem script that guards
  withdrawals (\<open>permission_script.rs\<close>), emitted opcode by opcode with its own length embedded,
  the tags of the exit tree (\<open>permission_tags.rs\<close>) and the accumulator that hashes exits into
  the tree and finalizes to the script hash (\<open>permission_tree.rs\<close>).

  An \<open>emit\<close> method is the byte string it appends.  The debug assertion of \<open>push_data\<close>
  is compiled out of release builds.  \<open>i64\<close> arguments are integers.
\<close>

subsection \<open>Opcodes\<close>

definition MAX_DELEGATE_INPUTS :: nat where "MAX_DELEGATE_INPUTS = 8"
definition MAX_OUTPUTS :: int where "MAX_OUTPUTS = 4"

abbreviation OP_FALSE :: byte where "OP_FALSE \<equiv> 0x00"
abbreviation OP_TRUE :: byte where "OP_TRUE \<equiv> 0x51"
abbreviation OP_IF :: byte where "OP_IF \<equiv> 0x63"
abbreviation OP_ELSE :: byte where "OP_ELSE \<equiv> 0x67"
abbreviation OP_ENDIF :: byte where "OP_ENDIF \<equiv> 0x68"
abbreviation OP_VERIFY :: byte where "OP_VERIFY \<equiv> 0x69"
abbreviation OP_TOALTSTACK :: byte where "OP_TOALTSTACK \<equiv> 0x6b"
abbreviation OP_FROMALTSTACK :: byte where "OP_FROMALTSTACK \<equiv> 0x6c"
abbreviation OP_DROP :: byte where "OP_DROP \<equiv> 0x75"
abbreviation OP_DUP :: byte where "OP_DUP \<equiv> 0x76"
abbreviation OP_NIP :: byte where "OP_NIP \<equiv> 0x77"
abbreviation OP_OVER :: byte where "OP_OVER \<equiv> 0x78"
abbreviation OP_PICK :: byte where "OP_PICK \<equiv> 0x79"
abbreviation OP_ROLL :: byte where "OP_ROLL \<equiv> 0x7a"
abbreviation OP_ROT :: byte where "OP_ROT \<equiv> 0x7b"
abbreviation OP_SWAP :: byte where "OP_SWAP \<equiv> 0x7c"
abbreviation OP_CAT :: byte where "OP_CAT \<equiv> 0x7e"
abbreviation OP_EQUAL :: byte where "OP_EQUAL \<equiv> 0x87"
abbreviation OP_EQUALVERIFY :: byte where "OP_EQUALVERIFY \<equiv> 0x88"
abbreviation OP_1SUB :: byte where "OP_1SUB \<equiv> 0x8c"
abbreviation OP_ADD :: byte where "OP_ADD \<equiv> 0x93"
abbreviation OP_SUB :: byte where "OP_SUB \<equiv> 0x94"
abbreviation OP_NUMEQUALVERIFY :: byte where "OP_NUMEQUALVERIFY \<equiv> 0x9d"
abbreviation OP_GREATERTHAN :: byte where "OP_GREATERTHAN \<equiv> 0xa0"
abbreviation OP_GREATERTHANOREQUAL :: byte where "OP_GREATERTHANOREQUAL \<equiv> 0xa2"
abbreviation OP_SHA256 :: byte where "OP_SHA256 \<equiv> 0xa8"
abbreviation OP_BLAKE2B :: byte where "OP_BLAKE2B \<equiv> 0xaa"
abbreviation OP_TXINPUTCOUNT :: byte where "OP_TXINPUTCOUNT \<equiv> 0xb3"
abbreviation OP_TXOUTPUTCOUNT :: byte where "OP_TXOUTPUTCOUNT \<equiv> 0xb4"
abbreviation OP_TXINPUTINDEX :: byte where "OP_TXINPUTINDEX \<equiv> 0xb9"
abbreviation OP_TXINPUTSCRIPTSIGSUBSTR :: byte where "OP_TXINPUTSCRIPTSIGSUBSTR \<equiv> 0xbc"
abbreviation OP_TXINPUTAMOUNT :: byte where "OP_TXINPUTAMOUNT \<equiv> 0xbe"
abbreviation OP_TXINPUTSPK :: byte where "OP_TXINPUTSPK \<equiv> 0xbf"
abbreviation OP_TXOUTPUTAMOUNT :: byte where "OP_TXOUTPUTAMOUNT \<equiv> 0xc2"
abbreviation OP_TXOUTPUTSPK :: byte where "OP_TXOUTPUTSPK \<equiv> 0xc3"
abbreviation OP_TXINPUTSCRIPTSIGLEN :: byte where "OP_TXINPUTSCRIPTSIGLEN \<equiv> 0xc9"
abbreviation OP_NUM2BIN :: byte where "OP_NUM2BIN \<equiv> 0xcd"
abbreviation OP_INPUTCOVENANTID :: byte where "OP_INPUTCOVENANTID \<equiv> 0xcf"
abbreviation OP_COVOUTCOUNT :: byte where "OP_COVOUTCOUNT \<equiv> 0xd2"
abbreviation OP_COVOUTPUTIDX :: byte where "OP_COVOUTPUTIDX \<equiv> 0xd3"

datatype perm_node = PermLeaf | PermBranch | PermEmpty

fun perm_node_u8 :: "perm_node \<Rightarrow> byte" where
  "perm_node_u8 PermLeaf = 0"
| "perm_node_u8 PermBranch = 1"
| "perm_node_u8 PermEmpty = 2"

definition perm_tags :: node_tags where
  "perm_tags = \<lparr>nt_leaf = [perm_node_u8 PermLeaf], nt_branch = [perm_node_u8 PermBranch],
     nt_empty = [perm_node_u8 PermEmpty]\<rparr>"

subsection \<open>Declared lengths\<close>

definition PREFIX_LEN :: nat where "PREFIX_LEN = 42"
definition STASH_LEN :: nat where "STASH_LEN = 2"
definition VALIDATE_AMOUNTS_LEN :: nat where "VALIDATE_AMOUNTS_LEN = 13"
definition VERIFY_WITHDRAWAL_LEN :: nat where "VERIFY_WITHDRAWAL_LEN = 13"
definition COMPUTE_LEAF_HASHES_LEN :: nat where "COMPUTE_LEAF_HASHES_LEN = 42"
definition VERIFY_OLD_ROOT_TAIL_LEN :: nat where "VERIFY_OLD_ROOT_TAIL_LEN = 12"
definition COMPUTE_NEW_UNCLAIMED_LEN :: nat where "COMPUTE_NEW_UNCLAIMED_LEN = 13"
definition VERIFY_OUTPUTS_FIXED_LEN :: nat where "VERIFY_OUTPUTS_FIXED_LEN = 88"
definition VERIFY_DELEGATE_BALANCE_LEN :: nat where "VERIFY_DELEGATE_BALANCE_LEN = 214"
definition TRAILER_LEN :: nat where "TRAILER_LEN = 3"
definition MERKLE_STEP_LEN :: nat where "MERKLE_STEP_LEN = 11"
definition EMBEDDED_LEN_PUSH :: nat where "EMBEDDED_LEN_PUSH = 3"

definition FIXED_LEN :: nat where
  "FIXED_LEN = PREFIX_LEN + STASH_LEN + VALIDATE_AMOUNTS_LEN + VERIFY_WITHDRAWAL_LEN
    + COMPUTE_LEAF_HASHES_LEN + VERIFY_OLD_ROOT_TAIL_LEN + COMPUTE_NEW_UNCLAIMED_LEN
    + VERIFY_OUTPUTS_FIXED_LEN + VERIFY_DELEGATE_BALANCE_LEN + TRAILER_LEN + EMBEDDED_LEN_PUSH"

lemmas declared_lengths = PREFIX_LEN_def STASH_LEN_def VALIDATE_AMOUNTS_LEN_def VERIFY_WITHDRAWAL_LEN_def
  COMPUTE_LEAF_HASHES_LEN_def VERIFY_OLD_ROOT_TAIL_LEN_def COMPUTE_NEW_UNCLAIMED_LEN_def
  VERIFY_OUTPUTS_FIXED_LEN_def VERIFY_DELEGATE_BALANCE_LEN_def TRAILER_LEN_def MERKLE_STEP_LEN_def
  EMBEDDED_LEN_PUSH_def FIXED_LEN_def

definition perm_redeem_script_len :: "nat \<Rightarrow> nat" where
  "perm_redeem_script_len depth = FIXED_LEN + 2 * depth * MERKLE_STEP_LEN"

subsection \<open>Pushes\<close>

definition push_data :: "bytes \<Rightarrow> bytes" where
  "push_data data = word_of_nat (length data) # data"

text \<open>The loop over \<open>abs_val\<close>: its significant bytes, lowest first.\<close>

fun abs_bytes :: "nat \<Rightarrow> bytes" where
  "abs_bytes abs_val = (if abs_val = 0 then [] else word_of_nat abs_val # abs_bytes (abs_val div 256))"

declare abs_bytes.simps [simp del]

definition push_i64 :: "int \<Rightarrow> bytes" where
  "push_i64 val =
    (if val = 0 then [0x00]
     else if val = -1 then [0x4f]
     else if 1 \<le> val \<and> val \<le> 16 then [0x50 + word_of_int val]
     else
       (let negative = val < 0; buf = abs_bytes (nat \<bar>val\<bar>) in
        push_data
         (if last buf AND 0x80 \<noteq> 0 then buf @ [if negative then 0x80 else 0x00]
          else if negative then butlast buf @ [last buf OR 0x80]
          else buf)))"

subsection \<open>Phases\<close>

definition emit_prefix :: "bytes \<Rightarrow> u64 \<Rightarrow> bytes" where
  "emit_prefix root unclaimed_count = [0x20] @ root @ [0x08] @ wr_u64_le unclaimed_count"

definition emit_stash :: bytes where
  "emit_stash = [OP_TOALTSTACK, OP_TOALTSTACK]"

definition emit_validate_amounts :: bytes where
  "emit_validate_amounts =
    [OP_DUP] @ push_i64 0 @ [OP_GREATERTHAN, OP_VERIFY]
    @ [OP_DUP, OP_TOALTSTACK]
    @ [OP_OVER, OP_SWAP, OP_SUB, OP_DUP] @ push_i64 0 @ [OP_GREATERTHANOREQUAL, OP_VERIFY]"

definition emit_verify_withdrawal :: bytes where
  "emit_verify_withdrawal =
    push_i64 2 @ [OP_ROLL]
    @ [OP_DUP]
    @ push_data (wr_u16_le 0) @ [OP_SWAP, OP_CAT]
    @ push_i64 0 @ [OP_TXOUTPUTSPK, OP_EQUALVERIFY]
    @ [OP_ROT, OP_ROT]"

definition emit_compute_leaf_hashes :: bytes where
  "emit_compute_leaf_hashes =
    [OP_DUP] @ push_i64 0 @ [OP_EQUAL, OP_TOALTSTACK]
    @ push_i64 8 @ [OP_NUM2BIN]
    @ [OP_ROT, OP_DUP, OP_TOALTSTACK]
    @ [OP_SWAP, OP_CAT] @ push_data [perm_node_u8 PermLeaf] @ [OP_SWAP, OP_CAT, OP_SHA256]
    @ push_data [perm_node_u8 PermEmpty] @ [OP_SHA256]
    @ [OP_FROMALTSTACK, OP_FROMALTSTACK, OP_DUP, OP_TOALTSTACK, OP_SWAP, OP_TOALTSTACK]
    @ [OP_IF, OP_NIP, OP_ELSE, OP_DROP, OP_ENDIF]
    @ [OP_TOALTSTACK]
    @ [OP_FROMALTSTACK, OP_FROMALTSTACK]
    @ [OP_ROT, OP_CAT] @ push_data [perm_node_u8 PermLeaf] @ [OP_SWAP, OP_CAT, OP_SHA256]
    @ [OP_SWAP, OP_TOALTSTACK]"

definition emit_merkle_step :: bytes where
  "emit_merkle_step =
    [OP_SWAP, OP_IF, OP_ELSE, OP_SWAP, OP_ENDIF, OP_CAT]
    @ push_data [perm_node_u8 PermBranch] @ [OP_SWAP, OP_CAT, OP_SHA256]"

definition emit_hash_redeem_to_spk :: bytes where
  "emit_hash_redeem_to_spk =
    [OP_BLAKE2B] @ push_data [0x00, 0x00, OP_BLAKE2B, 0x20] @ [OP_SWAP, OP_CAT]
    @ push_data [OP_EQUAL] @ [OP_CAT]"

definition emit_verify_old_root :: "nat \<Rightarrow> bytes" where
  "emit_verify_old_root depth =
    concat (replicate depth emit_merkle_step)
    @ [OP_FROMALTSTACK, OP_FROMALTSTACK, OP_FROMALTSTACK, OP_FROMALTSTACK]
    @ push_i64 4 @ [OP_ROLL, OP_EQUALVERIFY]
    @ [OP_ROT, OP_SWAP, OP_TOALTSTACK, OP_SWAP, OP_TOALTSTACK]"

definition emit_compute_new_root :: "nat \<Rightarrow> bytes" where
  "emit_compute_new_root depth = concat (replicate depth emit_merkle_step)"

definition emit_compute_new_unclaimed :: bytes where
  "emit_compute_new_unclaimed =
    [OP_FROMALTSTACK, OP_FROMALTSTACK, OP_FROMALTSTACK]
    @ [OP_ROT]
    @ [OP_IF] @ push_i64 1 @ [OP_SUB, OP_ELSE, OP_ENDIF]
    @ push_i64 8 @ [OP_NUM2BIN]
    @ [OP_ROT, OP_SWAP]"

definition emit_verify_outputs :: "int \<Rightarrow> bytes" where
  "emit_verify_outputs redeem_script_len =
    [OP_FALSE, OP_TXOUTPUTAMOUNT] @ push_i64 3 @ [OP_PICK, OP_GREATERTHANOREQUAL, OP_VERIFY]
    @ [OP_TXOUTPUTCOUNT] @ push_i64 MAX_OUTPUTS @ [OP_GREATERTHAN] @ push_i64 0 @ [OP_EQUALVERIFY]
    @ [OP_DUP] @ push_data (wr_u64_le 0) @ [OP_EQUAL]
    @ [OP_IF]
      @ [OP_DROP, OP_DROP]
      @ [OP_TXINPUTINDEX, OP_INPUTCOVENANTID, OP_COVOUTCOUNT] @ push_i64 0 @ [OP_EQUALVERIFY]
      @ [OP_FALSE, OP_TXOUTPUTAMOUNT, OP_OVER, OP_TXINPUTINDEX, OP_TXINPUTAMOUNT, OP_ADD,
         OP_GREATERTHANOREQUAL, OP_VERIFY]
    @ [OP_ELSE]
      @ push_i64 8 @ [OP_SWAP, OP_CAT]
      @ [OP_SWAP] @ push_data [0x20] @ [OP_SWAP, OP_CAT]
      @ [OP_SWAP, OP_CAT]
      @ [OP_TXINPUTINDEX, OP_TXINPUTINDEX, OP_TXINPUTSCRIPTSIGLEN]
      @ push_i64 (- redeem_script_len + int PREFIX_LEN)
      @ [OP_ADD, OP_TXINPUTINDEX, OP_TXINPUTSCRIPTSIGLEN, OP_TXINPUTSCRIPTSIGSUBSTR, OP_CAT]
      @ emit_hash_redeem_to_spk
      @ push_i64 1 @ [OP_TXOUTPUTSPK, OP_EQUALVERIFY]
      @ [OP_TXINPUTINDEX, OP_INPUTCOVENANTID, OP_DUP, OP_COVOUTCOUNT, OP_DUP]
      @ push_i64 1 @ [OP_EQUALVERIFY, OP_1SUB, OP_COVOUTPUTIDX] @ push_i64 1 @ [OP_EQUALVERIFY]
      @ [OP_TXINPUTINDEX, OP_TXINPUTAMOUNT] @ push_i64 1 @ [OP_TXOUTPUTAMOUNT, OP_NUMEQUALVERIFY]
    @ [OP_ENDIF]"

definition emit_delegate_input :: "nat \<Rightarrow> bytes" where
  "emit_delegate_input i =
    [OP_TXINPUTCOUNT] @ push_i64 (int (i + 1)) @ [OP_GREATERTHANOREQUAL]
    @ [OP_IF]
      @ push_i64 (int i) @ [OP_TXINPUTSPK, OP_FROMALTSTACK, OP_DUP, OP_TOALTSTACK, OP_EQUAL]
      @ [OP_IF] @ push_i64 (int i) @ [OP_TXINPUTAMOUNT, OP_ADD] @ [OP_ENDIF]
    @ [OP_ENDIF]"

definition emit_verify_delegate_balance :: bytes where
  "emit_verify_delegate_balance =
    (let n = MAX_DELEGATE_INPUTS in
     [OP_TXINPUTCOUNT] @ push_i64 (int (n + 2)) @ [OP_GREATERTHAN] @ push_i64 0 @ [OP_EQUALVERIFY]
     @ [OP_TXINPUTINDEX, OP_INPUTCOVENANTID]
     @ push_data DELEGATE_SCRIPT_PREFIX @ [OP_SWAP, OP_CAT]
     @ push_data DELEGATE_SCRIPT_SUFFIX @ [OP_CAT]
     @ emit_hash_redeem_to_spk @ [OP_TOALTSTACK]
     @ push_i64 0
     @ concat (map emit_delegate_input [1..<n + 1])
     @ [OP_TXINPUTCOUNT] @ push_i64 (int (n + 2)) @ [OP_GREATERTHANOREQUAL]
     @ [OP_IF]
       @ push_i64 (int (n + 1)) @ [OP_TXINPUTSPK, OP_FROMALTSTACK, OP_DUP, OP_TOALTSTACK, OP_EQUAL,
          OP_FALSE, OP_EQUALVERIFY]
     @ [OP_ENDIF]
     @ [OP_SWAP, OP_SUB, OP_DUP] @ push_i64 0 @ [OP_GREATERTHANOREQUAL, OP_VERIFY]
     @ [OP_TXINPUTINDEX, OP_INPUTCOVENANTID, OP_COVOUTCOUNT] @ push_i64 1 @ [OP_ADD]
     @ [OP_OVER] @ push_i64 0 @ [OP_GREATERTHAN]
     @ [OP_IF]
       @ [OP_DUP, OP_TXOUTPUTSPK, OP_FROMALTSTACK, OP_EQUALVERIFY, OP_TXOUTPUTAMOUNT, OP_EQUALVERIFY]
     @ [OP_ELSE]
       @ [OP_DROP, OP_DROP, OP_FROMALTSTACK, OP_DROP]
     @ [OP_ENDIF])"

definition emit_trailer :: bytes where
  "emit_trailer = [OP_TRUE, OP_TRUE, OP_DROP]"

subsection \<open>The redeem script\<close>

definition build_permission_redeem_bytes :: "bytes \<Rightarrow> u64 \<Rightarrow> nat \<Rightarrow> int \<Rightarrow> bytes" where
  "build_permission_redeem_bytes root unclaimed_count depth redeem_script_len =
    emit_prefix root unclaimed_count @ emit_stash @ emit_validate_amounts @ emit_verify_withdrawal
    @ emit_compute_leaf_hashes @ emit_verify_old_root depth @ emit_compute_new_root depth
    @ emit_compute_new_unclaimed @ emit_verify_outputs redeem_script_len
    @ emit_verify_delegate_balance @ emit_trailer"

definition build_permission_redeem_script :: "bytes \<Rightarrow> u64 \<Rightarrow> nat \<Rightarrow> string + bytes" where
  "build_permission_redeem_script root unclaimed_count depth =
    (let len = perm_redeem_script_len depth;
         script = build_permission_redeem_bytes root unclaimed_count depth (int len) in
     if length script = len then Inr script
     else Inl ''perm_redeem_script_len disagrees with the builder'')"

definition blake2b_script_hash :: "crypto \<Rightarrow> bytes \<Rightarrow> bytes" where
  "blake2b_script_hash cr redeem_script = cr_blake2b cr redeem_script"

subsection \<open>The accumulator\<close>

definition PERM_MAX_DEPTH :: nat where "PERM_MAX_DEPTH = 32"

definition perm_acc_new :: streaming_builder where
  "perm_acc_new = mt_new PERM_MAX_DEPTH"

definition perm_empty_hashes :: "crypto \<Rightarrow> hash list" where
  "perm_empty_hashes cr = compute_empty_hashes (sha_parts_with_domain cr) perm_tags PERM_MAX_DEPTH"

definition perm_hash_leaf :: "crypto \<Rightarrow> standard_spk \<Rightarrow> u64 \<Rightarrow> hash" where
  "perm_hash_leaf cr dest amount =
    mt_hash_leaf_parts (sha_parts_with_domain cr) perm_tags
      [script_slice (to_script_bytes dest), wr_u64_le amount]"

definition perm_add_exit ::
  "crypto \<Rightarrow> standard_spk \<times> u64 \<Rightarrow> streaming_builder \<Rightarrow> string + streaming_builder" where
  "perm_add_exit cr e acc =
    add_leaf_parts (sha_parts_with_domain cr) perm_tags
      [script_slice (to_script_bytes (fst e)), wr_u64_le (snd e)] acc"

definition perm_finalize :: "crypto \<Rightarrow> streaming_builder \<Rightarrow> string + bytes" where
  "perm_finalize cr acc =
    (let n = leaf_count acc in
     if n = 0 then Inr ZERO_HASH
     else
       rbind (mt_finalize (sha_parts_with_domain cr) perm_tags (perm_empty_hashes cr) acc) (\<lambda>root.
       let depth = required_depth PERM_MAX_DEPTH (unat n) in
       rbind (build_permission_redeem_script root (ucast n) depth) (\<lambda>redeem.
       Inr (blake2b_script_hash cr redeem))))"

subsection \<open>Script numbers\<close>

text \<open>
  The number a push leaves on the stack: little-endian magnitude with the sign in the top bit of
  the last byte; the empty string is zero and the small numbers have opcodes of their own.
\<close>

definition script_num :: "bytes \<Rightarrow> int" where
  "script_num bs =
    (if bs = [] then 0
     else let m = int (le_nat (butlast bs @ [last bs AND 0x7f]))
          in if last bs AND 0x80 \<noteq> 0 then - m else m)"

definition pushed_num :: "bytes \<Rightarrow> int option" where
  "pushed_num s =
    (case s of
       [] \<Rightarrow> None
     | b # data \<Rightarrow>
         if data = [] then
           (if b = 0x4f then Some (-1) else if b = 0 then Some 0
            else if 0x51 \<le> b \<and> b \<le> 0x60 then Some (uint b - 0x50) else None)
         else if unat b = length data then Some (script_num data) else None)"

lemma bit_top: "bit (0x80 :: byte) n \<longleftrightarrow> n = 7"
  using bit_push_one [of 7 n] by auto

lemma and_top_bit: "(b :: byte) AND 0x80 = 0 \<longleftrightarrow> \<not> bit b 7"
proof -
  have "b AND 0x80 = (if bit b 7 then 0x80 else 0)"
    by (rule bit_eqI) (auto simp: bit_and_iff bit_top simp del: bit_numeral_word_iff)
  then show ?thesis by (simp split: if_splits)
qed

lemma low_bits_cases:
  "\<not> bit b 7 \<Longrightarrow> (b :: byte) AND 0x7f = b"
  "\<not> bit b 7 \<Longrightarrow> (b OR 0x80) AND 0x7f = b"
  "bit (b OR 0x80) 7"
proof -
  have m: "(0x7f :: byte) = mask 7" by (simp add: mask_eq_exp_minus_1)
  have less: "n < 7 \<longleftrightarrow> n < 8 \<and> n \<noteq> 7" for n :: nat by auto
  show "\<not> bit b 7 \<Longrightarrow> b AND 0x7f = b" "\<not> bit b 7 \<Longrightarrow> (b OR 0x80) AND 0x7f = b"
    unfolding m
    by (rule bit_eqI, auto simp: bit_and_iff bit_or_iff bit_mask_iff bit_top less simp del: bit_numeral_word_iff)+
  show "bit (b OR 0x80) 7" by (simp add: bit_or_iff bit_top del: bit_numeral_word_iff)
qed

lemma abs_bytes_pos: "0 < n \<Longrightarrow> abs_bytes n = word_of_nat n # abs_bytes (n div 256)"
  by (simp add: abs_bytes.simps [of n])

lemma abs_bytes_0 [simp]: "abs_bytes 0 = []"
  by (simp add: abs_bytes.simps)

lemma abs_bytes_Nil [simp]: "abs_bytes n = [] \<longleftrightarrow> n = 0"
  by (simp add: abs_bytes.simps [of n])

lemma le_nat_abs_bytes: "le_nat (abs_bytes n) = n"
proof (induction n rule: abs_bytes.induct)
  case (1 n)
  then show ?case by (cases "n = 0") (simp_all add: abs_bytes_pos unat_byte_of_nat)
qed

lemma length_abs_bytes: "length (abs_bytes n) \<le> k \<longleftrightarrow> n < 256 ^ k"
proof (induction n arbitrary: k rule: abs_bytes.induct)
  case (1 n)
  show ?case
  proof (cases "n = 0")
    case False
    then show ?thesis
      using 1 [of "k - 1"] by (cases k) (simp_all add: abs_bytes_pos div_less_iff_less_mult mult.commute)
  qed simp
qed

lemma le_nat_snoc_0: "le_nat (bs @ [0]) = le_nat bs"
  by (induction bs) simp_all

text \<open>The bytes \<open>push_i64\<close> hands to \<open>push_data\<close> outside the small cases.\<close>

definition signed_bytes :: "int \<Rightarrow> bytes" where
  "signed_bytes v =
    (let buf = abs_bytes (nat \<bar>v\<bar>) in
     if last buf AND 0x80 \<noteq> 0 then buf @ [if v < 0 then 0x80 else 0x00]
     else if v < 0 then butlast buf @ [last buf OR 0x80] else buf)"

lemma push_i64_large: "v < -1 \<or> 16 < v \<Longrightarrow> push_i64 v = push_data (signed_bytes v)"
  by (auto simp: push_i64_def signed_bytes_def Let_def)

lemma push_i64_small: "0 \<le> v \<Longrightarrow> v \<le> 16 \<Longrightarrow> length (push_i64 v) = 1"
  by (simp add: push_i64_def)

lemma script_num_signed_bytes:
  assumes "v \<noteq> 0"
  shows "script_num (signed_bytes v) = v"
proof -
  define buf where "buf = abs_bytes (nat \<bar>v\<bar>)"
  have ne: "buf \<noteq> []" and val: "int (le_nat buf) = \<bar>v\<bar>" using assms by (simp_all add: buf_def le_nat_abs_bytes)
  then have split: "butlast buf @ [last buf] = buf" by simp
  show ?thesis
  proof (cases "bit (last buf) 7")
    case True
    then show ?thesis
      using val le_nat_snoc_0 [of buf]
      by (auto simp: signed_bytes_def script_num_def Let_def and_top_bit simp flip: buf_def)
  next
    case False
    then show ?thesis
      using val ne split low_bits_cases [of "last buf"]
      by (auto simp: signed_bytes_def script_num_def Let_def and_top_bit simp flip: buf_def)
  qed
qed

lemma length_signed_bytes: "v \<noteq> 0 \<Longrightarrow> \<bar>v\<bar> < 2 ^ 64 \<Longrightarrow> length (signed_bytes v) \<le> 9 \<and> signed_bytes v \<noteq> []"
  using length_abs_bytes [of "nat \<bar>v\<bar>" 8] by (auto simp: signed_bytes_def Let_def nat_less_iff)

lemma length_push_len:
  assumes "256 \<le> m" "m < 65536"
  shows "length (push_i64 (- int m)) = (if m < 32768 then 3 else 4)"
proof -
  have "abs_bytes m = [word_of_nat m, word_of_nat (m div 256)]"
    using assms by (simp add: abs_bytes_pos)
  moreover have "bit (word_of_nat (m div 256) :: byte) 7 \<longleftrightarrow> \<not> m < 32768"
  proof -
    have "bit (word_of_nat (m div 256) :: byte) 7 \<longleftrightarrow> odd (m div 256 div 2 ^ 7)"
      unfolding bit_of_nat_iff by (simp add: bit_iff_odd [of "m div 256"])
    also have "m div 256 div 2 ^ 7 = m div 32768" by (simp add: div_mult2_eq [symmetric])
    also have "odd (m div 32768) \<longleftrightarrow> \<not> m < 32768"
    proof (cases "m < 32768")
      case False
      then have "m div 32768 = 1" using assms(2) by (intro div_nat_eqI) simp_all
      then show ?thesis using False by simp
    qed simp
    finally show ?thesis .
  qed
  ultimately show ?thesis
    using assms push_i64_large [of "- int m"] by (simp add: signed_bytes_def push_data_def and_top_bit)
qed

text \<open>C28: \<open>push_i64\<close> emits a push of exactly the number it is given, of at most nine
  data bytes, for every number of 64 bits and sign.\<close>

theorem push_i64_correct:
  assumes "\<bar>v\<bar> < 2 ^ 64"
  shows "pushed_num (push_i64 v) = Some v \<and> length (push_i64 v) \<le> 10"
proof (cases "v < -1 \<or> 16 < v")
  case True
  then have "signed_bytes v \<noteq> []" "length (signed_bytes v) \<le> 9" "script_num (signed_bytes v) = v"
    using length_signed_bytes [of v] script_num_signed_bytes [of v] assms by auto
  then show ?thesis
    using True by (simp add: push_i64_large push_data_def pushed_num_def unat_of_nat)
next
  case False
  then consider "v = -1" | "v = 0" | "1 \<le> v \<and> v \<le> 16" by linarith
  then show ?thesis
  proof cases
    case 3
    define n where "n = nat v"
    have n: "v = int n" "n \<le> 16" "1 \<le> n" using 3 by (auto simp: n_def)
    have "uint (0x50 + word_of_nat n :: byte) = 0x50 + int n" using n(2)
      by (simp add: uint_word_ariths unsigned_of_nat take_bit_eq_mod)
    then show ?thesis
      using n by (auto simp: push_i64_def pushed_num_def word_le_def word_uint_eq_iff)
  qed (simp_all add: push_i64_def pushed_num_def)
qed

theorem push_i64_correct_witness:
  "pushed_num (push_i64 (-1107)) = Some (-1107) \<and> length (push_i64 (-1107)) \<le> 10"
  using push_i64_correct [of "-1107"] by simp

subsection \<open>The length of the script\<close>

lemma length_delegate_input: "1 \<le> i \<Longrightarrow> i \<le> 8 \<Longrightarrow> length (emit_delegate_input i) = 16"
  using push_i64_small [of "int i"] push_i64_small [of "int (i + 1)"] by (simp add: emit_delegate_input_def)

lemma length_phases:
  "length root = 32 \<Longrightarrow> length (emit_prefix root c) = PREFIX_LEN"
  "length emit_stash = STASH_LEN"
  "length emit_validate_amounts = VALIDATE_AMOUNTS_LEN"
  "length emit_verify_withdrawal = VERIFY_WITHDRAWAL_LEN"
  "length emit_compute_leaf_hashes = COMPUTE_LEAF_HASHES_LEN"
  "length emit_merkle_step = MERKLE_STEP_LEN"
  "length emit_compute_new_unclaimed = COMPUTE_NEW_UNCLAIMED_LEN"
  "length emit_trailer = TRAILER_LEN"
  "length (emit_verify_outputs len) = VERIFY_OUTPUTS_FIXED_LEN + length (push_i64 (int PREFIX_LEN - len))"
  by (simp_all add: emit_prefix_def emit_stash_def emit_validate_amounts_def emit_verify_withdrawal_def
      emit_compute_leaf_hashes_def emit_merkle_step_def emit_compute_new_unclaimed_def emit_trailer_def
      emit_verify_outputs_def emit_hash_redeem_to_spk_def push_data_def push_i64_small wr_u64_le_def
      wr_u16_le_def MAX_OUTPUTS_def declared_lengths)

lemma length_delegate_balance: "length emit_verify_delegate_balance = VERIFY_DELEGATE_BALANCE_LEN"
proof -
  have "length (concat (map emit_delegate_input [1..<MAX_DELEGATE_INPUTS + 1]))
      = length (map emit_delegate_input [1..<MAX_DELEGATE_INPUTS + 1]) * 16"
    by (rule length_concat_const) (auto simp: length_delegate_input MAX_DELEGATE_INPUTS_def)
  then have "length (concat (map emit_delegate_input [1..<MAX_DELEGATE_INPUTS + 1])) = 128"
    by (simp add: MAX_DELEGATE_INPUTS_def)
  then show ?thesis
    unfolding emit_verify_delegate_balance_def Let_def length_append
    by (simp add: push_i64_small DELEGATE_SCRIPT_PREFIX_def DELEGATE_SCRIPT_SUFFIX_def
        emit_hash_redeem_to_spk_def push_data_def declared_lengths del: upt_Suc)
      (simp add: MAX_DELEGATE_INPUTS_def push_i64_small)
qed

lemma length_merkle_steps: "length (concat (replicate d emit_merkle_step)) = d * MERKLE_STEP_LEN"
  using length_concat_const [of "replicate d emit_merkle_step" MERKLE_STEP_LEN] by (auto simp: length_phases)

lemma length_redeem_bytes:
  "length root = 32 \<Longrightarrow>
    length (build_permission_redeem_bytes root c depth (int len)) + EMBEDDED_LEN_PUSH
      = perm_redeem_script_len depth + length (push_i64 (int PREFIX_LEN - int len))"
  by (simp add: build_permission_redeem_bytes_def length_phases length_delegate_balance
      emit_verify_old_root_def emit_compute_new_root_def length_merkle_steps push_i64_small
      perm_redeem_script_len_def declared_lengths)

lemma length_push_long: "32768 \<le> m \<Longrightarrow> 3 < length (push_i64 (- int m))"
proof (cases "m < 65536")
  case False
  then have "2 < length (abs_bytes m)" using length_abs_bytes [of m 2] by (simp flip: not_le)
  then show ?thesis
    using False push_i64_large [of "- int m"] by (simp add: signed_bytes_def push_data_def Let_def)
qed (simp add: length_push_len)



subsection \<open>The exit commitment\<close>

text \<open>Accumulating exits one by one and finalizing, as the aggregator does.\<close>

definition exits_commitment :: "crypto \<Rightarrow> (standard_spk \<times> u64) list \<Rightarrow> string + bytes" where
  "exits_commitment cr es = rbind (fold_r (perm_add_exit cr) es perm_acc_new) (perm_finalize cr)"

definition exits_root :: "crypto \<Rightarrow> (standard_spk \<times> u64) list \<Rightarrow> hash" where
  "exits_root cr es =
    dense_root (sha_parts_with_domain cr) perm_tags (required_depth PERM_MAX_DEPTH (length es))
      (map (\<lambda>e. perm_hash_leaf cr (fst e) (snd e)) es)"

definition exits_script :: "crypto \<Rightarrow> (standard_spk \<times> u64) list \<Rightarrow> bytes" where
  "exits_script cr es =
    build_permission_redeem_bytes (exits_root cr es) (word_of_nat (length es))
      (required_depth PERM_MAX_DEPTH (length es))
      (int (perm_redeem_script_len (required_depth PERM_MAX_DEPTH (length es))))"

lemma fold_add_exit:
  "fold_r (perm_add_exit cr) es b
    = fold_r (add_leaf_hash (sha_parts_with_domain cr) perm_tags) (map (\<lambda>e. perm_hash_leaf cr (fst e) (snd e)) es) b"
  by (induction es arbitrary: b) (auto simp: perm_add_exit_def add_leaf_parts_def perm_hash_leaf_def intro!: rbind_cong)

lemma required_depth_bounds: "1 \<le> required_depth PERM_MAX_DEPTH n \<and> required_depth PERM_MAX_DEPTH n \<le> 32"
  using significant_bits_le [of "n - 1" 0] by (auto simp: required_depth_def PERM_MAX_DEPTH_def min_def not_le Suc_le_eq)

lemma length_dense_root:
  assumes "\<forall>m. length (cr_sha256 cr m) = 32" "\<forall>h \<in> set hs. length h = 32"
  shows "length (dense_root (sha_parts_with_domain cr) T d hs) = 32"
  using assms
  by (cases d; cases hs) (auto simp: mt_hash_branch_def mt_hash_empty_def sha_parts_with_domain_def)

lemma length_exits_root: "\<forall>m. length (cr_sha256 cr m) = 32 \<Longrightarrow> length (exits_root cr es) = 32"
  unfolding exits_root_def
  by (rule length_dense_root) (auto simp: perm_hash_leaf_def mt_hash_leaf_parts_def sha_parts_with_domain_def)

lemma exits_commitment_eq:
  assumes "\<forall>m. length (cr_sha256 cr m) = 32" "length es < 2 ^ 32"
  shows "exits_commitment cr es = Inr (if es = [] then ZERO_HASH else cr_blake2b cr (exits_script cr es))"
proof -
  let ?H = "sha_parts_with_domain cr" and ?hs = "map (\<lambda>e. perm_hash_leaf cr (fst e) (snd e)) es"
  let ?d = "required_depth PERM_MAX_DEPTH (length es)"
  obtain b where b: "fold_r (perm_add_exit cr) es perm_acc_new = Inr b" "builder_holds ?H perm_tags PERM_MAX_DEPTH b ?hs"
    using add_leaves_hold [OF mt_new_holds, of ?hs PERM_MAX_DEPTH ?H perm_tags] assms(2)
    by (auto simp: fold_add_exit perm_acc_new_def PERM_MAX_DEPTH_def)
  then have n: "unat (leaf_count b) = length es" by (simp add: builder_holds_def leaf_count_def)
  show ?thesis
  proof (cases "es = []")
    case True
    then have "leaf_count b = 0" using n by (simp add: unat_eq_0)
    then show ?thesis using True b(1) by (simp add: exits_commitment_def perm_finalize_def)
  next
    case False
    then have nz: "leaf_count b \<noteq> 0" using n by auto
    have fin: "mt_finalize ?H perm_tags (perm_empty_hashes cr) b = Inr (exits_root cr es)"
      using finalize_holds [OF b(2)] False assms(2) by (simp add: perm_empty_hashes_def exits_root_def PERM_MAX_DEPTH_def)
    have cnt: "(ucast (leaf_count b) :: u64) = word_of_nat (length es)"
      by (simp flip: n)
    have "length (exits_script cr es) = perm_redeem_script_len ?d"
      using length_redeem_bytes [OF length_exits_root [OF assms(1)], of es "word_of_nat (length es)" ?d "perm_redeem_script_len ?d"]
        length_push_len [of "403 + 22 * ?d"] required_depth_bounds [of "length es"]
      by (simp add: exits_script_def perm_redeem_script_len_def declared_lengths)
    then show ?thesis
      using False nz b(1) fin n cnt
      by (simp add: exits_commitment_def perm_finalize_def Let_def build_permission_redeem_script_def
          exits_script_def blake2b_script_hash_def)
  qed
qed

lemma to_script_bytes_inj:
  "spk_ok d \<Longrightarrow> spk_ok d' \<Longrightarrow> script_slice (to_script_bytes d) = script_slice (to_script_bytes d') \<Longrightarrow> d = d'"
  by (cases d; cases d') (auto dest: arg_cong [where f = length])

text \<open>The messages that SHA-256 hashes for a list of exits.\<close>

fun dense_inputs :: "crypto \<Rightarrow> node_tags \<Rightarrow> nat \<Rightarrow> hash list \<Rightarrow> bytes set" where
  "dense_inputs cr T 0 hs = (if hs = [] then {nt_empty T} else {})"
| "dense_inputs cr T (Suc d) hs =
    insert (nt_branch T @ dense_root (sha_parts_with_domain cr) T d (take (2 ^ d) hs)
              @ dense_root (sha_parts_with_domain cr) T d (drop (2 ^ d) hs))
      (dense_inputs cr T d (take (2 ^ d) hs) \<union> dense_inputs cr T d (drop (2 ^ d) hs))"

definition leaf_input :: "standard_spk \<times> u64 \<Rightarrow> bytes" where
  "leaf_input e = nt_leaf perm_tags @ script_slice (to_script_bytes (fst e)) @ wr_u64_le (snd e)"

definition exits_inputs :: "crypto \<Rightarrow> (standard_spk \<times> u64) list \<Rightarrow> bytes set" where
  "exits_inputs cr es = leaf_input ` set es
    \<union> dense_inputs cr perm_tags (required_depth PERM_MAX_DEPTH (length es))
        (map (\<lambda>e. perm_hash_leaf cr (fst e) (snd e)) es)"

lemma sha_branch: "mt_hash_branch (sha_parts_with_domain cr) T a b = cr_sha256 cr (nt_branch T @ a @ b)"
  by (simp add: mt_hash_branch_def sha_parts_with_domain_def)

lemma dense_root_binds:
  assumes sha: "\<forall>m. length (cr_sha256 cr m) = 32"
    and "length hs = length hs'" "length hs \<le> 2 ^ d" "\<forall>h \<in> set hs \<union> set hs'. length h = 32"
    "inj_on (cr_sha256 cr) (dense_inputs cr T d hs \<union> dense_inputs cr T d hs')"
    "dense_root (sha_parts_with_domain cr) T d hs = dense_root (sha_parts_with_domain cr) T d hs'"
  shows "hs = hs'"
  using assms(2-)
proof (induction d arbitrary: hs hs')
  case 0
  then show ?case by (cases hs; cases hs') auto
next
  case (Suc d)
  let ?R = "dense_root (sha_parts_with_domain cr) T d" and ?I = "dense_inputs cr T d"
  let ?l = "take (2 ^ d) hs" and ?r = "drop (2 ^ d) hs" and ?l' = "take (2 ^ d) hs'" and ?r' = "drop (2 ^ d) hs'"
  have len: "\<forall>h \<in> set ?l \<union> set ?l'. length h = 32" "\<forall>h \<in> set ?r \<union> set ?r'. length h = 32"
    using Suc.prems(3) by (auto dest: in_set_takeD in_set_dropD)
  have inj: "inj_on (cr_sha256 cr) (?I ?l \<union> ?I ?l')" "inj_on (cr_sha256 cr) (?I ?r \<union> ?I ?r')"
    using Suc.prems(4) by (auto elim!: inj_on_subset)
  have "nt_branch T @ ?R ?l @ ?R ?r = nt_branch T @ ?R ?l' @ ?R ?r'"
    by (rule inj_onD [OF Suc.prems(4)]) (use Suc.prems(5) in \<open>simp_all add: sha_branch\<close>)
  moreover have "length (?R ?l) = 32" "length (?R ?l') = 32"
    by (rule length_dense_root [OF sha]; use len in blast)+
  ultimately have "?R ?l = ?R ?l'" "?R ?r = ?R ?r'" by simp_all
  then have "?l = ?l'" "?r = ?r'"
    using Suc.IH [OF _ _ len(1) inj(1)] Suc.IH [OF _ _ len(2) inj(2)] Suc.prems(1,2) by auto
  then show ?case by (metis append_take_drop_id)
qed

lemma leaf_input_inj: "spk_ok (fst e) \<Longrightarrow> spk_ok (fst e') \<Longrightarrow> leaf_input e = leaf_input e' \<Longrightarrow> e = e'"
proof -
  assume ok: "spk_ok (fst e)" "spk_ok (fst e')" and "leaf_input e = leaf_input e'"
  then have "script_slice (to_script_bytes (fst e)) = script_slice (to_script_bytes (fst e'))" "wr_u64_le (snd e) = wr_u64_le (snd e')"
    by (simp_all add: leaf_input_def wr_u64_le_def append_eq_append_conv)
  then show "e = e'" using ok to_script_bytes_inj u64_le.enc_inj by (auto simp: prod_eq_iff)
qed

lemma hash_leaf_input: "perm_hash_leaf cr (fst e) (snd e) = cr_sha256 cr (leaf_input e)"
  by (simp add: perm_hash_leaf_def mt_hash_leaf_parts_def sha_parts_with_domain_def leaf_input_def)

lemma exits_root_binds:
  assumes sha: "\<forall>m. length (cr_sha256 cr m) = 32"
    and ok: "list_all (\<lambda>e. spk_ok (fst e)) es" "list_all (\<lambda>e. spk_ok (fst e)) es'"
    and len: "length es = length es'" "length es < 2 ^ 32"
    and inj: "inj_on (cr_sha256 cr) (exits_inputs cr es \<union> exits_inputs cr es')"
    and root: "exits_root cr es = exits_root cr es'"
  shows "es = es'"
proof -
  let ?hs = "\<lambda>es. map (\<lambda>e. perm_hash_leaf cr (fst e) (snd e)) es"
  let ?d = "required_depth PERM_MAX_DEPTH (length es)"
  have "?hs es = ?hs es'"
  proof (rule dense_root_binds [OF sha])
    show "length (?hs es) \<le> 2 ^ ?d"
      using required_depth_fits [of "length es" PERM_MAX_DEPTH] len(2) by (simp add: PERM_MAX_DEPTH_def)
    show "inj_on (cr_sha256 cr) (dense_inputs cr perm_tags ?d (?hs es) \<union> dense_inputs cr perm_tags ?d (?hs es'))"
      using inj len(1) by (auto simp: exits_inputs_def elim!: inj_on_subset)
    show "dense_root (sha_parts_with_domain cr) perm_tags ?d (?hs es) = dense_root (sha_parts_with_domain cr) perm_tags ?d (?hs es')"
      using root len(1) by (simp add: exits_root_def)
  qed (use sha len(1) in \<open>auto simp: hash_leaf_input\<close>)
  show ?thesis
  proof (rule nth_equalityI [OF len(1)])
    fix i assume i: "i < length es"
    then have "cr_sha256 cr (leaf_input (es ! i)) = cr_sha256 cr (leaf_input (es' ! i))"
      using arg_cong [OF \<open>?hs es = ?hs es'\<close>, of "\<lambda>l. l ! i"] len(1) by (simp add: hash_leaf_input)
    then have "leaf_input (es ! i) = leaf_input (es' ! i)"
      by (rule inj_onD [OF inj]) (use i len(1) in \<open>auto simp: exits_inputs_def\<close>)
    then show "es ! i = es' ! i" using leaf_input_inj ok i len(1) by (simp add: list_all_length)
  qed
qed

text \<open>C13: accumulating the exits of a bundle never panics and yields the script hash of their
  tree, or the zero sentinel for no exits; as long as SHA-256 does not collide on the messages
  hashed for two lists of exits, nor BLAKE2b on their two scripts, equal commitments mean equal
  exits in the same order.\<close>

theorem exits_commitment_binds:
  assumes sha: "\<forall>m. length (cr_sha256 cr m) = 32"
    and es: "list_all (\<lambda>e. spk_ok (fst e)) es" "length es < 2 ^ 32"
    and es': "list_all (\<lambda>e. spk_ok (fst e)) es'" "length es' < 2 ^ 32"
    and inj: "inj_on (cr_sha256 cr) (exits_inputs cr es \<union> exits_inputs cr es')"
    and blake: "inj_on (cr_blake2b cr) {exits_script cr es, exits_script cr es'}"
    and nz: "ZERO_HASH \<notin> cr_blake2b cr ` {exits_script cr es, exits_script cr es'}"
  shows "exits_commitment cr es = Inr (if es = [] then ZERO_HASH else cr_blake2b cr (exits_script cr es))
    \<and> (exits_commitment cr es = exits_commitment cr es') = (es = es')"
proof -
  note eq = exits_commitment_eq [OF sha es(2)] exits_commitment_eq [OF sha es'(2)]
  have "es = es'" if "cr_blake2b cr (exits_script cr es) = cr_blake2b cr (exits_script cr es')"
  proof -
    have s: "exits_script cr es = exits_script cr es'" by (rule inj_onD [OF blake that]) simp_all
    have "emit_prefix (exits_root cr es) (word_of_nat (length es)) = emit_prefix (exits_root cr es') (word_of_nat (length es'))"
      using arg_cong [OF s, of "take 42"] length_exits_root [OF sha]
      by (simp add: exits_script_def build_permission_redeem_bytes_def length_phases(1) PREFIX_LEN_def)
    then have r: "exits_root cr es = exits_root cr es'" "(word_of_nat (length es) :: u64) = word_of_nat (length es')"
      using length_exits_root [OF sha] u64_le.enc_inj by (auto simp: emit_prefix_def)
    have "length es = length es'"
      using arg_cong [OF r(2), of unat] es(2) es'(2) by (simp add: unat_of_nat)
    then show ?thesis using exits_root_binds [OF sha es(1) es'(1)] r(1) es(2) inj by blast
  qed
  then show ?thesis using eq nz by (auto split: if_splits)
qed

definition pad_hash :: "bytes \<Rightarrow> bytes" where
  "pad_hash m = take 32 (m @ replicate 32 0)"

definition pad_crypto :: crypto where
  "pad_crypto = \<lparr>cr_sha256 = pad_hash, cr_blake3 = (\<lambda>_ _. []), cr_blake2b = id, cr_schnorr = (\<lambda>_ _ _. False)\<rparr>"

theorem exits_commitment_binds_witness:
  "exits_commitment pad_crypto [(PubKey (replicate 32 1), 5)] = Inr (exits_script pad_crypto [(PubKey (replicate 32 1), 5)])
    \<and> exits_commitment pad_crypto [(PubKey (replicate 32 1), 5)] \<noteq> exits_commitment pad_crypto []"
proof -
  let ?e = "[(PubKey (replicate 32 1), 5 :: u64)]"
  have "hd ZERO_HASH \<noteq> 0x20" by (simp add: ZERO_HASH_def)
  then have z: "ZERO_HASH \<noteq> 0x20 # xs" for xs using list.sel(1) by metis
  have s: "\<exists>xs. exits_script pad_crypto es = 0x20 # xs" for es
    by (simp add: exits_script_def build_permission_redeem_bytes_def emit_prefix_def)
  have "inj_on (cr_sha256 pad_crypto) (exits_inputs pad_crypto ?e \<union> exits_inputs pad_crypto [])"
    by (auto simp: exits_inputs_def required_depth_def pad_crypto_def pad_hash_def leaf_input_def perm_tags_def
        perm_hash_leaf_def mt_hash_leaf_parts_def mt_hash_empty_def sha_parts_with_domain_def inj_on_def)
  moreover have "\<forall>m. length (cr_sha256 pad_crypto m) = 32" by (auto simp: pad_crypto_def pad_hash_def)
  moreover have b: "cr_blake2b pad_crypto = id" by (simp add: pad_crypto_def)
  moreover have "ZERO_HASH \<notin> cr_blake2b pad_crypto ` {exits_script pad_crypto ?e, exits_script pad_crypto []}"
    unfolding b using s [of ?e] s [of "[]"] z by auto
  ultimately show ?thesis using exits_commitment_binds [of pad_crypto ?e "[]"] by auto
qed

end
