(* ===== verification/Batch_Aggregator.thy ===== *)
theory Batch_Aggregator
  imports Batch_Verifier Permission_Script
begin

text \<open>
  The batch aggregator of the guest ABI (\<open>zk/abi/src/batch_aggregator\<close>): decoding of the
  bundle input, chaining of the batch transitions of a bundle, and the settlement journal.

  The functions of the L1 lane tree and sequencing commitment are the fields of the record
  \<open>lane_lib\<close>, with the tags of its proof terminals.  The exit accumulator is an interface with
  two providers, the permission tree and the accumulator that drops all exits.
\<close>

subsection \<open>Lane proof\<close>

datatype proof_terminal =
    TermFull
  | TermCollapsed byte
  | TermCollapsedOther byte hash hash

record lane_smt_proof =
  ls_bitmap :: bytes
  ls_terminal :: proof_terminal
  ls_siblings :: "hash list"

record lane_lib =
  ll_full_tag :: byte
  ll_collapsed_tag :: byte
  ll_collapsed_other_tag :: byte
  ll_leaf_hash :: "hash \<Rightarrow> u64 \<Rightarrow> hash"
  ll_compute_root :: "lane_smt_proof \<Rightarrow> hash \<Rightarrow> hash \<Rightarrow> hash option"
  ll_activity_root :: "hash \<Rightarrow> hash \<Rightarrow> hash"
  ll_state_root :: "hash \<Rightarrow> hash \<Rightarrow> hash"
  ll_seq_commit :: "hash \<Rightarrow> hash \<Rightarrow> hash"

record lane_proof =
  lp_payload_and_ctx_digest :: hash
  lp_prev_seq_commit :: hash
  lp_inactivity_shortcut :: hash
  lp_lane_smt_proof :: lane_smt_proof

definition decode_terminal :: "lane_lib \<Rightarrow> proof_terminal reader" where
  "decode_terminal LL buf =
    rbind (rd_byte ''tag'' buf) (\<lambda>(tag, buf).
      if tag = ll_full_tag LL then Inr (TermFull, buf)
      else if tag = ll_collapsed_tag LL then rbind (rd_byte ''depth'' buf) (\<lambda>(depth, buf). Inr (TermCollapsed depth, buf))
      else if tag = ll_collapsed_other_tag LL then
        rbind (rd_byte ''depth'' buf) (\<lambda>(depth, buf).
        rbind (rd_array 32 ''lane_key'' buf) (\<lambda>(lane_key, buf).
        rbind (rd_array 32 ''leaf_hash'' buf) (\<lambda>(leaf_hash, buf).
        Inr (TermCollapsedOther depth lane_key leaf_hash, buf))))
      else Inl (Decode ''tag''))"

definition decode_smt_proof :: "lane_lib \<Rightarrow> string \<Rightarrow> bytes \<Rightarrow> codec_error + lane_smt_proof" where
  "decode_smt_proof LL cast_error buf =
    rbind (rd_array 32 ''bitmap'' buf) (\<lambda>(bitmap, buf).
    rbind (decode_terminal LL buf) (\<lambda>(terminal, buf).
      if length buf mod 32 = 0
      then Inr \<lparr>ls_bitmap = bitmap, ls_terminal = terminal, ls_siblings = chunks 32 (length buf div 32) buf\<rparr>
      else Inl (ZeroCopy cast_error)))"

definition lane_proof_decode :: "lane_lib \<Rightarrow> string \<Rightarrow> lane_proof reader" where
  "lane_proof_decode LL cast_error buf =
    rbind (rd_array 32 ''payload_and_ctx_digest'' buf) (\<lambda>(payload_and_ctx_digest, buf).
    rbind (rd_array 32 ''prev_seq_commit'' buf) (\<lambda>(prev_seq_commit, buf).
    rbind (rd_array 32 ''inactivity_shortcut'' buf) (\<lambda>(inactivity_shortcut, buf).
    rbind (rd_blob ''lane_smt_proof'' buf) (\<lambda>(smt_bytes, buf).
    rbind (decode_smt_proof LL cast_error smt_bytes) (\<lambda>lane_smt_proof.
    Inr (\<lparr>lp_payload_and_ctx_digest = payload_and_ctx_digest, lp_prev_seq_commit = prev_seq_commit,
      lp_inactivity_shortcut = inactivity_shortcut, lp_lane_smt_proof = lane_smt_proof\<rparr>, buf))))))"

text \<open>The host's encoder, on the fields of the RPC response.\<close>

definition lane_proof_encode :: "hash \<Rightarrow> hash \<Rightarrow> hash \<Rightarrow> bytes \<Rightarrow> bytes" where
  "lane_proof_encode payload_and_ctx_digest parent_seq_commit inactivity_shortcut smt_bytes =
    payload_and_ctx_digest @ parent_seq_commit @ inactivity_shortcut @ write_blob smt_bytes"

subsection \<open>Inputs\<close>

record ba_inputs =
  ai_batch_image_id :: bytes
  ai_lane_proof :: lane_proof
  ai_batch_journals :: bytes

definition ba_inputs_decode :: "lane_lib \<Rightarrow> string \<Rightarrow> bytes \<Rightarrow> abi_error + ba_inputs" where
  "ba_inputs_decode LL cast_error buf =
    rbind (abi (rd_array 32 ''batch_image_id'' buf)) (\<lambda>(batch_image_id, buf).
    rbind (abi (lane_proof_decode LL cast_error buf)) (\<lambda>(lane_proof, buf).
    Inr \<lparr>ai_batch_image_id = batch_image_id, ai_lane_proof = lane_proof, ai_batch_journals = buf\<rparr>))"

definition ba_inputs_encode :: "bytes \<Rightarrow> bytes \<Rightarrow> bytes list \<Rightarrow> bytes" where
  "ba_inputs_encode batch_image_id lane_proof_bytes batch_journals =
    batch_image_id @ lane_proof_bytes @ concat (map write_blob batch_journals)"

text \<open>The zerocopy view of a batch journal: a fixed header of 273 bytes and the exits behind it.\<close>

definition BATCH_HEADER :: nat where "BATCH_HEADER = 273"

definition batch_transition_cast :: "string \<Rightarrow> bytes \<Rightarrow> codec_error + batch_transition" where
  "batch_transition_cast cast_error bs =
    (if length bs < BATCH_HEADER then Inl (ZeroCopy cast_error)
     else Inr \<lparr>bt_prev_state = take 32 bs, bt_prev_lane_tip = take 32 (drop 32 bs),
       bt_prev_lane_blue_score = word_of_nat (le_nat (take 8 (drop 64 bs))),
       bt_new_state = take 32 (drop 72 bs), bt_new_lane_tip = take 32 (drop 104 bs),
       bt_new_lane_blue_score = word_of_nat (le_nat (take 8 (drop 136 bs))),
       bt_lane_key = take 32 (drop 144 bs), bt_covenant_id = take 32 (drop 176 bs),
       bt_tx_image_id = take 32 (drop 208 bs), bt_deposit_spk_hash = take 32 (drop 240 bs),
       bt_lane_expired = bs ! 272, bt_exits = drop 273 bs\<rparr>)"

subsection \<open>The settlement journal\<close>

record state_transition =
  st_prev_state :: hash
  st_prev_lane_tip :: hash
  st_new_state :: hash
  st_new_lane_tip :: hash
  st_new_seq_commit :: hash
  st_covenant_id :: bytes
  st_tx_image_id :: bytes
  st_batch_image_id :: bytes
  st_permission_spk_hash :: bytes
  st_deposit_spk_hash :: bytes
  st_lane_key :: hash

definition state_transition_encode :: "state_transition \<Rightarrow> bytes" where
  "state_transition_encode s =
    st_prev_state s @ st_prev_lane_tip s @ st_new_state s @ st_new_lane_tip s @ st_new_seq_commit s
    @ st_covenant_id s @ st_tx_image_id s @ st_batch_image_id s @ st_permission_spk_hash s
    @ st_deposit_spk_hash s @ st_lane_key s"

subsection \<open>The verifier\<close>

record 'a ba_verifier =
  a_batch_image_id :: bytes
  a_lane_proof :: lane_proof
  a_first_batch :: batch_transition
  a_remaining :: bytes
  a_exits :: 'a
  a_deposit :: bytes

definition ba_verified_journal ::
  "acceptance \<Rightarrow> string \<Rightarrow> bytes \<Rightarrow> bytes \<Rightarrow> string + batch_transition" where
  "ba_verified_journal accepts cast_error image_id bs =
    rbind (guard_r (accepts image_id bs) ''verify journal'') (\<lambda>_.
    expect ''decode BatchTransition'' (batch_transition_cast cast_error bs))"

definition ba_new ::
  "lane_lib \<Rightarrow> string \<Rightarrow> acceptance \<Rightarrow> 'a \<Rightarrow> bytes \<Rightarrow> string + 'a ba_verifier" where
  "ba_new LL cast_error accepts exits input_bytes =
    rbind (expect ''decode aggregator inputs'' (ba_inputs_decode LL cast_error input_bytes)) (\<lambda>inputs.
    rbind (case entries_next journal_entry (ai_batch_journals inputs) of
             None \<Rightarrow> Inl ''empty bundle''
           | Some r \<Rightarrow> expect ''first journal'' r) (\<lambda>(first, remaining).
    rbind (ba_verified_journal accepts cast_error (ai_batch_image_id inputs) first) (\<lambda>first_batch.
    Inr \<lparr>a_batch_image_id = ai_batch_image_id inputs, a_lane_proof = ai_lane_proof inputs,
      a_first_batch = first_batch, a_remaining = remaining, a_exits = exits, a_deposit = ZERO_HASH\<rparr>)))"

definition stream_exits ::
  "(standard_spk \<times> u64 \<Rightarrow> 'a \<Rightarrow> string + 'a) \<Rightarrow> batch_transition \<Rightarrow> 'a \<Rightarrow> string + 'a" where
  "stream_exits add_exit batch exits =
    rbind (expect ''decode exit entry'' (exits_iter (bt_exits batch))) (\<lambda>es. fold_r add_exit es exits)"

definition chains_onto :: "batch_transition \<Rightarrow> batch_transition \<Rightarrow> string + unit" where
  "chains_onto prev this =
    rbind (guard_r (bt_lane_key this = bt_lane_key prev) ''lane_key'') (\<lambda>_.
    rbind (guard_r (bt_covenant_id this = bt_covenant_id prev) ''covenant_id'') (\<lambda>_.
    rbind (guard_r (bt_tx_image_id this = bt_tx_image_id prev) ''tx_image_id'') (\<lambda>_.
    rbind (guard_r (bt_prev_state this = bt_new_state prev) ''prev_state'') (\<lambda>_.
    rbind (guard_r (bt_prev_lane_blue_score this = bt_new_lane_blue_score prev) ''lane_blue_score'') (\<lambda>_.
    if bt_lane_expired this = 0 then guard_r (bt_prev_lane_tip this = bt_new_lane_tip prev) ''prev_lane_tip''
    else Inr ())))))"

definition absorb_batch ::
  "(standard_spk \<times> u64 \<Rightarrow> 'a \<Rightarrow> string + 'a) \<Rightarrow> batch_transition \<Rightarrow> 'a \<times> bytes \<Rightarrow> string + ('a \<times> bytes)" where
  "absorb_batch add_exit batch st =
    rbind (stream_exits add_exit batch (fst st)) (\<lambda>exits.
    rbind (carry_deposit_hash ''two distinct deposit_spk_hash values in one bundle'' (bt_deposit_spk_hash batch) (snd st)) (\<lambda>deposit.
    Inr (exits, deposit)))"

definition next_batch ::
  "acceptance \<Rightarrow> string \<Rightarrow> (standard_spk \<times> u64 \<Rightarrow> 'a \<Rightarrow> string + 'a) \<Rightarrow> bytes \<Rightarrow> bytes
    \<Rightarrow> batch_transition \<times> 'a \<times> bytes \<Rightarrow> string + (batch_transition \<times> 'a \<times> bytes)" where
  "next_batch accepts cast_error add_exit image_id journal st =
    rbind (ba_verified_journal accepts cast_error image_id journal) (\<lambda>this.
    rbind (chains_onto (fst st) this) (\<lambda>_.
    rbind (absorb_batch add_exit this (snd st)) (\<lambda>acc. Inr (this, acc))))"

definition verify_batches ::
  "acceptance \<Rightarrow> string \<Rightarrow> (standard_spk \<times> u64 \<Rightarrow> 'a \<Rightarrow> string + 'a) \<Rightarrow> 'a ba_verifier
    \<Rightarrow> string + ('a ba_verifier \<times> batch_transition)" where
  "verify_batches accepts cast_error add_exit v =
    rbind (absorb_batch add_exit (a_first_batch v) (a_exits v, a_deposit v)) (\<lambda>acc.
    rbind (expect ''decode batch journal'' (journals_iter (a_remaining v))) (\<lambda>js.
    rbind (fold_r (next_batch accepts cast_error add_exit (a_batch_image_id v)) js (a_first_batch v, acc)) (\<lambda>(last_batch, exits, deposit).
    Inr (v\<lparr>a_exits := exits, a_deposit := deposit\<rparr>, last_batch))))"

definition new_seq_commit :: "lane_lib \<Rightarrow> lane_proof \<Rightarrow> hash \<Rightarrow> hash \<Rightarrow> u64 \<Rightarrow> string + hash" where
  "new_seq_commit LL lane_proof lane_key lane_tip blue_score =
    (let new_lane_leaf = ll_leaf_hash LL lane_tip blue_score in
     rbind (ok_or (ll_compute_root LL (lp_lane_smt_proof lane_proof) lane_key new_lane_leaf)
        ''lane_smt_proof compute_root'') (\<lambda>new_lanes_root.
     let activity_root = ll_activity_root LL (lp_inactivity_shortcut lane_proof) new_lanes_root;
         state_root_seq = ll_state_root LL activity_root (lp_payload_and_ctx_digest lane_proof)
     in Inr (ll_seq_commit LL (lp_prev_seq_commit lane_proof) state_root_seq)))"

definition commit_state_transition ::
  "lane_lib \<Rightarrow> ('a \<Rightarrow> string + bytes) \<Rightarrow> 'a ba_verifier \<Rightarrow> batch_transition \<Rightarrow> string + state_transition" where
  "commit_state_transition LL finalize v last_batch =
    (let first = a_first_batch v in
     rbind (new_seq_commit LL (a_lane_proof v) (bt_lane_key first) (bt_new_lane_tip last_batch)
        (bt_new_lane_blue_score last_batch)) (\<lambda>seq_commit.
     rbind (finalize (a_exits v)) (\<lambda>permission_spk_hash.
     Inr \<lparr>st_prev_state = bt_prev_state first, st_prev_lane_tip = bt_prev_lane_tip first,
       st_new_state = bt_new_state last_batch, st_new_lane_tip = bt_new_lane_tip last_batch,
       st_new_seq_commit = seq_commit, st_covenant_id = bt_covenant_id first,
       st_tx_image_id = bt_tx_image_id first, st_batch_image_id = a_batch_image_id v,
       st_permission_spk_hash = permission_spk_hash, st_deposit_spk_hash = a_deposit v,
       st_lane_key = bt_lane_key first\<rparr>)))"

text \<open>Build, verify, commit: the run of a guest with a given accumulator.\<close>

definition aggregate ::
  "'a \<Rightarrow> (standard_spk \<times> u64 \<Rightarrow> 'a \<Rightarrow> string + 'a) \<Rightarrow> ('a \<Rightarrow> string + bytes)
    \<Rightarrow> lane_lib \<Rightarrow> string \<Rightarrow> acceptance \<Rightarrow> bytes \<Rightarrow> string + state_transition" where
  "aggregate exits add_exit finalize LL cast_error accepts inputs =
    rbind (ba_new LL cast_error accepts exits inputs) (\<lambda>v.
    rbind (verify_batches accepts cast_error add_exit v) (\<lambda>(v, last_batch).
    commit_state_transition LL finalize v last_batch))"

text \<open>The guest's entry point (\<open>zk/backend/risc0/batch-aggregator/src/main.rs\<close>).\<close>

definition process_bundle ::
  "crypto \<Rightarrow> lane_lib \<Rightarrow> string \<Rightarrow> acceptance \<Rightarrow> bytes \<Rightarrow> string + state_transition" where
  "process_bundle cr = aggregate perm_acc_new (perm_add_exit cr) (perm_finalize cr)"

text \<open>The accumulator that drops exits (\<open>withdrawal/no_exits.rs\<close>).\<close>

definition no_exits_add :: "standard_spk \<times> u64 \<Rightarrow> unit \<Rightarrow> string + unit" where
  "no_exits_add e acc = Inr ()"

definition no_exits_finalize :: "unit \<Rightarrow> string + bytes" where
  "no_exits_finalize acc = Inr ZERO_HASH"

end
