(* ===== verification/Batch_Sound.thy ===== *)
theory Batch_Sound
  imports Batch_Verifier
begin

text \<open>
  What an accepted batch means: the journals it verified replay, in order, as reads and writes of
  one map from resource ids to value hashes; the new state root is the root of that map, the exits
  are those of the successful transactions and the lane tip extends the previous one by exactly
  these transactions.
\<close>

subsection \<open>Replay\<close>

text \<open>Reads and writes of one transaction on the current value hashes: every declared input must
  be the current value; a successful transaction has one output per input.\<close>

fun apply_resources ::
  "(bytes \<Rightarrow> hash) \<Rightarrow> input_resource_commitment list \<Rightarrow> output_resource_commitment list option
    \<Rightarrow> (bytes \<Rightarrow> hash) option" where
  "apply_resources \<sigma> [] None = Some \<sigma>"
| "apply_resources \<sigma> [] (Some os) = (if os = [] then Some \<sigma> else None)"
| "apply_resources \<sigma> (r # rs) None =
    (if \<sigma> (irc_resource_id r) = irc_hash r then apply_resources \<sigma> rs None else None)"
| "apply_resources \<sigma> (r # rs) (Some []) = None"
| "apply_resources \<sigma> (r # rs) (Some (c # cs)) =
    (if \<sigma> (irc_resource_id r) = irc_hash r
     then apply_resources (case c of Changed h \<Rightarrow> \<sigma>(irc_resource_id r := h) | _ \<Rightarrow> \<sigma>) rs (Some cs)
     else None)"

definition apply_entry :: "(bytes \<Rightarrow> hash) \<Rightarrow> journal_entries \<Rightarrow> (bytes \<Rightarrow> hash) option" where
  "apply_entry \<sigma> e =
    (case ic_execution_context (je_input_commitment e) of
       None \<Rightarrow> Some \<sigma>
     | Some ec \<Rightarrow>
         (case je_output_commitment e of
            Failure _ \<Rightarrow> apply_resources \<sigma> (ec_resources ec) None
          | Success _ _ orcs \<Rightarrow>
              (case output_resource_commitments orcs of
                 Inl _ \<Rightarrow> None
               | Inr os \<Rightarrow> apply_resources \<sigma> (ec_resources ec) (Some os))))"

fun replay :: "(bytes \<Rightarrow> hash) \<Rightarrow> journal_entries list \<Rightarrow> (bytes \<Rightarrow> hash) option" where
  "replay \<sigma> [] = Some \<sigma>"
| "replay \<sigma> (e # es) = (case apply_entry \<sigma> e of None \<Rightarrow> None | Some \<sigma>' \<Rightarrow> replay \<sigma>' es)"

definition entry_success :: "journal_entries \<Rightarrow> (bytes \<times> bytes) option" where
  "entry_success e =
    (case (ic_execution_context (je_input_commitment e), je_output_commitment e) of
       (Some _, Success exits h _) \<Rightarrow> Some (exits, h) | _ \<Rightarrow> None)"

definition entry_exits :: "journal_entries \<Rightarrow> bytes" where
  "entry_exits e = (case entry_success e of Some (exits, _) \<Rightarrow> exits | None \<Rightarrow> [])"

definition entry_deposit :: "journal_entries \<Rightarrow> bytes" where
  "entry_deposit e = (case entry_success e of Some (_, h) \<Rightarrow> h | None \<Rightarrow> ZERO_HASH)"

definition entry_leaf :: "seq_lib \<Rightarrow> journal_entries \<Rightarrow> hash" where
  "entry_leaf L e = (let ic = je_input_commitment e in sl_activity_leaf L (ic_tx_id ic) (ic_version ic) (ic_merge_idx ic))"

definition entry_merge_idx :: "journal_entries \<Rightarrow> u32" where
  "entry_merge_idx e = ic_merge_idx (je_input_commitment e)"

text \<open>A journal the batch took into account: proved, and executed in the context of the block.\<close>

definition entry_ok :: "nat \<Rightarrow> acceptance \<Rightarrow> bytes \<Rightarrow> hash \<Rightarrow> bytes \<Rightarrow> journal_entries \<Rightarrow> bool" where
  "entry_ok usize_bits accepts image_id context_hash j e \<longleftrightarrow>
    accepts image_id j \<and> journal_entries_decode usize_bits j = Inr e
    \<and> (case ic_execution_context (je_input_commitment e) of
         Some ec \<Rightarrow> ec_context_hash ec = context_hash
       | None \<Rightarrow> je_output_commitment e = Failure (error_of_code VersionIncompatible))"

text \<open>\<open>c\<close> is the one value other than the zero sentinel among \<open>ds\<close>, or zero if there is none.\<close>

definition uniform :: "bytes \<Rightarrow> bytes list \<Rightarrow> bool" where
  "uniform c ds \<longleftrightarrow> (\<forall>d \<in> set ds. d = ZERO_HASH \<or> d = c) \<and> (c = ZERO_HASH \<or> c \<in> set ds)"

subsection \<open>Carried values\<close>

lemma carry_uniform:
  "carry_deposit_hash msg h c = Inr c' \<Longrightarrow> uniform c ds \<Longrightarrow> uniform c' (ds @ [h])"
  by (auto simp: carry_deposit_hash_def uniform_def split: if_splits)

lemma uniform_Nil: "uniform ZERO_HASH []"
  by (simp add: uniform_def)

lemma uniform_zero: "uniform c ds \<Longrightarrow> uniform c (ds @ [ZERO_HASH])"
  by (auto simp: uniform_def)

lemma emit_exits_buf:
  assumes "emit_exits exits sink = Inr sink'"
  shows "es_buf sink' = es_buf sink @ exits"
proof -
  obtain es where es: "exits_iter exits = Inr es"
      "fold_r (\<lambda>(dest, amount) s. expect ''emit exit'' (exit_emit dest amount s)) es sink = Inr sink'"
    using assms by (auto simp: emit_exits_def)
  from es(2) have "es_buf sink' = es_buf sink @ concat (map exit_bytes es)"
    by (induction es arbitrary: sink) (auto simp: exit_emit_def exit_bytes_def)
  moreover have "exits = concat (map exit_bytes es)"
    using exit_wire.entries_canonical es(1) by (simp add: exits_iter_def)
  ultimately show ?thesis by simp
qed

subsection \<open>Resources\<close>

text \<open>The hash table of the verifier, seen through the keys of the proof.\<close>

definition tracks :: "smt_proof \<Rightarrow> (bytes \<Rightarrow> hash) \<Rightarrow> hash list \<Rightarrow> (bytes \<Rightarrow> hash) \<Rightarrow> bool" where
  "tracks p \<sigma>0 latest \<sigma> \<longleftrightarrow>
    length latest = length (pf_memberships p)
    \<and> (\<forall>j < length latest. latest ! j = \<sigma> (pf_keys p ! j))
    \<and> (\<forall>k. k \<notin> set (take (length latest) (pf_keys p)) \<longrightarrow> \<sigma> k = \<sigma>0 k)"

definition keys_ok :: "smt_proof \<Rightarrow> bool" where
  "keys_ok p \<longleftrightarrow> length (pf_memberships p) \<le> length (pf_keys p) \<and> distinct (take (length (pf_memberships p)) (pf_keys p))"

lemma verified_batch_idx_Inr:
  assumes "verified_batch_idx p latest r = Inr idx"
  shows "idx < length latest \<and> irc_hash r = latest ! idx \<and> irc_resource_id r = pf_keys p ! idx"
  using assms
  by (auto simp: verified_batch_idx_def Let_def pf_member_def member_present_def member_absent_def pf_key_def
      split: if_splits membership.splits)

lemma tracks_update:
  assumes "tracks p \<sigma>0 latest \<sigma>" "keys_ok p" "idx < length latest"
  shows "tracks p \<sigma>0 (latest[idx := h]) (\<sigma>(pf_keys p ! idx := h))"
proof -
  let ?n = "length latest"
  have n: "?n = length (pf_memberships p)" "?n \<le> length (pf_keys p)" using assms(1,2) by (auto simp: tracks_def keys_ok_def)
  have inj: "pf_keys p ! j = pf_keys p ! idx \<longleftrightarrow> j = idx" if "j < ?n" for j
    using nth_eq_iff_index_eq [of "take ?n (pf_keys p)" j idx] assms(2,3) that n by (simp add: keys_ok_def)
  have "pf_keys p ! idx \<in> set (take ?n (pf_keys p))"
    using assms(3) n(2) by (metis length_take min.absorb2 nth_mem nth_take)
  then show ?thesis using assms(1,3) inj by (auto simp: tracks_def nth_list_update)
qed

lemma verify_resources_None:
  assumes "verify_resources p rs latest None = Inr (latest', outputs)" "tracks p \<sigma>0 latest \<sigma>"
  shows "latest' = latest \<and> outputs = None \<and> apply_resources \<sigma> rs None = Some \<sigma>"
  using assms by (induction rs) (auto dest!: verified_batch_idx_Inr simp: tracks_def)

lemma verify_resources_Some:
  assumes "verify_resources p rs latest (Some buf) = Inr (latest', outputs)" "tracks p \<sigma>0 latest \<sigma>" "keys_ok p"
  shows "\<exists>os buf' \<sigma>'. outputs = Some buf' \<and> list_all orc_ok os \<and> buf = concat (map orc_bytes os) @ buf'
    \<and> apply_resources \<sigma> rs (Some os) = Some \<sigma>' \<and> tracks p \<sigma>0 latest' \<sigma>'"
  using assms(1,2)
proof (induction rs arbitrary: latest buf \<sigma>)
  case Nil
  then show ?case by (intro exI [of _ "[]"] exI [of _ buf] exI [of _ \<sigma>]) auto
next
  case (Cons r rs)
  from Cons.prems(1) obtain idx where idx: "verified_batch_idx p latest r = Inr idx" by auto
  note i = verified_batch_idx_Inr [OF idx]
  from Cons.prems(1) idx obtain c buf1 where c: "orc_decode buf = Inr (c, buf1)"
      "verify_resources p rs (case c of Changed h \<Rightarrow> latest[idx := h] | _ \<Rightarrow> latest) (Some buf1) = Inr (latest', outputs)"
    by (auto simp: entries_next_def split: if_splits sum.splits)
  let ?\<sigma> = "case c of Changed h \<Rightarrow> \<sigma>(irc_resource_id r := h) | _ \<Rightarrow> \<sigma>"
  have "tracks p \<sigma>0 (case c of Changed h \<Rightarrow> latest[idx := h] | _ \<Rightarrow> latest) ?\<sigma>"
    using Cons.prems(2) tracks_update [OF Cons.prems(2) assms(3), of idx] i by (cases c) auto
  from Cons.IH [OF c(2) this] obtain os buf' \<sigma>' where os: "outputs = Some buf'" "list_all orc_ok os"
      "buf1 = concat (map orc_bytes os) @ buf'" "apply_resources ?\<sigma> rs (Some os) = Some \<sigma>'" "tracks p \<sigma>0 latest' \<sigma>'"
    by blast
  have "\<sigma> (irc_resource_id r) = irc_hash r" using Cons.prems(2) i by (simp add: tracks_def)
  then show ?case
    using os c(1) by (intro exI [of _ "c # os"] exI [of _ buf'] exI [of _ \<sigma>']) (auto simp: orc_wire.dec_iff)
qed

subsection \<open>Transactions\<close>

definition batch_state :: "bp_verifier \<Rightarrow> (bytes \<Rightarrow> hash) \<Rightarrow> (bytes \<Rightarrow> hash) \<Rightarrow> bool" where
  "batch_state v \<sigma>0 \<sigma> \<longleftrightarrow> tracks (bi_proof (v_inputs v)) \<sigma>0 (v_latest v) \<sigma> \<and> keys_ok (bi_proof (v_inputs v))"

lemma verify_executed_Failure:
  assumes "verify_executed ctx ec (Failure err) v = Inr v'" "batch_state v \<sigma>0 \<sigma>"
  shows "v' = v \<and> ec_context_hash ec = ctx \<and> apply_resources \<sigma> (ec_resources ec) None = Some \<sigma>"
  using assms verify_resources_None [of "bi_proof (v_inputs v)" "ec_resources ec" "v_latest v"]
  by (auto simp: verify_executed_def batch_state_def)

lemma verify_executed_Success:
  assumes "verify_executed ctx ec (Success exits h orcs) v = Inr v'" "batch_state v \<sigma>0 \<sigma>"
  shows "\<exists>os \<sigma>'. ec_context_hash ec = ctx \<and> v_inputs v' = v_inputs v \<and> es_buf (v_exits v') = es_buf (v_exits v) @ exits
    \<and> carry_deposit_hash ''two distinct deposit_spk_hash values in one batch'' h (v_deposit v) = Inr (v_deposit v')
    \<and> output_resource_commitments orcs = Inr os \<and> apply_resources \<sigma> (ec_resources ec) (Some os) = Some \<sigma>'
    \<and> batch_state v' \<sigma>0 \<sigma>'"
proof -
  from assms(1) obtain dep sink latest outputs where s: "ec_context_hash ec = ctx"
      "carry_deposit_hash ''two distinct deposit_spk_hash values in one batch'' h (v_deposit v) = Inr dep"
      "emit_exits exits (v_exits v) = Inr sink"
      "verify_resources (bi_proof (v_inputs v)) (ec_resources ec) (v_latest v) (Some orcs) = Inr (latest, outputs)"
      "case outputs of Some buf \<Rightarrow> entries_next orc_decode buf = None | None \<Rightarrow> True"
      "v' = v\<lparr>v_deposit := dep, v_exits := sink, v_latest := latest\<rparr>"
    by (auto simp: verify_executed_def)
  obtain os buf' \<sigma>' where r: "outputs = Some buf'" "list_all orc_ok os" "orcs = concat (map orc_bytes os) @ buf'"
      "apply_resources \<sigma> (ec_resources ec) (Some os) = Some \<sigma>'" "tracks (bi_proof (v_inputs v)) \<sigma>0 latest \<sigma>'"
    using verify_resources_Some [OF s(4)] assms(2) unfolding batch_state_def by metis
  have "orcs = concat (map orc_bytes os)" using r(1,3) s(5) by (simp add: entries_next_def split: if_splits)
  then have "output_resource_commitments orcs = Inr os"
    using orc_wire.entries_round_trip [OF r(2)] by (simp add: output_resource_commitments_def)
  then show ?thesis
    using s r(4,5) emit_exits_buf [OF s(3)] assms(2) by (auto simp: batch_state_def)
qed

lemma verified_journal_Inr:
  assumes "verified_journal ub accepts image_id j mi = Inr (e, mi')"
  shows "accepts image_id j \<and> journal_entries_decode ub j = Inr e \<and> mi' = Some (entry_merge_idx e)
    \<and> (case mi of Some m \<Rightarrow> m < entry_merge_idx e | None \<Rightarrow> True)
    \<and> (ic_execution_context (je_input_commitment e) = None \<longrightarrow> je_output_commitment e = Failure (error_of_code VersionIncompatible))"
  using assms
  by (auto simp: verified_journal_def Let_def entry_merge_idx_def error_of_code_def
      split: option.splits output_commitment.splits abi_error.splits)

text \<open>What one verified transaction does to the state of the verifier.\<close>

definition tx_effect :: "(bytes \<Rightarrow> hash) \<Rightarrow> bp_verifier \<Rightarrow> (bytes \<Rightarrow> hash) \<Rightarrow> journal_entries \<Rightarrow> bp_verifier \<Rightarrow> (bytes \<Rightarrow> hash) \<Rightarrow> bool" where
  "tx_effect \<sigma>0 v \<sigma> e v' \<sigma>' \<longleftrightarrow>
    apply_entry \<sigma> e = Some \<sigma>' \<and> batch_state v' \<sigma>0 \<sigma>' \<and> v_inputs v' = v_inputs v
    \<and> es_buf (v_exits v') = es_buf (v_exits v) @ entry_exits e
    \<and> (\<forall>ds. uniform (v_deposit v) ds \<longrightarrow> uniform (v_deposit v') (ds @ [entry_deposit e]))"

lemma verify_tx_effect:
  assumes "verify_tx ub accepts L ctx j (v, mi, act) = Inr (v', mi', act')" "batch_state v \<sigma>0 \<sigma>"
  shows "\<exists>e \<sigma>'. entry_ok ub accepts (bi_tx_image_id (v_inputs v)) ctx j e \<and> tx_effect \<sigma>0 v \<sigma> e v' \<sigma>'
    \<and> mi' = Some (entry_merge_idx e) \<and> (case mi of Some m \<Rightarrow> m < entry_merge_idx e | None \<Rightarrow> True)
    \<and> act' = act @ [entry_leaf L e]"
proof -
  from assms(1) obtain e where e: "verified_journal ub accepts (bi_tx_image_id (v_inputs v)) j mi = Inr (e, mi')"
      "(case ic_execution_context (je_input_commitment e) of
          Some ec \<Rightarrow> verify_executed ctx ec (je_output_commitment e) v | None \<Rightarrow> Inr v) = Inr v'"
      "act' = act @ [entry_leaf L e]"
    by (auto simp: verify_tx_def Let_def entry_leaf_def)
  note j = verified_journal_Inr [OF e(1)]
  have "\<exists>\<sigma>'. entry_ok ub accepts (bi_tx_image_id (v_inputs v)) ctx j e \<and> tx_effect \<sigma>0 v \<sigma> e v' \<sigma>'"
  proof (cases "ic_execution_context (je_input_commitment e)")
    case None
    then show ?thesis
      using e(2) j assms(2)
      by (auto simp: entry_ok_def tx_effect_def apply_entry_def entry_exits_def entry_deposit_def entry_success_def uniform_zero)
  next
    case ec: (Some ec)
    show ?thesis
    proof (cases "je_output_commitment e")
      case (Success exits h orcs)
      have "verify_executed ctx ec (Success exits h orcs) v = Inr v'" using e(2) ec Success by simp
      from verify_executed_Success [OF this assms(2)] show ?thesis
        using j ec Success carry_uniform
        by (auto simp: entry_ok_def tx_effect_def apply_entry_def entry_exits_def entry_deposit_def entry_success_def)
    next
      case (Failure err)
      have "verify_executed ctx ec (Failure err) v = Inr v'" using e(2) ec Failure by simp
      from verify_executed_Failure [OF this assms(2)] show ?thesis
        using j ec Failure assms(2)
        by (auto simp: entry_ok_def tx_effect_def apply_entry_def entry_exits_def entry_deposit_def entry_success_def uniform_zero)
    qed
  qed
  then show ?thesis using j e(3) by auto
qed

lemma verify_txs_effect:
  assumes "fold_r (verify_tx ub accepts L ctx) js (v, mi, act) = Inr (v', mi', act')" "batch_state v \<sigma>0 \<sigma>"
    "uniform (v_deposit v) ds"
  shows "\<exists>es \<sigma>'. list_all2 (entry_ok ub accepts (bi_tx_image_id (v_inputs v)) ctx) js es
    \<and> replay \<sigma> es = Some \<sigma>' \<and> batch_state v' \<sigma>0 \<sigma>' \<and> v_inputs v' = v_inputs v
    \<and> es_buf (v_exits v') = es_buf (v_exits v) @ concat (map entry_exits es)
    \<and> uniform (v_deposit v') (ds @ map entry_deposit es)
    \<and> sorted_wrt (<) ((case mi of Some m \<Rightarrow> [m] | None \<Rightarrow> []) @ map entry_merge_idx es)
    \<and> act' = act @ map (entry_leaf L) es"
  using assms
proof (induction js arbitrary: v mi act \<sigma> ds)
  case Nil
  then show ?case by (auto split: option.splits)
next
  case (Cons j js)
  from Cons.prems(1) obtain v1 mi1 act1 where st: "verify_tx ub accepts L ctx j (v, mi, act) = Inr (v1, mi1, act1)"
      "fold_r (verify_tx ub accepts L ctx) js (v1, mi1, act1) = Inr (v', mi', act')"
    by (auto simp: rbind_eq_Inr)
  from verify_tx_effect [OF st(1) Cons.prems(2)] obtain e \<sigma>1 where e:
      "entry_ok ub accepts (bi_tx_image_id (v_inputs v)) ctx j e" "tx_effect \<sigma>0 v \<sigma> e v1 \<sigma>1"
      "mi1 = Some (entry_merge_idx e)" "case mi of Some m \<Rightarrow> m < entry_merge_idx e | None \<Rightarrow> True"
      "act1 = act @ [entry_leaf L e]" by blast
  have t: "batch_state v1 \<sigma>0 \<sigma>1" "uniform (v_deposit v1) (ds @ [entry_deposit e])"
    using e(2) Cons.prems(3) by (auto simp: tx_effect_def)
  from Cons.IH [OF st(2) t] obtain es \<sigma>' where es:
      "list_all2 (entry_ok ub accepts (bi_tx_image_id (v_inputs v1)) ctx) js es"
      "replay \<sigma>1 es = Some \<sigma>'" "batch_state v' \<sigma>0 \<sigma>'" "v_inputs v' = v_inputs v1"
      "es_buf (v_exits v') = es_buf (v_exits v1) @ concat (map entry_exits es)"
      "uniform (v_deposit v') ((ds @ [entry_deposit e]) @ map entry_deposit es)"
      "sorted_wrt (<) (entry_merge_idx e # map entry_merge_idx es)"
      "act' = act1 @ map (entry_leaf L) es"
    using e(3) by auto
  have "sorted_wrt (<) ((case mi of Some m \<Rightarrow> [m] | None \<Rightarrow> []) @ map entry_merge_idx (e # es))"
    using e(4) es(7) by (auto split: option.splits)
  then show ?case
    using e es by (intro exI [of _ "e # es"] exI [of _ \<sigma>']) (auto simp: tx_effect_def)
qed

subsection \<open>Roots\<close>

lemma walk_pair_prev:
  assumes "proof_tree p start stop lvl c t c'" "walk_pair H p f start stop lvl c = Inr ((a, b), c2)"
  shows "eval_tree H (prev_fn f) t = Inr a \<and> c2 = c'"
  using assms
proof (induction arbitrary: a b c2 rule: proof_tree.induct)
  case (pt_leaf start stop lvl c)
  then show ?case
    by (auto simp: walk_pair.simps [of H p f] terminal_value_alt prev_fn_def split: sum.splits option.splits)
next
  case (pt_split start stop lvl c c1 mid l c2' r c3)
  have "\<exists>x x' d y y'. walk_pair H p f start mid (lvl + 1) c1 = Inr ((x, x'), d)
      \<and> walk_pair H p f mid stop (lvl + 1) d = Inr ((y, y'), c2) \<and> a = combine H x y"
    using pt_split.prems pt_split.hyps
    by (auto simp: walk_pair.simps [of H p f start stop lvl c] terminal_value_alt Let_def)
  then show ?case using pt_split.IH by fastforce
next
  case (pt_side start stop lvl c c1 goes_left sib c2' t c3)
  have "\<exists>x x'. walk_pair H p f start stop (lvl + 1) c2' = Inr ((x, x'), c2) \<and> a = combine_with_sibling H x sib goes_left"
    using pt_side.prems pt_side.hyps
    by (auto simp: walk_pair.simps [of H p f start stop lvl c] terminal_value_alt Let_def)
  then show ?case using pt_side.IH by fastforce
qed (auto simp: walk_pair.simps [of H p f] terminal_value_alt)

lemma eval_tree_mono:
  "eval_tree H f t = Inr a \<Longrightarrow> (\<And>i x. f i = Inr x \<Longrightarrow> g i = Inr x) \<Longrightarrow> eval_tree H g t = Inr a"
  by (induction t arbitrary: a) auto

lemma compute_roots_prev:
  assumes "well_shaped H p" "compute_roots H p nv = Inr (a, b)"
  shows "pf_root H p = Inr a"
proof -
  obtain t c where t: "proof_tree p 0 (length (pf_leaves p)) 0 (0, 0) t c" using assms(1) by (auto simp: well_shaped_def)
  let ?f = "\<lambda>i. leaf_pair H p i (mbl_at (members_by_leaf p) i) nv"
  obtain x y d where w: "walk_pair H p ?f 0 (length (pf_leaves p)) 0 (0, 0) = Inr ((x, y), d)" "a = hn_hash x"
    using assms(2) by (auto simp: compute_roots_def Let_def)
  have "eval_tree H (leaf_hash H p) t = Inr x"
    by (rule eval_tree_mono) (use walk_pair_prev [OF t w(1)] in \<open>auto simp: prev_fn_def leaf_pair_def leaf_hash_def Let_def\<close>)
  then show ?thesis using walk_eval [OF t] w(2) by (simp add: pf_root_def)
qed

lemma proof_decode_keys:
  assumes "proof_decode usize_bits bs = Inr p" "k \<in> set (pf_keys p)"
  shows "length k = 32"
proof -
  obtain rest where s: "rd_slice_as usize_bits 32 Inr ''keys'' bs = Inr (pf_keys p, rest)"
    using assms(1) by (auto simp: proof_decode_def)
  obtain bs' where b: "length bs' = length (pf_keys p) * 32"
      "map_r Inr (chunks 32 (length (pf_keys p)) bs') = (Inr (pf_keys p) :: codec_error + bytes list)"
    using rd_slice_as_Inr [OF s] by (elim exE conjE)
  have "map_r Inr xs = (Inr xs :: codec_error + bytes list)" for xs by (induction xs) simp_all
  then have "chunks 32 (length (pf_keys p)) bs' = pf_keys p" using b(2) by simp
  then have "set (chunks 32 (length (pf_keys p)) bs') = set (pf_keys p)" by (rule arg_cong)
  then show ?thesis using chunks_length [OF b(1), of k] assms(2) by simp
qed

lemma bp_new_Inr:
  assumes "bp_new usize_bits bs = Inr v"
  shows "bp_inputs_decode usize_bits bs = Inr (v_inputs v) \<and> proof_checked (bi_proof (v_inputs v))
    \<and> length (v_latest v) = length (pf_memberships (bi_proof (v_inputs v)))
    \<and> (\<forall>j < length (v_latest v). \<exists>m. pf_member (bi_proof (v_inputs v)) j = Inr m \<and> v_latest v ! j = member_value_hash m)
    \<and> es_buf (v_exits v) = [] \<and> v_deposit v = ZERO_HASH"
proof -
  let ?f = "\<lambda>m. rbind (expect ''called Result::unwrap() on an Err value'' m) (\<lambda>m. Inr (member_value_hash m))"
  let ?p = "bi_proof (v_inputs v)"
  from assms have d: "bp_inputs_decode usize_bits bs = Inr (v_inputs v)" "check_sorted_queried_keys ?p = Inr ()"
      "map_r ?f (pf_members ?p) = Inr (v_latest v)" "v_exits v = exit_sink_new" "v_deposit v = ZERO_HASH"
    by (auto simp: bp_new_def)
  have len: "length (v_latest v) = length (pf_memberships ?p)" using map_r_length [OF d(3)] by (simp add: pf_members_def)
  have mem: "\<exists>m. pf_member ?p j = Inr m \<and> v_latest v ! j = member_value_hash m" if "j < length (v_latest v)" for j
    using map_r_nth [OF d(3), of j] that len by (auto simp: pf_members_def)
  obtain pb where "proof_decode usize_bits pb = Inr ?p"
    using d(1) by (auto simp: bp_inputs_decode_def) (metis bp_inputs.select_convs(1))
  then have "proof_checked ?p"
    using d(2) mem len proof_decode_keys by (fastforce simp: proof_checked_def all_members_ok_def is_ok_iff)
  then show ?thesis using d(1,4,5) len mem by (simp add: exit_sink_new_def)
qed

lemma lookup_hash_live: "distinct (map fst ys) \<Longrightarrow> lookup_hash (filter live ys) k = lookup_hash ys k"
proof (induction ys)
  case (Cons y ys)
  have "map_of ys k = None" if "k \<notin> fst ` set ys" using that by (simp add: map_of_eq_None_iff)
  then show ?case using Cons by (cases y) (auto simp: lookup_hash_def live_def)
qed simp

lemma lookup_apply_commits:
  assumes "distinct (map fst cs)" "distinct (map fst xs)"
  shows "lookup_hash (apply_commits xs cs) k = (case map_of cs k of Some v \<Rightarrow> v | None \<Rightarrow> lookup_hash xs k)"
proof -
  let ?zs = "filter (\<lambda>x. fst x \<notin> fst ` set cs) xs"
  have "distinct (map fst (cs @ ?zs))" using assms by (force simp: distinct_map_filter)
  then have "lookup_hash (apply_commits xs cs) k = lookup_hash (cs @ ?zs) k"
    unfolding apply_commits_def by (rule lookup_hash_live)
  moreover have "map_of ?zs k = map_of xs k" if "map_of cs k = None"
    by (rule map_of_filter_key) (use that in \<open>simp add: map_of_eq_None_iff\<close>)
  ultimately show ?thesis by (auto simp: lookup_hash_def map_add_def split: option.splits)
qed

lemma tracks_lookup:
  assumes "tracks p (lookup_hash xs) latest \<sigma>" "keys_ok p" "fits ROOT xs"
  shows "lookup_hash (apply_commits xs (queried_changes p (\<lambda>q. latest ! q))) = \<sigma>"
proof
  fix k
  let ?n = "length (pf_memberships p)"
  let ?cs = "queried_changes p (\<lambda>q. latest ! q)"
  have keys: "map fst ?cs = take ?n (pf_keys p)"
    using assms(2) by (intro nth_equalityI) (auto simp: queried_changes_def member_changes_def keys_ok_def)
  have d: "distinct (map fst ?cs)" unfolding keys using assms(2) by (simp add: keys_ok_def)
  have vals: "v = \<sigma> k" if "(k, v) \<in> set ?cs" for v
    using that assms(1) by (auto simp: queried_changes_def member_changes_def tracks_def)
  show "lookup_hash (apply_commits xs ?cs) k = \<sigma> k"
  proof (cases "map_of ?cs k")
    case None
    then have "k \<notin> set (take ?n (pf_keys p))" unfolding keys [symmetric] by (simp add: map_of_eq_None_iff)
    then show ?thesis
      using None lookup_apply_commits [OF d] assms(1,3) by (simp add: tracks_def fits_def)
  next
    case (Some v)
    then show ?thesis
      using lookup_apply_commits [OF d] assms(3) vals [OF map_of_SomeD [OF Some]] by (simp add: fits_def)
  qed
qed

lemma queried_fits:
  assumes "proof_checked p" "fits ROOT xs"
  shows "fits ROOT (apply_commits xs (queried_changes p nv))"
proof -
  have "fits ROOT (queried_changes p nv)"
    using assms(1) queried_keys_inj [of p]
    by (auto simp: fits_def on_path_def ROOT_def queried_changes_def member_changes_def proof_checked_def comp_def)
  then show ?thesis using assms(2) by (rule fits_apply_commits [rotated])
qed

subsection \<open>Properties\<close>

text \<open>The state of the verifier after construction follows the entries the proof speaks of.\<close>

lemma bp_new_state:
  assumes "bp_new usize_bits bs = Inr v" "ideal_hash H" "fits ROOT xs" "list_all live xs"
    "well_shaped H (bi_proof (v_inputs v))" "pf_root H (bi_proof (v_inputs v)) = Inr (spec_root H xs)"
  shows "batch_state v (lookup_hash xs) (lookup_hash xs)"
proof -
  let ?p = "bi_proof (v_inputs v)"
  note n = bp_new_Inr [OF assms(1)]
  have chk: "proof_checked ?p" using n by simp
  have "v_latest v ! j = lookup_hash xs (pf_keys ?p ! j)" if "j < length (v_latest v)" for j
    using that n members_sound [OF assms(2-5) chk assms(6)] by fastforce
  moreover have "keys_ok ?p"
    using chk queried_keys_inj(1) [of ?p]
    by (auto simp: proof_checked_def keys_ok_def check_sorted_queried_keys_def Let_def adjacent_sorted_wrt strict_sorted_iff split: if_splits)
  ultimately show ?thesis using n by (simp add: batch_state_def tracks_def)
qed

lemma process_batch_Inr:
  assumes "process_batch usize_bits accepts L H bs = Inr t"
  obtains v v' tip score where "bp_new usize_bits bs = Inr v" "verify_batch usize_bits accepts L v = Inr (v', tip, score)"
    "commit_batch_transition H v' tip score = Inr t"
  using assms by (auto simp: process_batch_def)

lemma verify_batch_inputs:
  assumes "verify_batch usize_bits accepts L v = Inr (v', tip, score)"
  shows "v_inputs v' = v_inputs v"
proof -
  have ex: "v_inputs w' = v_inputs w" if "verify_executed ctx ec oc w = Inr w'" for ctx ec oc w w'
    using that by (cases oc) (auto simp: verify_executed_def)
  have tx: "v_inputs (fst s') = v_inputs (fst s)" if "verify_tx usize_bits accepts L ctx j s = Inr s'" for ctx j s s'
    using that ex by (cases s) (fastforce simp: verify_tx_def Let_def split: option.splits)
  have "v_inputs (fst s') = v_inputs v" if "fold_r (verify_tx usize_bits accepts L ctx) js (v, None, []) = Inr s'" for ctx js s'
    by (rule fold_r_invariant [OF that]) (use tx in auto)
  then show ?thesis
    using assms by (fastforce simp: verify_batch_def verified_activity_digest_def Let_def split: if_splits)
qed

text \<open>Everything verification of a batch establishes, for journals \<open>js\<close> with entries \<open>es\<close>.\<close>

definition batch_effect ::
  "nat \<Rightarrow> acceptance \<Rightarrow> seq_lib \<Rightarrow> bp_inputs \<Rightarrow> bytes list \<Rightarrow> journal_entries list \<Rightarrow> bp_verifier \<Rightarrow> hash \<Rightarrow> u64 \<Rightarrow> bool" where
  "batch_effect usize_bits accepts L i js es v' tip score \<longleftrightarrow>
    (let b = bi_batch i; ctx = sl_context_hash L (bb_prev_timestamp b) (bb_daa_score b) (bb_blue_score b) in
     journals_iter (bb_tx_journals b) = Inr js
     \<and> list_all2 (entry_ok usize_bits accepts (bi_tx_image_id i) ctx) js es
     \<and> sorted_wrt (<) (map entry_merge_idx es)
     \<and> es_buf (v_exits v') = concat (map entry_exits es)
     \<and> uniform (v_deposit v') (map entry_deposit es)
     \<and> (v_deposit v' = ZERO_HASH \<or> v_deposit v' = bi_deposit_spk_hash i)
     \<and> tip = (if es = [] then bb_prev_lane_tip b
              else sl_lane_tip_next L (if bb_lane_expired b then bb_prev_seq_commit b else bb_prev_lane_tip b)
                (bi_lane_key i) (sl_activity_digest L (map (entry_leaf L) es)) ctx)
     \<and> score = (if es = [] then bb_prev_lane_blue_score b else bb_blue_score b))"

lemma journals_iter_empty: "journals_iter [] = Inr []"
  by (simp add: journals_iter_def entries_all.simps entries_next_def)

lemma verify_batch_effect:
  assumes "verify_batch usize_bits accepts L v = Inr (v', tip, score)" "batch_state v \<sigma>0 \<sigma>"
    "v_deposit v = ZERO_HASH" "es_buf (v_exits v) = []"
  shows "\<exists>js es \<sigma>'. batch_effect usize_bits accepts L (v_inputs v) js es v' tip score
    \<and> replay \<sigma> es = Some \<sigma>' \<and> batch_state v' \<sigma>0 \<sigma>'"
proof (cases "bb_tx_journals (bi_batch (v_inputs v)) = []")
  case True
  then show ?thesis
    using assms uniform_Nil
    by (intro exI [of _ "[]"] exI [of _ \<sigma>])
      (auto simp: verify_batch_def journals_iter_empty Let_def batch_effect_def)
next
  case False
  let ?b = "bi_batch (v_inputs v)"
  let ?ctx = "sl_context_hash L (bb_prev_timestamp ?b) (bb_daa_score ?b) (bb_blue_score ?b)"
  from False obtain js mi act where f: "journals_iter (bb_tx_journals ?b) = Inr js"
      "fold_r (verify_tx usize_bits accepts L ?ctx) js (v, None, []) = Inr (v', mi, act)"
      "assert_declared_deposit_hash (v_deposit v') (bi_deposit_spk_hash (v_inputs v')) = Inr ()"
      "tip = sl_lane_tip_next L (if bb_lane_expired ?b then bb_prev_seq_commit ?b else bb_prev_lane_tip ?b)
         (bi_lane_key (v_inputs v')) (sl_activity_digest L act) ?ctx" "score = bb_blue_score ?b"
    using assms(1) by (auto simp: verify_batch_def verified_activity_digest_def Let_def)
  have "js \<noteq> []" using f(1) False journal_wire.entries_canonical [of "bb_tx_journals ?b" js] by (auto simp: journals_iter_def)
  have dep: "v_deposit v' = ZERO_HASH \<or> v_deposit v' = bi_deposit_spk_hash (v_inputs v')"
    using f(3) by (auto simp: assert_declared_deposit_hash_def split: if_splits)
  have u: "uniform (v_deposit v) []" using assms(3) uniform_Nil by simp
  from verify_txs_effect [OF f(2) assms(2) u] obtain es \<sigma>' where es:
      "list_all2 (entry_ok usize_bits accepts (bi_tx_image_id (v_inputs v)) ?ctx) js es"
      "replay \<sigma> es = Some \<sigma>'" "batch_state v' \<sigma>0 \<sigma>'" "v_inputs v' = v_inputs v"
      "es_buf (v_exits v') = concat (map entry_exits es)" "uniform (v_deposit v') (map entry_deposit es)"
      "sorted_wrt (<) (map entry_merge_idx es)" "act = map (entry_leaf L) es"
    using assms(4) by auto
  have "es \<noteq> []" using es(1) \<open>js \<noteq> []\<close> by auto
  then have "batch_effect usize_bits accepts L (v_inputs v) js es v' tip score"
    using es f dep by (simp add: batch_effect_def Let_def)
  then show ?thesis using es(2,3) by blast
qed

lemma bp_new_some_state:
  assumes "bp_new usize_bits bs = Inr v"
  shows "\<exists>\<sigma>. batch_state v \<sigma> \<sigma>"
proof -
  let ?p = "bi_proof (v_inputs v)" and ?n = "length (v_latest v)"
  define \<sigma> where "\<sigma> = (\<lambda>k. case map_of (zip (take ?n (pf_keys ?p)) (v_latest v)) k of Some h \<Rightarrow> h | None \<Rightarrow> [])"
  note n = bp_new_Inr [OF assms]
  then have k: "keys_ok ?p"
    using queried_keys_inj(1) [of ?p]
    by (auto simp: proof_checked_def keys_ok_def check_sorted_queried_keys_def Let_def adjacent_sorted_wrt strict_sorted_iff split: if_splits)
  have "v_latest v ! j = \<sigma> (pf_keys ?p ! j)" if "j < ?n" for j
    using map_of_zip_nth [of "take ?n (pf_keys ?p)" "v_latest v" j] that k n by (simp add: \<sigma>_def keys_ok_def)
  then show ?thesis using k n by (intro exI [of _ \<sigma>]) (simp add: batch_state_def tracks_def)
qed

lemma accepted_batch_replays:
  assumes "process_batch usize_bits accepts L H bs = Inr t" "bp_inputs_decode usize_bits bs = Inr i"
    and "ideal_hash H" "well_shaped H (bi_proof i)"
    and "fits ROOT xs" "list_all live xs" "bt_prev_state t = spec_root H xs"
  shows "\<exists>js es \<sigma> ys. journals_iter (bb_tx_journals (bi_batch i)) = Inr js
    \<and> list_all2 (\<lambda>j e. accepts (bi_tx_image_id i) j \<and> journal_entries_decode usize_bits j = Inr e) js es
    \<and> replay (lookup_hash xs) es = Some \<sigma>
    \<and> fits ROOT ys \<and> list_all live ys \<and> lookup_hash ys = \<sigma> \<and> bt_new_state t = spec_root H ys
    \<and> bt_tx_image_id t = bi_tx_image_id i"
proof -
  obtain v v' tip score where p: "bp_new usize_bits bs = Inr v" "verify_batch usize_bits accepts L v = Inr (v', tip, score)"
      "commit_batch_transition H v' tip score = Inr t"
    using assms(1) by (rule process_batch_Inr)
  note n = bp_new_Inr [OF p(1)]
  have i: "v_inputs v = i" "v_inputs v' = i" using n assms(2) verify_batch_inputs [OF p(2)] by auto
  let ?nv = "\<lambda>q. v_latest v' ! q"
  have r: "compute_roots H (bi_proof i) ?nv = Inr (spec_root H xs, bt_new_state t)"
    using p(3) assms(7) i(2) by (auto simp: commit_batch_transition_def Let_def)
  have root: "pf_root H (bi_proof i) = Inr (spec_root H xs)" by (rule compute_roots_prev [OF assms(4) r])
  have "batch_state v (lookup_hash xs) (lookup_hash xs)"
    using bp_new_state [OF p(1) assms(3,5,6)] assms(4) root i(1) by simp
  from verify_batch_effect [OF p(2) this] obtain js es \<sigma> where e:
      "batch_effect usize_bits accepts L i js es v' tip score" "replay (lookup_hash xs) es = Some \<sigma>" "batch_state v' (lookup_hash xs) \<sigma>"
    using n i(1) by auto
  let ?ys = "apply_commits xs (queried_changes (bi_proof i) ?nv)"
  have chk: "proof_checked (bi_proof i)" using n i(1) by simp
  have "bt_new_state t = spec_root H ?ys" using roots_sound [OF assms(3,5,6,4) chk root, of ?nv] r by simp
  moreover have "lookup_hash ?ys = \<sigma>" using tracks_lookup [OF _ _ assms(5)] e(3) i(2) by (simp add: batch_state_def)
  moreover have "fits ROOT ?ys \<and> list_all live ?ys"
    using queried_fits [OF chk assms(5)] by (auto simp: list_all_iff set_apply_commits)
  moreover have "list_all2 (\<lambda>j e. accepts (bi_tx_image_id i) j \<and> journal_entries_decode usize_bits j = Inr e) js es"
    using e(1) by (auto simp: batch_effect_def Let_def entry_ok_def elim!: list_all2_mono)
  moreover have "bt_tx_image_id t = bi_tx_image_id i"
    using p(3) i(2) by (auto simp: commit_batch_transition_def Let_def)
  ultimately show ?thesis using e(1,2) by (auto simp: batch_effect_def Let_def)
qed



definition sample_key :: bytes where "sample_key = replicate 32 7"

definition sample_value :: hash where "sample_value = replicate 32 1"

definition sample_journal :: bytes where
  "sample_journal = wr_u16_le V1 @ replicate 32 9 @ wr_u32_le 4 @ replicate 32 0
    @ write_slice irc_bytes [\<lparr>irc_resource_index = 0, irc_resource_id = sample_key, irc_hash = sample_value\<rparr>]
    @ [0] @ write_blob (exit_bytes (PubKey (replicate 32 6), 5)) @ replicate 32 8 @ orc_bytes (Changed (replicate 32 2))"

definition sample_batch :: bp_batch where
  "sample_batch = \<lparr>bb_blue_score = 12, bb_daa_score = 13, bb_prev_timestamp = 14, bb_prev_seq_commit = replicate 32 0,
     bb_prev_lane_tip = replicate 32 3, bb_prev_lane_blue_score = 11, bb_lane_expired = False, bb_tx_journals = []\<rparr>"

definition sample_pins :: batch_pins where
  "sample_pins = \<lparr>bi_tx_image_id = replicate 32 0, bi_covenant_id = replicate 32 0, bi_deposit_spk_hash = replicate 32 8,
     bi_lane_key = replicate 32 0\<rparr>"

definition sample_lib :: seq_lib where
  "sample_lib = \<lparr>sl_context_hash = (\<lambda>_ _ _. replicate 32 0), sl_activity_leaf = (\<lambda>_ _ _. replicate 32 0),
     sl_activity_digest = (\<lambda>_. replicate 32 0), sl_lane_tip_next = (\<lambda>_ _ _ _. replicate 32 4)\<rparr>"

definition sample_input :: bytes where
  "sample_input = bp_inputs_encode sample_pins (proof_encode (one_leaf_proof sample_key sample_value)) sample_batch [sample_journal]"

lemma sample_decodes:
  "map_sum id (\<lambda>i. (bi_proof i, journals_iter (bb_tx_journals (bi_batch i)))) (bp_inputs_decode 64 sample_input)
    = Inr (one_leaf_proof sample_key sample_value, Inr [sample_journal])"
  by code_simp

lemma sample_accepted:
  "map_sum id (\<lambda>t. (bt_prev_state t, bt_exits t, bt_deposit_spk_hash t)) (process_batch 64 (\<lambda>_ _. True) sample_lib framed_hash sample_input)
    = Inr (hn_hash (hn_leaf framed_hash sample_key sample_value), exit_bytes (PubKey (replicate 32 6), 5), replicate 32 8)"
  by code_simp

lemma sample_replays:
  "map_sum id (\<lambda>e. map_option (\<lambda>\<sigma>. \<sigma> sample_key) (replay (lookup_hash [(sample_key, sample_value)]) [e]))
    (journal_entries_decode 64 sample_journal) = Inr (Some (replicate 32 2))"
  by code_simp

lemma sample_entries: "fits ROOT [(sample_key, sample_value)]" "list_all live [(sample_key, sample_value)]"
    "spec_root H [(sample_key, sample_value)] = hn_hash (hn_leaf H sample_key sample_value)"
  by (simp_all add: fits_def on_path_def ROOT_def live_def sample_key_def sample_value_def spec_root_def EMPTY_HASH_def)


text \<open>C11: the journal of an accepted batch commits to the proved transactions of the block and
  nothing else: their merge indices increase strictly, executed ones ran in the context of the block
  and skipped ones are of another version; the exits are those of the successful transactions in
  order; the deposit address is the one their deposits agree on and the declared one; the lane tip
  extends the previous tip, or the parent commitment of an expired lane, by their activity.\<close>

theorem batch_journal_sound:
  assumes "process_batch usize_bits accepts L H bs = Inr t" "bp_inputs_decode usize_bits bs = Inr i"
  defines "b \<equiv> bi_batch i"
  defines "ctx \<equiv> sl_context_hash L (bb_prev_timestamp b) (bb_daa_score b) (bb_blue_score b)"
  shows "\<exists>js es. journals_iter (bb_tx_journals b) = Inr js
    \<and> list_all2 (entry_ok usize_bits accepts (bi_tx_image_id i) ctx) js es
    \<and> sorted_wrt (<) (map entry_merge_idx es)
    \<and> bt_exits t = concat (map entry_exits es)
    \<and> uniform (bt_deposit_spk_hash t) (map entry_deposit es)
    \<and> bt_deposit_spk_hash t \<in> {ZERO_HASH, bi_deposit_spk_hash i}
    \<and> bt_prev_lane_tip t = bb_prev_lane_tip b
    \<and> bt_new_lane_tip t = (if es = [] then bb_prev_lane_tip b
         else sl_lane_tip_next L (if bb_lane_expired b then bb_prev_seq_commit b else bb_prev_lane_tip b)
           (bi_lane_key i) (sl_activity_digest L (map (entry_leaf L) es)) ctx)
    \<and> bt_new_lane_blue_score t = (if es = [] then bb_prev_lane_blue_score b else bb_blue_score b)
    \<and> bt_lane_key t = bi_lane_key i \<and> bt_covenant_id t = bi_covenant_id i \<and> bt_tx_image_id t = bi_tx_image_id i
    \<and> (bt_lane_expired t = 0) = (\<not> bb_lane_expired b)"
proof -
  obtain v v' tip score where p: "bp_new usize_bits bs = Inr v" "verify_batch usize_bits accepts L v = Inr (v', tip, score)"
      "commit_batch_transition H v' tip score = Inr t"
    using assms(1) by (rule process_batch_Inr)
  note n = bp_new_Inr [OF p(1)]
  have i: "v_inputs v = i" "v_inputs v' = i" using n assms(2) verify_batch_inputs [OF p(2)] by auto
  obtain \<sigma> where "batch_state v \<sigma> \<sigma>" using bp_new_some_state [OF p(1)] by blast
  from verify_batch_effect [OF p(2) this] obtain js es where e:
      "batch_effect usize_bits accepts L i js es v' tip score"
    using n i(1) by auto
  have t: "bt_exits t = es_buf (v_exits v')" "bt_deposit_spk_hash t = v_deposit v'" "bt_prev_lane_tip t = bb_prev_lane_tip b"
      "bt_new_lane_tip t = tip" "bt_new_lane_blue_score t = score" "bt_lane_key t = bi_lane_key i"
      "bt_covenant_id t = bi_covenant_id i" "bt_tx_image_id t = bi_tx_image_id i"
      "bt_lane_expired t = of_bool (bb_lane_expired b)"
    using p(3) i(2) by (auto simp: commit_batch_transition_def Let_def b_def)
  show ?thesis
    using e unfolding t batch_effect_def Let_def b_def [symmetric] ctx_def [symmetric]
    by (intro exI [of _ js] exI [of _ es]) simp
qed

theorem batch_journal_sound_witness:
  "\<exists>t es. process_batch 64 (\<lambda>_ _. True) sample_lib framed_hash sample_input = Inr t
    \<and> bt_exits t = exit_bytes (PubKey (replicate 32 6), 5) \<and> bt_exits t = concat (map entry_exits es)
    \<and> bt_deposit_spk_hash t = replicate 32 8 \<and> uniform (replicate 32 8) (map entry_deposit es)"
proof -
  let ?b = "process_batch 64 (\<lambda>_ _. True) sample_lib framed_hash sample_input"
  obtain t where t: "?b = Inr t" "bt_exits t = exit_bytes (PubKey (replicate 32 6), 5)" "bt_deposit_spk_hash t = replicate 32 8"
    using sample_accepted by (cases ?b) auto
  obtain i where i: "bp_inputs_decode 64 sample_input = Inr i"
    using sample_decodes by (cases "bp_inputs_decode 64 sample_input") auto
  show ?thesis using batch_journal_sound [OF t(1) i] t by metis
qed

end
