(* ===== verification/Bundle_Sound.thy ===== *)
theory Bundle_Sound
  imports Batch_Aggregator Batch_Sound
begin

text \<open>
  What a settlement journal means: the batches of the bundle are proved, consistent and chained,
  their exits are committed in order, and the state advances by the transactions of all of them.
\<close>

subsection \<open>Bundles\<close>

text \<open>A list of batches with exits \<open>ess\<close> as an accepted bundle takes them in.\<close>

definition bundle_ok ::
  "acceptance \<Rightarrow> string \<Rightarrow> bytes \<Rightarrow> bytes list \<Rightarrow> batch_transition list \<Rightarrow> (standard_spk \<times> u64) list list \<Rightarrow> bool" where
  "bundle_ok accepts cast_error image_id js ts ess \<longleftrightarrow>
    ts \<noteq> []
    \<and> list_all2 (\<lambda>j t. accepts image_id j \<and> batch_transition_cast cast_error j = Inr t) js ts
    \<and> adjacent (\<lambda>a b. chains_onto a b = Inr ()) ts
    \<and> list_all2 (\<lambda>t es. exits_iter (bt_exits t) = Inr es) ts ess"

lemma absorb_batch_Inr:
  assumes "absorb_batch add_exit t (acc, dep) = Inr (acc', dep')" "uniform dep ds"
  shows "\<exists>es. exits_iter (bt_exits t) = Inr es \<and> fold_r add_exit es acc = Inr acc' \<and> uniform dep' (ds @ [bt_deposit_spk_hash t])"
  using assms carry_uniform by (auto simp: absorb_batch_def stream_exits_def)

lemma adjacent_snoc: "xs \<noteq> [] \<Longrightarrow> adjacent R (xs @ [y]) \<longleftrightarrow> adjacent R xs \<and> R (last xs) y"
  by (induction R xs rule: adjacent.induct) auto

lemma next_batches:
  assumes "fold_r (next_batch accepts cast_error add_exit image_id) js (last ts, acc, dep) = Inr (t', acc', dep')"
    "bundle_ok accepts cast_error image_id js0 ts ess" "fold_r add_exit (concat ess) acc0 = Inr acc"
    "uniform dep (map bt_deposit_spk_hash ts)"
  shows "\<exists>ts' ess'. bundle_ok accepts cast_error image_id (js0 @ js) (ts @ ts') (ess @ ess') \<and> t' = last (ts @ ts')
    \<and> fold_r add_exit (concat (ess @ ess')) acc0 = Inr acc' \<and> uniform dep' (map bt_deposit_spk_hash (ts @ ts'))"
  using assms
proof (induction js arbitrary: ts ess js0 acc dep)
  case Nil
  then show ?case by (intro exI [of _ "[]"]) simp
next
  case (Cons j js)
  from Cons.prems(1) obtain t acc1 dep1 where n: "accepts image_id j" "batch_transition_cast cast_error j = Inr t"
      "chains_onto (last ts) t = Inr ()" "absorb_batch add_exit t (acc, dep) = Inr (acc1, dep1)"
      "fold_r (next_batch accepts cast_error add_exit image_id) js (t, acc1, dep1) = Inr (t', acc', dep')"
    by (auto simp: next_batch_def [of _ _ _ _ j] ba_verified_journal_def)
  from absorb_batch_Inr [OF n(4) Cons.prems(4)] obtain es where es: "exits_iter (bt_exits t) = Inr es"
      "fold_r add_exit es acc = Inr acc1" "uniform dep1 (map bt_deposit_spk_hash (ts @ [t]))" by auto
  have ne: "ts \<noteq> []" using Cons.prems(2) by (simp add: bundle_ok_def)
  then have "adjacent (\<lambda>a b. chains_onto a b = Inr ()) (ts @ [t])"
    using n(3) Cons.prems(2) by (simp add: bundle_ok_def adjacent_snoc)
  then have ok: "bundle_ok accepts cast_error image_id (js0 @ [j]) (ts @ [t]) (ess @ [es])"
    using Cons.prems(2) n(1,2) es(1) by (auto simp: bundle_ok_def intro!: list_all2_appendI)
  have f: "fold_r add_exit (concat (ess @ [es])) acc0 = Inr acc1"
    using Cons.prems(3) es(2) by (simp add: fold_r_append)
  have "fold_r (next_batch accepts cast_error add_exit image_id) js (last (ts @ [t]), acc1, dep1) = Inr (t', acc', dep')"
    using n(5) by simp
  from Cons.IH [OF this ok f es(3)] obtain ts' ess' where
      "bundle_ok accepts cast_error image_id ((js0 @ [j]) @ js) ((ts @ [t]) @ ts') ((ess @ [es]) @ ess')"
      "t' = last ((ts @ [t]) @ ts')" "fold_r add_exit (concat ((ess @ [es]) @ ess')) acc0 = Inr acc'"
      "uniform dep' (map bt_deposit_spk_hash ((ts @ [t]) @ ts'))" by blast
  then show ?case by (intro exI [of _ "t # ts'"] exI [of _ "es # ess'"]) simp
qed

subsection \<open>The exit accumulator\<close>

text \<open>
  The contract of an accumulator: finalizing it after a list of exits gives the commitment to that
  list.  The aggregator then commits to the exits of all batches in order, whatever the accumulator.
\<close>

locale exit_accumulator =
  fixes acc_new :: 'a and add_exit :: "standard_spk \<times> u64 \<Rightarrow> 'a \<Rightarrow> string + 'a"
    and finalize :: "'a \<Rightarrow> string + bytes" and commit :: "(standard_spk \<times> u64) list \<Rightarrow> string + bytes"
  assumes finalize_fold: "fold_r add_exit es acc_new = Inr acc \<Longrightarrow> finalize acc = commit es"
begin

lemma aggregate_sound:
  assumes "aggregate acc_new add_exit finalize LL cast_error accepts bs = Inr s"
    "ba_inputs_decode LL cast_error bs = Inr i"
  shows "\<exists>js ts ess. journals_iter (ai_batch_journals i) = Inr js
    \<and> bundle_ok accepts cast_error (ai_batch_image_id i) js ts ess
    \<and> commit (concat ess) = Inr (st_permission_spk_hash s)
    \<and> uniform (st_deposit_spk_hash s) (map bt_deposit_spk_hash ts)
    \<and> new_seq_commit LL (ai_lane_proof i) (st_lane_key s) (st_new_lane_tip s) (bt_new_lane_blue_score (last ts)) = Inr (st_new_seq_commit s)
    \<and> st_prev_state s = bt_prev_state (hd ts) \<and> st_prev_lane_tip s = bt_prev_lane_tip (hd ts)
    \<and> st_new_state s = bt_new_state (last ts) \<and> st_new_lane_tip s = bt_new_lane_tip (last ts)
    \<and> st_covenant_id s = bt_covenant_id (hd ts) \<and> st_tx_image_id s = bt_tx_image_id (hd ts)
    \<and> st_lane_key s = bt_lane_key (hd ts) \<and> st_batch_image_id s = ai_batch_image_id i"
proof -
  from assms obtain first rest t acc dep js t' acc' dep' where a:
      "ai_batch_journals i \<noteq> []" "journal_entry (ai_batch_journals i) = Inr (first, rest)"
      "accepts (ai_batch_image_id i) first" "batch_transition_cast cast_error first = Inr t"
      "absorb_batch add_exit t (acc_new, ZERO_HASH) = Inr (acc, dep)" "journals_iter rest = Inr js"
      "fold_r (next_batch accepts cast_error add_exit (ai_batch_image_id i)) js (t, acc, dep) = Inr (t', acc', dep')"
      and c: "commit_state_transition LL finalize \<lparr>a_batch_image_id = ai_batch_image_id i, a_lane_proof = ai_lane_proof i,
        a_first_batch = t, a_remaining = rest, a_exits = acc', a_deposit = dep'\<rparr> t' = Inr s"
    by (auto simp: aggregate_def ba_new_def verify_batches_def entries_next_def ba_verified_journal_def split: if_splits)
  from absorb_batch_Inr [OF a(5) uniform_Nil] obtain es where es: "exits_iter (bt_exits t) = Inr es"
      "fold_r add_exit es acc_new = Inr acc" "uniform dep [bt_deposit_spk_hash t]" by auto
  have ok: "bundle_ok accepts cast_error (ai_batch_image_id i) [first] [t] [es]" using a(3,4) es(1) by (simp add: bundle_ok_def)
  have "fold_r (next_batch accepts cast_error add_exit (ai_batch_image_id i)) js (last [t], acc, dep) = Inr (t', acc', dep')"
    using a(7) by simp
  from next_batches [OF this ok, of acc_new] obtain ts' ess' where r:
      "bundle_ok accepts cast_error (ai_batch_image_id i) ([first] @ js) ([t] @ ts') ([es] @ ess')" "t' = last ([t] @ ts')"
      "fold_r add_exit (concat ([es] @ ess')) acc_new = Inr acc'" "uniform dep' (map bt_deposit_spk_hash ([t] @ ts'))"
    using es(2,3) by auto
  have "length rest < length (ai_batch_journals i)"
    using a(2) by (auto simp: journal_wire.dec_iff write_blob_def wr_len_def wr_u32_le_def)
  then have js: "journals_iter (ai_batch_journals i) = Inr ([first] @ js)"
    using a(1,2,6) by (simp add: journals_iter_def entries_all.simps [of _ "ai_batch_journals i"] entries_next_def)
  have "finalize acc' = commit (concat ([es] @ ess'))" by (rule finalize_fold [OF r(3)])
  then show ?thesis
    using c js r
    by (intro exI [of _ "[first] @ js"] exI [of _ "[t] @ ts'"] exI [of _ "[es] @ ess'"])
      (auto simp: commit_state_transition_def Let_def)
qed

end

interpretation permission_acc: exit_accumulator perm_acc_new "perm_add_exit cr" "perm_finalize cr" "exits_commitment cr"
  by unfold_locales (simp add: exits_commitment_def)

interpretation no_exits_acc: exit_accumulator "()" no_exits_add no_exits_finalize "\<lambda>_. Inr ZERO_HASH"
  by unfold_locales (simp add: no_exits_finalize_def)

subsection \<open>Properties\<close>

text \<open>C8: a settlement journal the aggregator commits stands for a non-empty list of batches whose
  journals were proved for the batch image; neighbours agree on lane, covenant and transaction
  image, each batch starts from the state and blue score its predecessor left, and from its lane tip
  unless its lane expired; the settlement spans from the first to the last of them, commits to their
  exits in order and to the one deposit address they agree on.\<close>

theorem bundle_sound:
  assumes "process_bundle cr LL cast_error accepts bs = Inr s" "ba_inputs_decode LL cast_error bs = Inr i"
  shows "\<exists>js ts ess. journals_iter (ai_batch_journals i) = Inr js \<and> ts \<noteq> []
    \<and> list_all2 (\<lambda>j t. accepts (ai_batch_image_id i) j \<and> batch_transition_cast cast_error j = Inr t) js ts
    \<and> adjacent (\<lambda>a b. bt_lane_key b = bt_lane_key a \<and> bt_covenant_id b = bt_covenant_id a \<and> bt_tx_image_id b = bt_tx_image_id a
         \<and> bt_prev_state b = bt_new_state a \<and> bt_prev_lane_blue_score b = bt_new_lane_blue_score a
         \<and> (bt_lane_expired b \<noteq> 0 \<or> bt_prev_lane_tip b = bt_new_lane_tip a)) ts
    \<and> list_all2 (\<lambda>t es. exits_iter (bt_exits t) = Inr es) ts ess
    \<and> exits_commitment cr (concat ess) = Inr (st_permission_spk_hash s)
    \<and> uniform (st_deposit_spk_hash s) (map bt_deposit_spk_hash ts)
    \<and> new_seq_commit LL (ai_lane_proof i) (st_lane_key s) (st_new_lane_tip s) (bt_new_lane_blue_score (last ts)) = Inr (st_new_seq_commit s)
    \<and> st_prev_state s = bt_prev_state (hd ts) \<and> st_prev_lane_tip s = bt_prev_lane_tip (hd ts)
    \<and> st_new_state s = bt_new_state (last ts) \<and> st_new_lane_tip s = bt_new_lane_tip (last ts)
    \<and> st_covenant_id s = bt_covenant_id (hd ts) \<and> st_tx_image_id s = bt_tx_image_id (hd ts)
    \<and> st_lane_key s = bt_lane_key (hd ts) \<and> st_batch_image_id s = ai_batch_image_id i"
proof -
  have c: "chains_onto a b = Inr () \<longleftrightarrow> bt_lane_key b = bt_lane_key a \<and> bt_covenant_id b = bt_covenant_id a
      \<and> bt_tx_image_id b = bt_tx_image_id a \<and> bt_prev_state b = bt_new_state a
      \<and> bt_prev_lane_blue_score b = bt_new_lane_blue_score a \<and> (bt_lane_expired b \<noteq> 0 \<or> bt_prev_lane_tip b = bt_new_lane_tip a)" for a b
    by (auto simp: chains_onto_def)
  show ?thesis
    using permission_acc.aggregate_sound [OF assms(1) [unfolded process_bundle_def] assms(2)]
    unfolding bundle_ok_def c by blast
qed

text \<open>The batch proofs of an image mean what the batch processor computes.\<close>

definition batch_proofs_sound ::
  "nat \<Rightarrow> acceptance \<Rightarrow> seq_lib \<Rightarrow> hasher \<Rightarrow> string \<Rightarrow> bytes \<Rightarrow> bool" where
  "batch_proofs_sound usize_bits accepts L H cast_error image_id \<longleftrightarrow>
    (\<forall>j t. accepts image_id j \<and> batch_transition_cast cast_error j = Inr t \<longrightarrow>
      (\<exists>b i. process_batch usize_bits accepts L H b = Inr t \<and> bp_inputs_decode usize_bits b = Inr i
        \<and> well_shaped H (bi_proof i)))"

text \<open>Entries proved for an image.\<close>

definition proved_entry :: "nat \<Rightarrow> acceptance \<Rightarrow> bytes \<Rightarrow> journal_entries \<Rightarrow> bool" where
  "proved_entry usize_bits accepts image_id e \<longleftrightarrow> (\<exists>j. accepts image_id j \<and> journal_entries_decode usize_bits j = Inr e)"

lemma replay_append: "replay \<sigma> es = Some \<sigma>' \<Longrightarrow> replay \<sigma> (es @ fs) = replay \<sigma>' fs"
  by (induction \<sigma> es rule: replay.induct) (auto split: option.splits)

lemma chained_batches_replay:
  assumes H: "ideal_hash H" and xs: "fits ROOT xs" "list_all live xs"
    and ts: "ts \<noteq> []" "adjacent (\<lambda>a b. chains_onto a b = Inr ()) ts" "bt_prev_state (hd ts) = spec_root H xs"
    and run: "\<forall>t \<in> set ts. \<exists>b i. process_batch usize_bits accepts L H b = Inr t \<and> bp_inputs_decode usize_bits b = Inr i
      \<and> well_shaped H (bi_proof i)"
  shows "\<exists>es \<sigma> ys. list_all (proved_entry usize_bits accepts (bt_tx_image_id (hd ts))) es
    \<and> replay (lookup_hash xs) es = Some \<sigma> \<and> fits ROOT ys \<and> list_all live ys \<and> lookup_hash ys = \<sigma>
    \<and> bt_new_state (last ts) = spec_root H ys"
  using xs ts run
proof (induction ts arbitrary: xs)
  case (Cons t ts)
  obtain b i where r: "process_batch usize_bits accepts L H b = Inr t" "bp_inputs_decode usize_bits b = Inr i" "well_shaped H (bi_proof i)"
    using Cons.prems(6) by auto
  have prev: "bt_prev_state t = spec_root H xs" using Cons.prems(5) by simp
  obtain js es \<sigma> ys where e: "list_all2 (\<lambda>j e. accepts (bi_tx_image_id i) j \<and> journal_entries_decode usize_bits j = Inr e) js es"
      "replay (lookup_hash xs) es = Some \<sigma>" "fits ROOT ys" "list_all live ys" "lookup_hash ys = \<sigma>"
      "bt_new_state t = spec_root H ys" "bt_tx_image_id t = bi_tx_image_id i"
    using accepted_batch_replays [OF r(1,2) H r(3) Cons.prems(1,2) prev] by blast
  have p: "list_all (proved_entry usize_bits accepts (bt_tx_image_id t)) es"
    using e(1) unfolding e(7) by (auto simp: list_all_length list_all2_conv_all_nth proved_entry_def)
  show ?case
  proof (cases "ts = []")
    case True
    then show ?thesis using e p by auto
  next
    case False
    then have c: "chains_onto t (hd ts) = Inr ()" "adjacent (\<lambda>a b. chains_onto a b = Inr ()) ts"
      using Cons.prems(4) by (cases ts; simp)+
    have "bt_prev_state (hd ts) = spec_root H ys" "bt_tx_image_id (hd ts) = bt_tx_image_id t"
      using c(1) e(6) by (simp_all add: chains_onto_def)
    then obtain es' \<sigma>' ys' where e': "list_all (proved_entry usize_bits accepts (bt_tx_image_id t)) es'"
        "replay (lookup_hash ys) es' = Some \<sigma>'" "fits ROOT ys'" "list_all live ys'" "lookup_hash ys' = \<sigma>'"
        "bt_new_state (last ts) = spec_root H ys'"
      using Cons.IH [OF e(3,4) False c(2)] Cons.prems(6) by auto
    have "replay (lookup_hash xs) (es @ es') = Some \<sigma>'" using replay_append [OF e(2)] e'(2) e(5) by simp
    then show ?thesis using e' p False by (intro exI [of _ "es @ es'"] exI [of _ \<sigma>'] exI [of _ ys']) simp
  qed
qed simp


end
