(* ===== verification/Bundle_Demo.thy ===== *)
theory Bundle_Demo
  imports Bundle_Sound
begin

text \<open>
  A bundle of one batch with one transaction, run through both verifiers: the concrete instance of
  the properties of \<open>Bundle_Sound\<close>.
\<close>

definition sample_hash :: hasher where
  "sample_hash d ps =
    (if d = [LEAF] \<and> ps = [sample_key, sample_value] then replicate 32 10
     else if d = [LEAF] \<and> ps = [sample_key, replicate 32 2] then replicate 32 11
     else framed_hash d ps)"

lemma sample_hash_ideal: "ideal_hash sample_hash"
proof -
  have f: "framed_hash d ps \<noteq> replicate 32 n" if "n \<noteq> 2" for d ps n
  proof
    assume "framed_hash d ps = replicate 32 n"
    then have "last (framed_hash d ps) = n" by simp
    then show False using that by (simp add: framed_hash_def)
  qed
  have r: "replicate 32 (10 :: byte) \<noteq> replicate 32 11" "replicate 32 (10 :: byte) \<noteq> replicate 32 0" "replicate 32 (11 :: byte) \<noteq> replicate 32 0"
    by (simp_all add: replicate_eq_replicate)
  have v: "sample_value \<noteq> replicate 32 2" by (simp add: sample_value_def replicate_eq_replicate)
  have inj: "d = d' \<and> ps = ps'" if "framed_hash d ps = framed_hash d' ps'" for d ps d' ps'
    using that framed_hash_ideal unfolding ideal_hash_def collision_free_def by blast
  have s: "sample_hash d ps = replicate 32 10 \<longleftrightarrow> d = [LEAF] \<and> ps = [sample_key, sample_value]"
      "sample_hash d ps = replicate 32 11 \<longleftrightarrow> d = [LEAF] \<and> ps = [sample_key, replicate 32 2]" for d ps
    using f [of 10 d ps] f [of 11 d ps] r(1) v by (auto simp: sample_hash_def)
  have "d = d' \<and> ps = ps'" if eq: "sample_hash d ps = sample_hash d' ps'" for d ps d' ps'
  proof (cases "sample_hash d ps = replicate 32 10 \<or> sample_hash d ps = replicate 32 11")
    case True
    then show ?thesis using s [of d ps] s [of d' ps'] eq by metis
  next
    case False
    then have "framed_hash d ps = framed_hash d' ps'" using eq s [of d ps] s [of d' ps'] by (auto simp: sample_hash_def)
    then show ?thesis by (rule inj)
  qed
  moreover have "sample_hash d ps \<noteq> EMPTY_HASH" for d ps
    using f [of 0 d ps] r by (auto simp: sample_hash_def EMPTY_HASH_def)
  ultimately show ?thesis unfolding ideal_hash_def collision_free_def by blast
qed

definition sample_transition :: batch_transition where
  "sample_transition = \<lparr>bt_prev_state = replicate 32 10, bt_prev_lane_tip = replicate 32 3, bt_prev_lane_blue_score = 11,
     bt_new_state = replicate 32 11, bt_new_lane_tip = replicate 32 4, bt_new_lane_blue_score = 12,
     bt_lane_key = replicate 32 0, bt_covenant_id = replicate 32 0, bt_tx_image_id = replicate 32 0,
     bt_deposit_spk_hash = replicate 32 8, bt_lane_expired = 0, bt_exits = exit_bytes (PubKey (replicate 32 6), 5)\<rparr>"

definition sample_accepts :: acceptance where
  "sample_accepts image_id j \<longleftrightarrow> (image_id = replicate 32 0 \<and> j = sample_journal)
    \<or> (image_id = replicate 32 1 \<and> j = batch_transition_encode sample_transition)"

definition sample_lane_lib :: lane_lib where
  "sample_lane_lib = \<lparr>ll_full_tag = 0, ll_collapsed_tag = 1, ll_collapsed_other_tag = 2, ll_leaf_hash = (\<lambda>t s. t),
     ll_compute_root = (\<lambda>_ _ h. Some h), ll_activity_root = (\<lambda>_ h. h), ll_state_root = (\<lambda>h _. h), ll_seq_commit = (\<lambda>_ h. h)\<rparr>"

definition sample_bundle :: bytes where
  "sample_bundle = ba_inputs_encode (replicate 32 1)
    (lane_proof_encode (replicate 32 0) (replicate 32 0) (replicate 32 0) (replicate 32 0 @ [0]))
    [batch_transition_encode sample_transition]"

lemma sample_batch_runs: "process_batch 64 sample_accepts sample_lib sample_hash sample_input = Inr sample_transition"
  by code_simp

lemma sample_cast: "batch_transition_cast '''' (batch_transition_encode sample_transition) = Inr sample_transition"
  by code_simp

lemma sample_bundle_runs:
  "map_sum id (\<lambda>s. (st_prev_state s, st_new_state s, st_deposit_spk_hash s, st_tx_image_id s))
      (process_bundle pad_crypto sample_lane_lib '''' sample_accepts sample_bundle)
    = Inr (replicate 32 10, replicate 32 11, replicate 32 8, replicate 32 0)"
  "map_sum id (\<lambda>i. (ai_batch_image_id i, journals_iter (ai_batch_journals i))) (ba_inputs_decode sample_lane_lib '''' sample_bundle)
    = Inr (replicate 32 1, Inr [batch_transition_encode sample_transition])"
  by code_simp+

lemma sample_bundle_obtain:
  obtains s i where "process_bundle pad_crypto sample_lane_lib '''' sample_accepts sample_bundle = Inr s"
    "st_prev_state s = replicate 32 10" "st_new_state s = replicate 32 11" "st_deposit_spk_hash s = replicate 32 8"
    "st_tx_image_id s = replicate 32 0"
    "ba_inputs_decode sample_lane_lib '''' sample_bundle = Inr i" "ai_batch_image_id i = replicate 32 1"
    "journals_iter (ai_batch_journals i) = Inr [batch_transition_encode sample_transition]"
  using sample_bundle_runs
  by (cases "process_bundle pad_crypto sample_lane_lib '''' sample_accepts sample_bundle";
      cases "ba_inputs_decode sample_lane_lib '''' sample_bundle") auto

theorem bundle_sound_witness:
  "\<exists>s (ts :: batch_transition list) ess. process_bundle pad_crypto sample_lane_lib '''' sample_accepts sample_bundle = Inr s
    \<and> exits_commitment pad_crypto (concat ess) = Inr (st_permission_spk_hash s)
    \<and> uniform (replicate 32 8) (map bt_deposit_spk_hash ts) \<and> st_new_state s = bt_new_state (last ts)"
proof -
  obtain s i where s: "process_bundle pad_crypto sample_lane_lib '''' sample_accepts sample_bundle = Inr s"
      "st_deposit_spk_hash s = replicate 32 8" "ba_inputs_decode sample_lane_lib '''' sample_bundle = Inr i"
    by (rule sample_bundle_obtain)
  from bundle_sound [OF s(1,3)] obtain ts :: "batch_transition list" and ess where
      "exits_commitment pad_crypto (concat ess) = Inr (st_permission_spk_hash s)"
      "uniform (st_deposit_spk_hash s) (map bt_deposit_spk_hash ts)" "st_new_state s = bt_new_state (last ts)"
    by (elim exE conjE) (rule that, assumption+)
  then show ?thesis using s(1,2) by (intro exI [of _ s] exI [of _ ts] exI [of _ ess]) simp
qed


end
