(* ===== verification/Lane_Chain.thy ===== *)
theory Lane_Chain
  imports Bundle_Demo
begin

text \<open>
  The wire formats between host, batch processor and aggregator read back what was written, and a
  bundle the chain of lane tips does not protect: two batches without transactions, the second
  marked as expired, settle any lane tip on an unchanged state.
\<close>

subsection \<open>Round trips\<close>

definition pins_ok :: "batch_pins \<Rightarrow> bool" where
  "pins_ok pins \<longleftrightarrow> length (bi_tx_image_id pins) = 32 \<and> length (bi_covenant_id pins) = 32
    \<and> length (bi_deposit_spk_hash pins) = 32 \<and> length (bi_lane_key pins) = 32"

definition metadata_ok :: "bp_batch \<Rightarrow> bool" where
  "metadata_ok m \<longleftrightarrow> length (bb_prev_seq_commit m) = 32 \<and> length (bb_prev_lane_tip m) = 32"

lemma journals_length_word:
  "sum_list (map (\<lambda>j. 4 + word_of_nat (length j)) js) = (word_of_nat (length (concat (map write_blob js))) :: u32)"
  by (induction js) (simp_all add: write_blob_def wr_len_def wr_u32_le_def)

lemma batch_round_trip:
  assumes "metadata_ok m" "length (concat (map write_blob js)) < 2 ^ 32"
  shows "bp_batch_decode (bp_batch_encode m js @ rest) = Inr (m\<lparr>bb_tx_journals := concat (map write_blob js)\<rparr>, rest)"
proof -
  have "wr_u32_le (sum_list (map (\<lambda>j. 4 + word_of_nat (length j)) js)) @ concat (map write_blob js) @ rest
      = write_blob (concat (map write_blob js)) @ rest"
    by (simp add: journals_length_word write_blob_def [of "concat _"] wr_len_def)
  then have e: "bp_batch_encode m js @ rest = wr_u64_le (bb_blue_score m) @ wr_u64_le (bb_daa_score m) @ wr_u64_le (bb_prev_timestamp m)
      @ bb_prev_seq_commit m @ bb_prev_lane_tip m @ wr_u64_le (bb_prev_lane_blue_score m)
      @ [of_bool (bb_lane_expired m)] @ write_blob (concat (map write_blob js)) @ rest"
    by (simp add: bp_batch_encode_def)
  show ?thesis
    unfolding e using assms
    by (cases m) (simp add: bp_batch_decode_def metadata_ok_def rd_bool_def)
qed

lemma bp_inputs_round_trip:
  assumes "pins_ok pins" "metadata_ok m" "proof_valid usize_bits p" "length (proof_encode p) < 2 ^ 32"
    "length (concat (map write_blob js)) < 2 ^ 32"
  shows "bp_inputs_decode usize_bits (bp_inputs_encode pins (proof_encode p) m js)
    = Inr \<lparr>bi_tx_image_id = bi_tx_image_id pins, bi_covenant_id = bi_covenant_id pins,
        bi_deposit_spk_hash = bi_deposit_spk_hash pins, bi_lane_key = bi_lane_key pins, bi_proof = p,
        bi_batch = m\<lparr>bb_tx_journals := concat (map write_blob js)\<rparr>\<rparr>"
  using assms batch_round_trip [OF assms(2,5), of "[]"] proof_round_trip [OF assms(3), of "[]"]
  by (simp add: bp_inputs_decode_def bp_inputs_encode_def pins_ok_def)

definition transition_ok :: "batch_transition \<Rightarrow> bool" where
  "transition_ok t \<longleftrightarrow> length (bt_prev_state t) = 32 \<and> length (bt_prev_lane_tip t) = 32 \<and> length (bt_new_state t) = 32
    \<and> length (bt_new_lane_tip t) = 32 \<and> length (bt_lane_key t) = 32 \<and> length (bt_covenant_id t) = 32
    \<and> length (bt_tx_image_id t) = 32 \<and> length (bt_deposit_spk_hash t) = 32"

lemma le_nat_wr_u64: "word_of_nat (le_nat (wr_u64_le x)) = x" "length (wr_u64_le x) = 8"
  using word_bytes_bound(3) [of x] by (simp_all add: wr_u64_le_def le_nat_le_bytes)

lemma transition_round_trip:
  "transition_ok t \<Longrightarrow> batch_transition_cast cast_error (batch_transition_encode t) = Inr t"
  by (cases t)
    (simp add: transition_ok_def batch_transition_cast_def batch_transition_encode_def BATCH_HEADER_def le_nat_wr_u64 nth_append)

subsection \<open>A batch without transactions\<close>

definition current_values :: "smt_proof \<Rightarrow> hash list" where
  "current_values p = map (\<lambda>j. case pf_member p j of Inr m \<Rightarrow> member_value_hash m | Inl _ \<Rightarrow> []) [0..<length (pf_memberships p)]"

definition opens :: "nat \<Rightarrow> hasher \<Rightarrow> smt_proof \<Rightarrow> hash \<Rightarrow> bool" where
  "opens usize_bits H p r \<longleftrightarrow> proof_valid usize_bits p \<and> length (proof_encode p) < 2 ^ 32
    \<and> check_sorted_queried_keys p = Inr () \<and> all_members_ok p
    \<and> compute_roots H p (\<lambda>q. current_values p ! q) = Inr (r, r) \<and> length r = 32"

lemma members_latest:
  assumes "all_members_ok p"
  shows "map_r (\<lambda>m. rbind (expect msg m) (\<lambda>m. Inr (member_value_hash m))) (pf_members p) = Inr (current_values p)"
proof -
  have "map_r (\<lambda>m. rbind (expect msg m) (\<lambda>m. Inr (member_value_hash m))) (map (pf_member p) js)
      = Inr (map (\<lambda>j. case pf_member p j of Inr m \<Rightarrow> member_value_hash m | Inl _ \<Rightarrow> []) js)"
    if "set js \<subseteq> {..<length (pf_memberships p)}" for js
    using that
  proof (induction js)
    case (Cons j js)
    then have "is_ok (pf_member p j)" using assms by (simp add: all_members_ok_def)
    then obtain m where "pf_member p j = Inr m" by (cases "pf_member p j") simp_all
    then show ?case using Cons by simp
  qed simp
  then show ?thesis unfolding pf_members_def current_values_def by (simp add: lessThan_atLeast0)
qed

definition idle_transition :: "batch_pins \<Rightarrow> bp_batch \<Rightarrow> hash \<Rightarrow> batch_transition" where
  "idle_transition pins m r = \<lparr>bt_prev_state = r, bt_prev_lane_tip = bb_prev_lane_tip m,
     bt_prev_lane_blue_score = bb_prev_lane_blue_score m, bt_new_state = r, bt_new_lane_tip = bb_prev_lane_tip m,
     bt_new_lane_blue_score = bb_prev_lane_blue_score m, bt_lane_key = bi_lane_key pins, bt_covenant_id = bi_covenant_id pins,
     bt_tx_image_id = bi_tx_image_id pins, bt_deposit_spk_hash = ZERO_HASH,
     bt_lane_expired = of_bool (bb_lane_expired m), bt_exits = []\<rparr>"

lemma idle_batch:
  assumes "pins_ok pins" "metadata_ok m" "opens usize_bits H p r"
  shows "process_batch usize_bits accepts L H (bp_inputs_encode pins (proof_encode p) m []) = Inr (idle_transition pins m r)"
  using assms bp_inputs_round_trip [of pins m usize_bits p "[]"] members_latest [of p]
  by (simp add: process_batch_def bp_new_def verify_batch_def commit_batch_transition_def opens_def idle_transition_def exit_sink_new_def)

lemma idle_transition_ok: "pins_ok pins \<Longrightarrow> metadata_ok m \<Longrightarrow> length r = 32 \<Longrightarrow> transition_ok (idle_transition pins m r)"
  by (simp add: pins_ok_def metadata_ok_def transition_ok_def idle_transition_def ZERO_HASH_def)

lemma idle_absorbed: "absorb_batch add_exit (idle_transition pins m r) (acc, ZERO_HASH) = Inr (acc, ZERO_HASH)"
  by (simp add: absorb_batch_def stream_exits_def idle_transition_def carry_deposit_hash_def exits_iter_def
      entries_all.simps entries_next_def)

subsection \<open>Two batches without transactions\<close>

lemma two_batches:
  assumes "transition_ok t1" "transition_ok t2" "length (bt_exits t1) < 2 ^ 31" "length (bt_exits t2) < 2 ^ 31"
    and lane: "\<And>rest. lane_proof_decode LL cast_error (lane_bytes @ rest) = Inr (lane, rest)" "length image_id = 32"
    and acc: "accepts image_id (batch_transition_encode t1)" "accepts image_id (batch_transition_encode t2)"
    and run: "chains_onto t1 t2 = Inr ()" "absorb_batch add_exit t1 (acc0, ZERO_HASH) = Inr (acc1, dep1)"
      "absorb_batch add_exit t2 (acc1, dep1) = Inr (acc2, dep2)"
  shows "aggregate acc0 add_exit finalize LL cast_error accepts
      (ba_inputs_encode image_id lane_bytes [batch_transition_encode t1, batch_transition_encode t2])
    = commit_state_transition LL finalize \<lparr>a_batch_image_id = image_id, a_lane_proof = lane, a_first_batch = t1,
        a_remaining = write_blob (batch_transition_encode t2), a_exits = acc2, a_deposit = dep2\<rparr> t2"
proof -
  let ?j = batch_transition_encode
  have len: "length (?j t) < 2 ^ 32" if "transition_ok t" "length (bt_exits t) < 2 ^ 31" for t
    using that by (simp add: transition_ok_def batch_transition_encode_def le_nat_wr_u64)
  have i: "ba_inputs_decode LL cast_error (ba_inputs_encode image_id lane_bytes [?j t1, ?j t2])
      = Inr \<lparr>ai_batch_image_id = image_id, ai_lane_proof = lane, ai_batch_journals = write_blob (?j t1) @ write_blob (?j t2)\<rparr>"
    using lane by (simp add: ba_inputs_decode_def ba_inputs_encode_def)
  have first: "entries_next journal_entry (write_blob (?j t1) @ write_blob (?j t2)) = Some (Inr (?j t1, write_blob (?j t2)))"
    using journal_wire.dec_enc journal_wire.enc_ne len assms(1,3) by (simp add: entries_next_def)
  have rest: "journals_iter (write_blob (?j t2)) = Inr [?j t2]"
    using journal_wire.entries_round_trip [of "[?j t2]"] len assms(2,4) by (simp add: journals_iter_def)
  have t: "ba_verified_journal accepts cast_error image_id (?j t1) = Inr t1" "ba_verified_journal accepts cast_error image_id (?j t2) = Inr t2"
    using acc assms(1,2) by (simp_all add: ba_verified_journal_def transition_round_trip)
  show ?thesis
    using run by (simp add: aggregate_def ba_new_def verify_batches_def i first rest t next_batch_def expect_def)
qed

text \<open>C19: a bundle that skips lane activity.  From any state a proof opens, and whatever the previous
  lane tip was, a prover whose batch proofs are accepted settles the lane at any tip and blue score the
  sequencing commitment holds: two batches without transactions, the second marked as expired,
  leave the state as it was and make no step of the lane between the two tips.\<close>

theorem lane_activity_skipped:
  assumes "pins_ok pins" "opens usize_bits H p r" "length prev_tip = 32" "length tip = 32" "length image_id = 32"
    and complete: "\<And>b t. process_batch usize_bits accepts L H b = Inr t \<Longrightarrow> accepts image_id (batch_transition_encode t)"
    and lane: "\<And>rest. lane_proof_decode LL cast_error (lane_bytes @ rest) = Inr (lane, rest)"
      "new_seq_commit LL lane (bi_lane_key pins) tip blue_score = Inr seq_commit"
  shows "\<exists>bs s. process_bundle cr LL cast_error accepts bs = Inr s
    \<and> st_prev_state s = r \<and> st_new_state s = r \<and> st_prev_lane_tip s = prev_tip \<and> st_new_lane_tip s = tip
    \<and> st_new_seq_commit s = seq_commit \<and> st_lane_key s = bi_lane_key pins \<and> st_covenant_id s = bi_covenant_id pins
    \<and> st_tx_image_id s = bi_tx_image_id pins \<and> st_batch_image_id s = image_id
    \<and> st_permission_spk_hash s = ZERO_HASH \<and> st_deposit_spk_hash s = ZERO_HASH"
proof -
  let ?m = "\<lambda>prev expired. \<lparr>bb_blue_score = 0, bb_daa_score = 0, bb_prev_timestamp = 0, bb_prev_seq_commit = replicate 32 0,
    bb_prev_lane_tip = prev, bb_prev_lane_blue_score = blue_score, bb_lane_expired = expired, bb_tx_journals = []\<rparr>"
  define t1 t2 where t: "t1 = idle_transition pins (?m prev_tip False) r" "t2 = idle_transition pins (?m tip True) r"
  have m: "metadata_ok (?m prev_tip False)" "metadata_ok (?m tip True)" using assms(3,4) by (simp_all add: metadata_ok_def)
  have ok: "transition_ok t1" "transition_ok t2"
    using idle_transition_ok [OF assms(1)] m assms(2) by (simp_all add: t opens_def)
  have acc: "accepts image_id (batch_transition_encode t1)" "accepts image_id (batch_transition_encode t2)"
    unfolding t using idle_batch [OF assms(1) m(1) assms(2)] idle_batch [OF assms(1) m(2) assms(2)] by (blast intro: complete)+
  have ex: "length (bt_exits t1) < 2 ^ 31" "length (bt_exits t2) < 2 ^ 31" by (simp_all add: t idle_transition_def)
  have "chains_onto t1 t2 = Inr ()" by (simp add: t chains_onto_def idle_transition_def)
  moreover have "absorb_batch (perm_add_exit cr) t1 (perm_acc_new, ZERO_HASH) = Inr (perm_acc_new, ZERO_HASH)"
      "absorb_batch (perm_add_exit cr) t2 (perm_acc_new, ZERO_HASH) = Inr (perm_acc_new, ZERO_HASH)"
    unfolding t by (rule idle_absorbed)+
  ultimately have run: "aggregate perm_acc_new (perm_add_exit cr) (perm_finalize cr) LL cast_error accepts
      (ba_inputs_encode image_id lane_bytes [batch_transition_encode t1, batch_transition_encode t2])
    = commit_state_transition LL (perm_finalize cr) \<lparr>a_batch_image_id = image_id, a_lane_proof = lane, a_first_batch = t1,
        a_remaining = write_blob (batch_transition_encode t2), a_exits = perm_acc_new, a_deposit = ZERO_HASH\<rparr> t2"
    by (rule two_batches [where accepts = accepts and image_id = image_id, OF ok ex lane(1) assms(5) acc])
  show ?thesis
    unfolding process_bundle_def
    by (intro exI [of _ "ba_inputs_encode image_id lane_bytes [batch_transition_encode t1, batch_transition_encode t2]"])
      (unfold run, simp add: commit_state_transition_def t idle_transition_def lane(2) perm_finalize_def perm_acc_new_def mt_new_def leaf_count_def)
qed

lemma sample_opens: "opens 64 sample_hash (one_leaf_proof sample_key sample_value) (replicate 32 10)"
  by code_simp

lemma sample_lane:
  "lane_proof_decode sample_lane_lib '''' (lane_proof_encode (replicate 32 0) (replicate 32 0) (replicate 32 0) (replicate 32 0 @ [0]) @ rest)
    = Inr (\<lparr>lp_payload_and_ctx_digest = replicate 32 0, lp_prev_seq_commit = replicate 32 0, lp_inactivity_shortcut = replicate 32 0,
        lp_lane_smt_proof = \<lparr>ls_bitmap = replicate 32 0, ls_terminal = TermFull, ls_siblings = []\<rparr>\<rparr>, rest)"
proof -
  have "decode_smt_proof sample_lane_lib '''' (replicate 32 0 @ [0])
      = Inr \<lparr>ls_bitmap = replicate 32 0, ls_terminal = TermFull, ls_siblings = []\<rparr>"
    by code_simp
  then show ?thesis by (simp add: lane_proof_decode_def lane_proof_encode_def)
qed

theorem lane_activity_skipped_witness:
  "\<exists>bs s. process_bundle pad_crypto sample_lane_lib '''' (\<lambda>_ _. True) bs = Inr s
    \<and> st_prev_state s = replicate 32 10 \<and> st_new_state s = replicate 32 10
    \<and> st_prev_lane_tip s = replicate 32 1 \<and> st_new_lane_tip s = replicate 32 2 \<and> st_new_seq_commit s = replicate 32 2"
proof -
  have "pins_ok sample_pins" by (simp add: pins_ok_def sample_pins_def)
  moreover have "new_seq_commit sample_lane_lib lane key (replicate 32 2) 9 = Inr (replicate 32 2)" for lane key
    by (simp add: new_seq_commit_def sample_lane_lib_def)
  ultimately show ?thesis
    using lane_activity_skipped [OF _ sample_opens, where prev_tip = "replicate 32 1" and tip = "replicate 32 2"
        and image_id = "replicate 32 0" and accepts = "\<lambda>_ _. True" and cr = pad_crypto, OF _ _ _ _ _ sample_lane]
    by simp blast
qed

end
