(* ===== verification/Spec2Isabelle.thy ===== *)
theory Spec2Isabelle
  imports SMT_Builder Canonical_Chain Runtime_Demo Lane_Chain
begin

text \<open>
  Verification of the vprogs workspace: a based rollup on Kaspa.  L1 transactions carry programs;
  a zkVM guest executes each transaction over resources, a second guest folds the transactions of a
  block into a batch, a third folds batches into a bundle whose journal an L1 covenant settles.  The
  resources live in a versioned sparse Merkle tree.

  \<^bold>\<open>How the parts interact.\<close>  The tree writer (\<open>core/smt\<close>) commits value hashes and the prover
  emits a multi-proof for the resources of a batch.  The transaction guest decodes resources from its
  input buffer, runs a program (here the runtime program with users, locks, deposits and
  withdrawals), and commits a journal of what each resource was and became.  The batch guest checks
  the journals of a block against the multi-proof and commits the state roots, exits and lane tip.
  The aggregator chains batches, accumulates their exits in a permission tree and commits the
  settlement.  Beside this pipeline, the canonical chain tells the storage which batches are on the
  selected chain.

  \<^bold>\<open>Theories and sources.\<close>
  \<^item> \<open>Prelude\<close>: machine types, the result type \<open>'e + 'a\<close> with \<open>rbind\<close> for \<open>?\<close>, fallible loops
    \<open>fold_r\<close> and \<open>map_r\<close>, little- and big-endian numbers.
  \<^item> \<open>Codec\<close>: \<open>core/codec/src\<close>, readers and writers of byte buffers as functions that return the rest
    of the buffer; contracts \<open>wire_codec\<close> and \<open>canonical_codec\<close>.
  \<^item> \<open>SMT_Base\<close>, \<open>SMT_Update\<close>: \<open>core/smt/src\<close>, nodes, positions, the updater; the specification
    \<open>spec_node\<close> of a tree by its entries.
  \<^item> \<open>SMT_Proof\<close>, \<open>SMT_Sound\<close>, \<open>SMT_Builder\<close>: \<open>core/smt/src/proving\<close>, the verifier, what a proof
    establishes, and the prover.
  \<^item> \<open>Atomic_Ring\<close>, \<open>Canonical_Chain\<close>: \<open>core/atomics/src/atomic_ring.rs\<close> and
    \<open>storage/canonical-chain/src\<close>; rings and buckets live in a heap with addresses, so that
    snapshots share them as the code does; runs are an inductive relation.
  \<^item> \<open>ABI_Types\<close>, \<open>Crypto\<close>, \<open>ABI_Resource\<close>, \<open>ABI_Transaction\<close>, \<open>Tx_Journal\<close>: \<open>zk/abi/src\<close>,
    \<open>core/hashing/src\<close> and \<open>l1/utils/src/tx_id.rs\<close>; errors, sinks, resource views,
    \<open>process_transaction\<close> and the meaning of its journal.
  \<^item> \<open>Runtime_Locks\<close>, \<open>Runtime_Resources\<close>, \<open>Runtime_Auth\<close>, \<open>Runtime_Actions\<close>:
    \<open>zk/backend/risc0/runtime-processor/src\<close>; locks, stored records, signers and the six actions.
    \<open>Runtime_Ledger\<close> holds the abstract ledger and the simulation, \<open>Runtime_Spec\<close> the properties of
    \<open>run\<close>, \<open>Runtime_Demo\<close> a concrete transaction.
  \<^item> \<open>Merkle_Builder\<close>, \<open>Permission_Script\<close>: \<open>core/merkle-tree/src\<close> and the exit tree and redeem
    script of \<open>zk/backend/risc0/api/src\<close>.
  \<^item> \<open>Batch_Verifier\<close>, \<open>Batch_Sound\<close>: \<open>zk/abi/src/batch_processor\<close> and its guest.
  \<^item> \<open>Batch_Aggregator\<close>, \<open>Bundle_Sound\<close>, \<open>Bundle_Demo\<close>, \<open>Lane_Chain\<close>:
    \<open>zk/abi/src/batch_aggregator\<close> and its guest.
  \<^item> This theory: the agreement of prover, verifier and writer.

  \<^bold>\<open>Conventions.\<close>  A Rust struct is a record, an enum a datatype, a machine integer a word, and a byte
  slice a list of bytes.  A fallible function returns its error on the left of a sum; a panic is such
  an error too, a message or the constructor of a fault type.  Iterators over encoded entries are
  decoded in one go where the code decodes lazily; both stop at the first bad entry with an error.
  Code outside \<open>src\<close> is a parameter: hash functions (\<open>hasher\<close>, the record \<open>crypto\<close>), signature
  verification, proof verification (\<open>acceptance\<close>), the sequencing and lane-tree hashes
  (\<open>seq_lib\<close>, \<open>lane_lib\<close>), the texts of zerocopy errors, the deposit policy and the program handler.
  \<open>usize_bits\<close> is the width of \<open>usize\<close>, 32 in a guest and 64 on a host.

  \<^bold>\<open>What is shown.\<close>
  \<^item> Settlement: a committed bundle is a chain of proved batches whose state advances by proved
    transactions only (\<open>bundle_sound\<close>, \<open>bundle_state_sound\<close>, \<open>batch_state_sound\<close>,
    \<open>batch_journal_sound\<close>, \<open>journal_agrees\<close>); its exits are bound by the settlement
    (\<open>exits_commitment_binds\<close>, \<open>merkle_root_correct\<close>, \<open>redeem_script_self_reference\<close>).
  \<^item> Runtime: a run is a run of the ledger, conserves value, touches no user whose lock stays closed,
    opens locks on authority only and never panics.
  \<^item> Tree: the writer refines the entry-list specification, the prover succeeds, the verifier is sound
    for well-shaped proofs, and all three agree.
  \<^item> Storage: the canonical chain refines a set of ids, and snapshots are stable.
  \<^item> Flaws, as theorems: \<open>lane_activity_skipped\<close>, \<open>forged_absence\<close>, \<open>empty_query_root\<close>,
    \<open>returning_block_lost\<close>.

  \<^bold>\<open>Hypotheses.\<close>  Tree properties assume an ideal hash (\<open>ideal_hash\<close>: no collisions, no empty hash);
  \<open>framed_hash\<close> is one.  The exit commitment assumes only that SHA-256 and BLAKE2b do not collide on
  the messages at hand.  \<open>well_shaped\<close> is what the prover guarantees and the verifier does not check;
  \<open>forged_absence\<close> shows that it cannot be dropped.  \<open>batch_proofs_sound\<close> reads an accepted batch
  proof as a run of the batch guest on well-shaped proofs.

  \<^bold>\<open>Bounds and termination.\<close>  No definition uses fuel: the tree recursions descend the 256 levels of
  a key, the decoders consume their buffer, and the remaining loops are structural.  Size bounds in
  statements are those of the wire format (\<open>2 ^ 32\<close> for lengths) or of the tables (\<open>2 ^ 31\<close> keys in a
  proof, \<open>2 ^ max_depth\<close> leaves in a builder).

  \<^bold>\<open>Not modelled.\<close>  Scheduler and worker pools, where the interleaving of atomics is the point; memory
  orderings, each writer operation being one atomic step; the storage manager and RocksDB; L1 bridge,
  wallet, settler and provers, which are asynchronous clients of external services; the settlement
  covenant and the execution of redeem scripts, whose interpreter is not part of the repository;
  node, runner, simulation and examples; the earlier runtime crates under \<open>transaction-runtime\<close>.
\<close>

lemma dedup_last_id: "key_sorted cs \<Longrightarrow> dedup_last cs = cs"
  by (induction cs rule: dedup_last.induct) (auto simp: key_sorted_def)

lemma key_sorted_sorted: "key_sorted cs \<Longrightarrow> sorted (map fst cs)"
  by (auto simp: key_sorted_def sorted_map elim!: sorted_wrt_mono_rel [rotated])

lemma normal_commits_id: "key_sorted cs \<Longrightarrow> normal_commits cs = cs"
  by (simp add: normal_commits_def dedup_last_id sort_key_id_if_sorted key_sorted_sorted)

lemma built_changes:
  assumes "built_for keys p"
  shows "queried_changes p nv = zip keys (map nv [0..<length keys])"
proof (rule nth_equalityI)
  fix i assume "i < length (queried_changes p nv)"
  moreover have "length (pf_memberships p) = length keys" using assms by (simp add: built_for_def)
  moreover have "take (length keys) (pf_keys p) = keys" using assms by (simp add: built_for_def)
  ultimately show "queried_changes p nv ! i = zip keys (map nv [0..<length keys]) ! i"
    by (simp add: queried_changes_def member_changes_def) (metis nth_take)
qed (use assms in \<open>simp add: built_for_def queried_changes_def member_changes_def\<close>)

lemma built_checked:
  assumes "built_for keys p" "sorted_wrt (<) keys"
  shows "proof_checked p"
proof -
  have "length keys \<le> length (pf_keys p)" using assms(1) unfolding built_for_def by (metis length_take min.absorb_iff2 min.commute)
  then show ?thesis
    using assms by (simp add: built_for_def proof_checked_def check_sorted_queried_keys_def adjacent_sorted_wrt)
qed



end
